theory Spec2Isabelle
  imports Complex_Main "HOL-Library.Monad_Syntax" "HOL-Library.Word"
begin

section \<open>Numbers\<close>

text \<open>
  The program computes with JavaScript numbers. They are modelled by the real numbers:
  rounding and overflow are left out, and a result that is no real number
  (\<^verbatim>\<open>Infinity\<close>, \<^verbatim>\<open>-Infinity\<close>, \<^verbatim>\<open>NaN\<close>) is the value \<open>None\<close>. The same \<open>None\<close> stands
  for a \<^verbatim>\<open>TypeError\<close>: in both cases the run has left the numbers the model speaks
  about.

  \<^verbatim>\<open>x ** p\<close>: \<open>1\<close> for \<open>p = 0\<close>; the real power for a positive base; for base \<open>0\<close> the
  result is \<open>0\<close> when \<open>p\<close> is positive and \<^verbatim>\<open>Infinity\<close> when it is negative; for a negative
  base an integer power when \<open>p\<close> is an integer and \<^verbatim>\<open>NaN\<close> otherwise.
\<close>

definition js_pow :: "real \<Rightarrow> real \<Rightarrow> real option" where
  "js_pow x p =
     (if p = 0 then Some 1
      else if 0 < x then Some (x powr p)
      else if x = 0 then (if 0 < p then Some 0 else None)
      else if p = of_int \<lfloor>p\<rfloor> then Some (x powi \<lfloor>p\<rfloor>)
      else None)"

text \<open>\<^verbatim>\<open>xs[i]\<close>: \<^verbatim>\<open>undefined\<close> out of range.\<close>

definition idx :: "'a list \<Rightarrow> nat \<Rightarrow> 'a option" where
  "idx xs i = (if i < length xs then Some (xs ! i) else None)"

text \<open>\<^verbatim>\<open>xs.reduce(f)\<close> with no initial value: a \<^verbatim>\<open>TypeError\<close> on the empty array.\<close>

definition reduce :: "('a \<Rightarrow> 'a \<Rightarrow> 'a) \<Rightarrow> 'a list \<Rightarrow> 'a option" where
  "reduce f xs = (case xs of [] \<Rightarrow> None | x # rest \<Rightarrow> Some (foldl f x rest))"

text \<open>\<^verbatim>\<open>xs.map((x, i) => f(x, i))\<close>.\<close>

definition imap :: "('a \<Rightarrow> nat \<Rightarrow> 'b) \<Rightarrow> 'a list \<Rightarrow> 'b list" where
  "imap f xs = map (\<lambda>(x, i). f x i) (zip xs [0..<length xs])"

section \<open>Autograd: the class \<^verbatim>\<open>Value\<close> (src/gpt.ts)\<close>

text \<open>
  A node of the computation graph holds its \<^verbatim>\<open>data\<close>, its \<^verbatim>\<open>_children\<close> (the operands it
  was built from) and its \<^verbatim>\<open>_localGrads\<close>. The operators never write to a node, so a node
  is modelled by the term it denotes. The field \<^verbatim>\<open>grad\<close> is written by \<^verbatim>\<open>backward\<close> only;
  it lives in the store of the section on \<^verbatim>\<open>backward\<close>, where the identity of a node
  matters.
\<close>

datatype Value = Value (data: real) (children: "Value list") (localGrads: "real list")

text \<open>An operand of type \<^verbatim>\<open>Value | number\<close>.\<close>

datatype operand = V Value | N real

text \<open>\<^verbatim>\<open>other instanceof Value ? other : new Value(other)\<close>\<close>

definition wrap :: "operand \<Rightarrow> Value" where
  "wrap other = (case other of V ot \<Rightarrow> ot | N c \<Rightarrow> Value c [] [])"

definition add :: "Value \<Rightarrow> operand \<Rightarrow> Value" where
  "add this other = (let ot = wrap other in Value (data this + data ot) [this, ot] [1, 1])"

definition mul :: "Value \<Rightarrow> operand \<Rightarrow> Value" where
  "mul this other =
     (let ot = wrap other in Value (data this * data ot) [this, ot] [data ot, data this])"

definition pow :: "Value \<Rightarrow> real \<Rightarrow> Value option" where
  "pow this e = do {
     d \<leftarrow> js_pow (data this) e;
     g \<leftarrow> js_pow (data this) (e - 1);
     Some (Value d [this] [e * g])
   }"

text \<open>\<^verbatim>\<open>Math.log\<close> is \<^verbatim>\<open>-Infinity\<close> at \<open>0\<close> and \<^verbatim>\<open>NaN\<close> below.\<close>

definition log_v :: "Value \<Rightarrow> Value option" where
  "log_v this =
     (if 0 < data this then Some (Value (ln (data this)) [this] [1 / data this]) else None)"

definition exp_v :: "Value \<Rightarrow> Value" where
  "exp_v this = (let e = exp (data this) in Value e [this] [e])"

definition relu :: "Value \<Rightarrow> Value" where
  "relu this = Value (max 0 (data this)) [this] [if data this > 0 then 1 else 0]"

definition neg :: "Value \<Rightarrow> Value" where
  "neg this = mul this (N (- 1))"

definition sub :: "Value \<Rightarrow> operand \<Rightarrow> Value" where
  "sub this other = add this (case other of V ot \<Rightarrow> V (neg ot) | N c \<Rightarrow> N (- c))"

definition div_v :: "Value \<Rightarrow> operand \<Rightarrow> Value option" where
  "div_v this other = (let ot = wrap other in do {
     r \<leftarrow> pow ot (- 1);
     Some (mul this (V r))
   })"

section \<open>Model ops (src/gpt.ts)\<close>

text \<open>
  A loop \<^verbatim>\<open>for (const x of xs) s = body(s, x)\<close> whose body may fail; a counting loop
  \<^verbatim>\<open>for (let i = 0; i < n; i++)\<close> runs it over \<open>[0..<n]\<close>.
\<close>

primrec foldlM :: "('s \<Rightarrow> 'a \<Rightarrow> 's option) \<Rightarrow> 's \<Rightarrow> 'a list \<Rightarrow> 's option" where
  "foldlM f s [] = Some s"
| "foldlM f s (x # xs) = f s x \<bind> (\<lambda>s'. foldlM f s' xs)"

text \<open>The elements of an array with their indices.\<close>

definition enum :: "'a list \<Rightarrow> ('a \<times> nat) list" where
  "enum xs = zip xs [0..<length xs]"

text \<open>
  \<^verbatim>\<open>linear\<close>: every row is reduced from \<^verbatim>\<open>new Value(0)\<close>. An \<^verbatim>\<open>x[i]\<close> out of range is
  \<^verbatim>\<open>undefined\<close>, which \<^verbatim>\<open>mul\<close> wraps into a node with data \<^verbatim>\<open>NaN\<close>.
\<close>

definition linear_v :: "Value list \<Rightarrow> Value list list \<Rightarrow> Value list option" where
  "linear_v x w =
     those (map (\<lambda>row.
       foldlM (\<lambda>sum (wi, i). do {
           xi \<leftarrow> idx x i;
           Some (add sum (V (mul wi (V xi))))
         }) (Value 0 [] []) (enum row)) w)"

text \<open>\<^verbatim>\<open>Math.max(...xs)\<close>: \<^verbatim>\<open>-Infinity\<close> on no arguments.\<close>

definition Math_max :: "real list \<Rightarrow> real option" where
  "Math_max xs = reduce max xs"

definition softmax :: "Value list \<Rightarrow> Value list option" where
  "softmax logits = do {
     maxVal \<leftarrow> Math_max (map data logits);
     let exps = map (\<lambda>v. exp_v (sub v (N maxVal))) logits;
     total \<leftarrow> reduce (\<lambda>a b. add a (V b)) exps;
     those (map (\<lambda>e. div_v e (V total)) exps)
   }"




definition rmsnorm :: "Value list \<Rightarrow> Value list option" where
  "rmsnorm x = do {
     s \<leftarrow> reduce (\<lambda>a b. add a (V b)) (map (\<lambda>xi. mul xi (V xi)) x);
     ms \<leftarrow> div_v s (N (real (length x)));
     scale \<leftarrow> pow (add ms (N (1 / 100000))) (- (1 / 2));
     Some (map (\<lambda>xi. mul xi (V scale)) x)
   }"

section \<open>\<^verbatim>\<open>Value.backward\<close> (src/gpt.ts)\<close>

text \<open>
  \<^verbatim>\<open>backward\<close> keeps a set of visited nodes and adds to the \<^verbatim>\<open>grad\<close> of shared nodes, so
  here a node is an object with an identity: the store maps a reference to the node's
  fields, and \<^verbatim>\<open>_children\<close> holds references. The fields carry the suffix \<open>_n\<close> where the
  name is taken by \<open>Value\<close>.
\<close>

record node =
  data_n :: real
  grad :: real
  children_n :: "nat list"
  localGrads_n :: "real list"

type_synonym store = "nat \<Rightarrow> node"

lemma foldlM_mono [partial_function_mono]:
  assumes "\<And>s x. mono_option (\<lambda>f. B f s x)"
  shows "mono_option (\<lambda>f. foldlM (B f) s xs)"
  using assms
proof (induction xs arbitrary: s)
  case Nil
  show ?case by (simp add: option.const_mono)
next
  case (Cons x xs)
  show ?case
    unfolding foldlM.simps
    by (rule bind_mono) (rule Cons.prems, rule Cons.IH, rule Cons.prems)
qed

text \<open>
  The closure \<^verbatim>\<open>build\<close>; its state is the pair of \<^verbatim>\<open>visited\<close> and \<^verbatim>\<open>topo\<close>.
\<close>

partial_function (option)
  build :: "store \<Rightarrow> nat \<Rightarrow> nat set \<times> nat list \<Rightarrow> (nat set \<times> nat list) option"
where
  "build st v s =
     (if v \<notin> fst s then
        foldlM (\<lambda>s' c. build st c s') (insert v (fst s), snd s) (children_n (st v))
          \<bind> (\<lambda>s1. Some (fst s1, snd s1 @ [v]))
      else Some s)"

text \<open>
  \<^verbatim>\<open>v._children.forEach((child, j) => { child.grad += v._localGrads[j] * v.grad })\<close>;
  a missing \<^verbatim>\<open>_localGrads[j]\<close> makes the sum \<^verbatim>\<open>NaN\<close>.
\<close>

definition distribute :: "nat \<Rightarrow> store \<Rightarrow> store option" where
  "distribute v st =
     foldlM (\<lambda>s (child, j). do {
         lg \<leftarrow> idx (localGrads_n (s v)) j;
         Some (s(child := (s child)\<lparr>grad := grad (s child) + lg * grad (s v)\<rparr>))
       }) st (enum (children_n (st v)))"

text \<open>The loop runs \<^verbatim>\<open>i\<close> from \<^verbatim>\<open>topo.length - 1\<close> down to \<open>0\<close>.\<close>

definition backward :: "store \<Rightarrow> nat \<Rightarrow> store option" where
  "backward st this = do {
     (visited, topo) \<leftarrow> build st this ({}, []);
     let st1 = st(this := (st this)\<lparr>grad := 1\<rparr>);
     foldlM (\<lambda>s v. distribute v s) st1 (rev topo)
   }"

text \<open>
  The derivative that the chain rule gives for the data of \<open>u\<close> in the data of \<open>v\<close>, from
  the local gradients the graph records: \<open>1\<close> for \<open>u = v\<close>, and otherwise the sum over the
  operands of \<open>u\<close> of the local gradient times the operand's derivative. The first
  argument bounds the depth; a node's operands were built before it, so the depth of
  \<open>u\<close> is at most \<open>u\<close>.
\<close>

fun chain_rule :: "store \<Rightarrow> nat \<Rightarrow> nat \<Rightarrow> nat \<Rightarrow> real" where
  "chain_rule st 0 u v = (if u = v then 1 else 0)"
| "chain_rule st (Suc n) u v =
     (if u = v then 1
      else (\<Sum>(c, g)\<leftarrow>zip (children_n (st u)) (localGrads_n (st u)). g * chain_rule st n c v))"

definition chain_rule_derivative :: "store \<Rightarrow> nat \<Rightarrow> nat \<Rightarrow> real" where
  "chain_rule_derivative st out v = chain_rule st out out v"

text \<open>The nodes reachable from \<open>out\<close> through \<^verbatim>\<open>_children\<close>.\<close>

definition reachable :: "store \<Rightarrow> nat \<Rightarrow> nat set" where
  "reachable st out = {v. (out, v) \<in> {(u, c). c \<in> set (children_n (st u))}\<^sup>*}"

text \<open>
  The store of a graph that the constructor of \<^verbatim>\<open>Value\<close> can build: the children of a
  node exist before the node does, and there is one local gradient for every child.
\<close>

definition constructed :: "store \<Rightarrow> bool" where
  "constructed st \<longleftrightarrow>
     (\<forall>u. (\<forall>c \<in> set (children_n (st u)). c < u)
        \<and> length (localGrads_n (st u)) = length (children_n (st u)))"

text \<open>
  A list of nodes in post-order: no node twice, and every node after all its children.
\<close>

definition post_order :: "store \<Rightarrow> nat list \<Rightarrow> bool" where
  "post_order st topo \<longleftrightarrow>
     distinct topo
     \<and> (\<forall>i < length topo. \<forall>c \<in> set (children_n (st (topo ! i))). c \<in> set (take i topo))"

text \<open>
  The sum of the local gradients on the edges from \<open>u\<close> to its child \<open>w\<close> (a node may list
  the same child twice, as \<^verbatim>\<open>xi.mul(xi)\<close> does).
\<close>

definition edge_sum :: "store \<Rightarrow> nat \<Rightarrow> nat \<Rightarrow> real" where
  "edge_sum st u w =
     (\<Sum>(c, g)\<leftarrow>zip (children_n (st u)) (localGrads_n (st u)). if c = w then g else 0)"

definition acyclic_store :: "store \<Rightarrow> bool" where
  "acyclic_store st \<longleftrightarrow> (\<forall>u. \<forall>c \<in> set (children_n (st u)). c < u)"

text \<open>
  What holds before and after \<^verbatim>\<open>build\<close> has run on the nodes \<open>vs\<close>: \<^verbatim>\<open>topo\<close> is in
  post-order inside \<^verbatim>\<open>visited\<close>, the visited nodes not yet in \<^verbatim>\<open>topo\<close> are the ones being
  built (they were all constructed after \<open>vs\<close>), and the run appends nodes that were not
  visited and are reachable from \<open>vs\<close>.
\<close>

definition dfs_pre :: "store \<Rightarrow> nat set \<Rightarrow> nat set \<times> nat list \<Rightarrow> bool" where
  "dfs_pre st vs s \<longleftrightarrow>
     post_order st (snd s) \<and> set (snd s) \<subseteq> fst s
     \<and> (\<forall>w \<in> fst s - set (snd s). \<forall>v \<in> vs. v < w)"

definition dfs_post ::
  "store \<Rightarrow> nat set \<Rightarrow> nat set \<times> nat list \<Rightarrow> (nat set \<times> nat list) option \<Rightarrow> bool" where
  "dfs_post st vs s r \<longleftrightarrow>
     (\<exists>new. r = Some (fst s \<union> set new, snd s @ new)
        \<and> post_order st (snd s @ new) \<and> set new \<inter> fst s = {}
        \<and> vs \<subseteq> set (snd s @ new)
        \<and> set new \<subseteq> (\<Union>v \<in> vs. reachable st v))"

text \<open>
  An example: \<^verbatim>\<open>a = new Value(2); b = new Value(3); out = a.mul(b).add(a)\<close>, stored at the
  references \<open>0\<close>, \<open>1\<close>, \<open>2\<close> (the product) and \<open>3\<close>.
\<close>

definition ex_store :: store where
  "ex_store = (\<lambda>_. \<lparr>data_n = 0, grad = 0, children_n = [], localGrads_n = []\<rparr>)
     (0 := \<lparr>data_n = 2, grad = 0, children_n = [], localGrads_n = []\<rparr>,
      1 := \<lparr>data_n = 3, grad = 0, children_n = [], localGrads_n = []\<rparr>,
      2 := \<lparr>data_n = 6, grad = 0, children_n = [0, 1], localGrads_n = [3, 2]\<rparr>,
      3 := \<lparr>data_n = 8, grad = 0, children_n = [2, 0], localGrads_n = [1, 1]\<rparr>)"

section \<open>The models\<close>

text \<open>
  \<^verbatim>\<open>xs.slice(a, b)\<close> for \<open>0 \<le> a\<close> and \<open>0 \<le> b\<close>; both ends are clamped to the array.
\<close>

definition slice :: "'a list \<Rightarrow> nat \<Rightarrow> nat \<Rightarrow> 'a list" where
  "slice xs a b = take (b - a) (drop a xs)"

text \<open>\<^verbatim>\<open>cache[li]!.push(e)\<close>: a \<^verbatim>\<open>TypeError\<close> when the cache has no layer \<open>li\<close>.\<close>

definition push_at :: "'a list list \<Rightarrow> nat \<Rightarrow> 'a \<Rightarrow> 'a list list option" where
  "push_at cache li e =
     (if li < length cache then Some (cache[li := cache ! li @ [e]]) else None)"

text \<open>
  The parameter store \<^verbatim>\<open>state: Record<string, Value[][]>\<close>, and the template strings
  that name the matrices of a layer, such as \<^verbatim>\<open>`layer${li}.attn_wq`\<close>.
\<close>

type_synonym params = "string \<Rightarrow> Value list list option"

fun dec_str :: "nat \<Rightarrow> string" where
  "dec_str n =
     (if n < 10 then [''0123456789'' ! n]
      else dec_str (n div 10) @ [''0123456789'' ! (n mod 10)])"

definition layer_key :: "nat \<Rightarrow> string \<Rightarrow> string" where
  "layer_key li name = ''layer'' @ dec_str li @ ''.'' @ name"

definition expert_key :: "nat \<Rightarrow> nat \<Rightarrow> string \<Rightarrow> string" where
  "expert_key li e name = ''layer'' @ dec_str li @ ''.expert'' @ dec_str e @ ''_'' @ name"

text \<open>
  The hyperparameters. The fields common to the three models come first; the counts
  are natural numbers, as in every configuration the repository builds.
\<close>

record Config =
  n_embd :: nat
  n_head :: nat
  n_layer :: nat
  block_size :: nat
  head_dim :: nat

subsection \<open>Variant A: \<^verbatim>\<open>gpt\<close> (src/gpt.ts)\<close>

text \<open>The module constants of src/gpt.ts; \<^verbatim>\<open>head_dim = n_embd / n_head\<close>.\<close>

definition gpt_config :: Config where
  "gpt_config = \<lparr>n_embd = 16, n_head = 4, n_layer = 1, block_size = 8, head_dim = 16 div 4\<rparr>"

text \<open>
  The body of the loop over the heads: the logits of the query slice against every
  cached key slice, their softmax, and one weighted sum of the cached value slices per
  coordinate, pushed onto \<^verbatim>\<open>x_attn\<close>.
\<close>

definition gpt_logits :: "Value list \<Rightarrow> Value list list \<Rightarrow> Value list option" where
  "gpt_logits qh kh =
     those (map (\<lambda>kt. do {
       prods \<leftarrow> those (imap (\<lambda>qj j. map_option (\<lambda>kj. mul qj (V kj)) (idx kt j)) qh);
       dot \<leftarrow> reduce (\<lambda>a b. add a (V b)) prods;
       div_v dot (N (sqrt (real (head_dim gpt_config))))
     }) kh)"

definition gpt_head ::
  "Value list \<Rightarrow> Value list list \<Rightarrow> Value list list \<Rightarrow> Value list \<Rightarrow> nat \<Rightarrow> Value list option"
where
  "gpt_head q ks vs x_attn h =
     (let hs = h * head_dim gpt_config;
          qh = slice q hs (hs + head_dim gpt_config);
          kh = map (\<lambda>kk. slice kk hs (hs + head_dim gpt_config)) ks;
          vh = map (\<lambda>vv. slice vv hs (hs + head_dim gpt_config)) vs
      in do {
        logits \<leftarrow> gpt_logits qh kh;
        weights \<leftarrow> softmax logits;
        foldlM (\<lambda>x_attn j. do {
            prods \<leftarrow> those (imap (\<lambda>wt t. do {
              vt \<leftarrow> idx vh t;
              vj \<leftarrow> idx vt j;
              Some (mul wt (V vj))
            }) weights);
            val \<leftarrow> reduce (\<lambda>a b. add a (V b)) prods;
            Some (x_attn @ [val])
          }) x_attn [0..<head_dim gpt_config]
      })"

text \<open>\<^verbatim>\<open>x.map((xi, i) => xi.add(x_res[i]!))\<close>\<close>

definition add_residual :: "Value list \<Rightarrow> Value list \<Rightarrow> Value list option" where
  "add_residual x x_res = those (imap (\<lambda>xi i. map_option (\<lambda>r. add xi (V r)) (idx x_res i)) x)"

definition gpt_layer ::
  "params \<Rightarrow> Value list \<times> Value list list list \<times> Value list list list \<Rightarrow> nat
     \<Rightarrow> (Value list \<times> Value list list list \<times> Value list list list) option"
where
  "gpt_layer state s li = (case s of (x, keys, values) \<Rightarrow> do {
     let x_res = x;
     x \<leftarrow> rmsnorm x;
     wq \<leftarrow> state (layer_key li ''attn_wq'');
     q \<leftarrow> linear_v x wq;
     wk \<leftarrow> state (layer_key li ''attn_wk'');
     k \<leftarrow> linear_v x wk;
     wv \<leftarrow> state (layer_key li ''attn_wv'');
     v \<leftarrow> linear_v x wv;
     keys \<leftarrow> push_at keys li k;
     values \<leftarrow> push_at values li v;
     ks \<leftarrow> idx keys li;
     vs \<leftarrow> idx values li;
     x_attn \<leftarrow> foldlM (gpt_head q ks vs) [] [0..<n_head gpt_config];
     wo \<leftarrow> state (layer_key li ''attn_wo'');
     x \<leftarrow> linear_v x_attn wo;
     x \<leftarrow> add_residual x x_res;
     let x_res = x;
     x \<leftarrow> rmsnorm x;
     fc1 \<leftarrow> state (layer_key li ''mlp_fc1'');
     x \<leftarrow> linear_v x fc1;
     x \<leftarrow> those (map (\<lambda>xi. pow (relu xi) 2) x);
     fc2 \<leftarrow> state (layer_key li ''mlp_fc2'');
     x \<leftarrow> linear_v x fc2;
     x \<leftarrow> add_residual x x_res;
     Some (x, keys, values)
   })"

definition gpt ::
  "params \<Rightarrow> nat \<Rightarrow> nat \<Rightarrow> Value list list list \<Rightarrow> Value list list list
     \<Rightarrow> (Value list \<times> Value list list list \<times> Value list list list) option"
where
  "gpt state tokenId posId keys values = do {
     wte \<leftarrow> state ''wte'';
     row \<leftarrow> idx wte tokenId;
     x \<leftarrow> those (imap (\<lambda>t i. do {
       wpe \<leftarrow> state ''wpe'';
       prow \<leftarrow> idx wpe posId;
       p \<leftarrow> idx prow i;
       Some (add t (V p))
     }) row);
     x \<leftarrow> rmsnorm x;
     (x, keys, values) \<leftarrow> foldlM (gpt_layer state) (x, keys, values) [0..<n_layer gpt_config];
     lm_head \<leftarrow> state ''lm_head'';
     logits \<leftarrow> linear_v x lm_head;
     Some (logits, keys, values)
   }"

subsection \<open>Helpers of src/core that the models import\<close>

text \<open>
  Modelled from the spec: \<^verbatim>\<open>Value.silu\<close> (src/core/value.ts is not among the sources).
  The result is \<open>a \<cdot> \<sigma>(a)\<close> and the local gradient \<open>\<sigma>(a) \<cdot> (1 + a \<cdot> (1 - \<sigma>(a)))\<close>.
\<close>

definition silu :: "Value \<Rightarrow> Value" where
  "silu this =
     (let s = 1 / (1 + exp (- data this))
      in Value (data this * s) [this] [s * (1 + data this * (1 - s))])"

text \<open>
  Modelled from the spec: \<^verbatim>\<open>apply_rope\<close> (src/core/ops.ts is not among the sources). A
  vector of even length \<open>d\<close> is cut into \<open>d / 2\<close> consecutive pairs, and the pair \<open>i\<close> is
  rotated by the angle \<open>\<theta>\<^sub>i \<cdot> pos\<close> with \<open>\<theta>\<^sub>i = 10000\<close> to the power \<open>- 2 i / d\<close>, giving
  \<open>(a \<cdot> cos - b \<cdot> sin, a \<cdot> sin + b \<cdot> cos)\<close>. The spec says nothing of a vector shorter than
  \<open>d\<close>; there the model returns nothing.
\<close>

definition apply_rope :: "Value list \<Rightarrow> nat \<Rightarrow> nat \<Rightarrow> Value list option" where
  "apply_rope x pos d =
     map_option concat (those (map (\<lambda>i. do {
       a \<leftarrow> idx x (2 * i);
       b \<leftarrow> idx x (2 * i + 1);
       let theta = 10000 powr (- (2 * real i) / real d);
       let c = cos (theta * real pos);
       let s = sin (theta * real pos);
       Some [sub (mul a (N c)) (V (mul b (N s))), add (mul a (N s)) (V (mul b (N c)))]
     }) [0..<d div 2]))"

text \<open>
  The other imports of the two models, \<^verbatim>\<open>linear\<close>, \<^verbatim>\<open>rmsnorm\<close> and \<^verbatim>\<open>softmax\<close>, are the
  functions of src/gpt.ts above.

  \<^verbatim>\<open>for (let j = 0; j < head_dim; j++) dot = dot.add(q_h[j]!.mul(k[j]!))\<close>, from
  \<^verbatim>\<open>new Value(0)\<close>, then \<^verbatim>\<open>dot.div(new Value(Math.sqrt(head_dim)))\<close>: the logit of one
  cached key, written the same way in both models.
\<close>

definition scaled_dot :: "nat \<Rightarrow> Value list \<Rightarrow> Value list \<Rightarrow> Value option" where
  "scaled_dot d q_h k = do {
     dot \<leftarrow> foldlM (\<lambda>dot j. do {
       qj \<leftarrow> idx q_h j;
       kj \<leftarrow> idx k j;
       Some (add dot (V (mul qj (V kj))))
     }) (Value 0 [] []) [0..<d];
     div_v dot (V (Value (sqrt (real d)) [] []))
   }"

text \<open>
  The SwiGLU loop \<^verbatim>\<open>for (let i = 0; i < gate.length; i++)
  swiglu.push(gate[i]!.silu().mul(up[i]!))\<close>.
\<close>

definition swiglu_of :: "Value list \<Rightarrow> Value list \<Rightarrow> Value list option" where
  "swiglu_of gate up =
     foldlM (\<lambda>swiglu i. do {
       g \<leftarrow> idx gate i;
       u \<leftarrow> idx up i;
       Some (swiglu @ [mul (silu g) (V u)])
     }) [] [0..<length gate]"

text \<open>
  \<^verbatim>\<open>for (let h = 0; h < n; h++) heads.push(f(x.slice(h * head_dim, h * head_dim +
  head_dim)))\<close>: the split of a projection into heads.
\<close>

definition split_heads ::
  "nat \<Rightarrow> nat \<Rightarrow> (Value list \<Rightarrow> Value list option) \<Rightarrow> Value list \<Rightarrow> Value list list option"
where
  "split_heads n d f x =
     foldlM (\<lambda>heads h. do {
       let hs = h * d;
       r \<leftarrow> f (slice x hs (hs + d));
       Some (heads @ [r])
     }) [] [0..<n]"

subsection \<open>Variant B: \<^verbatim>\<open>Llama.forward\<close> (src/models/llama.ts)\<close>

record LlamaConfig = Config +
  n_kv_head :: nat
  n_rep :: real

text \<open>\<^verbatim>\<open>new LlamaConfig()\<close>: \<^verbatim>\<open>head_dim = n_embd / n_head\<close>, \<^verbatim>\<open>n_rep = n_head / n_kv_head\<close>.\<close>

definition llama_config :: LlamaConfig where
  "llama_config = \<lparr>n_embd = 16, n_head = 4, n_layer = 1, block_size = 8, head_dim = 16 div 4,
     n_kv_head = 2, n_rep = 4 / 2\<rparr>"

text \<open>
  \<^verbatim>\<open>const kv_head_idx = Math.floor(h / this.config.n_rep)\<close>; \<^verbatim>\<open>n_rep\<close> is a quotient
  and need not be whole. The quotient is no number or infinite when \<^verbatim>\<open>n_rep\<close> is \<open>0\<close>, and
  \<^verbatim>\<open>k_t[kv_head_idx]\<close> is \<^verbatim>\<open>undefined\<close> at a negative index and outside the cached entry.
\<close>

definition kv_head_idx :: "LlamaConfig \<Rightarrow> nat \<Rightarrow> int" where
  "kv_head_idx config h = \<lfloor>real h / n_rep config\<rfloor>"

definition kv_head :: "LlamaConfig \<Rightarrow> nat \<Rightarrow> Value list list \<Rightarrow> Value list option" where
  "kv_head config h k_t =
     (if n_rep config = 0 \<or> kv_head_idx config h < 0 then None
      else idx k_t (nat (kv_head_idx config h)))"

definition llama_logits ::
  "LlamaConfig \<Rightarrow> Value list \<Rightarrow> Value list option list \<Rightarrow> Value list option"
where
  "llama_logits config q_h k_h_all =
     foldlM (\<lambda>attn_logits t. do {
       kt \<leftarrow> idx k_h_all t;
       k \<leftarrow> kt;
       l \<leftarrow> scaled_dot (head_dim config) q_h k;
       Some (attn_logits @ [l])
     }) [] [0..<length k_h_all]"

definition llama_head_out ::
  "LlamaConfig \<Rightarrow> Value list \<Rightarrow> Value list option list \<Rightarrow> Value list option"
where
  "llama_head_out config attn_weights v_h_all =
     foldlM (\<lambda>head_out j. do {
       sum \<leftarrow> foldlM (\<lambda>sum t. do {
         w \<leftarrow> idx attn_weights t;
         vt \<leftarrow> idx v_h_all t;
         v \<leftarrow> vt;
         vj \<leftarrow> idx v j;
         Some (add sum (V (mul w (V vj))))
       }) (Value 0 [] []) [0..<length v_h_all];
       Some (head_out @ [sum])
     }) [] [0..<head_dim config]"

definition llama_head ::
  "LlamaConfig \<Rightarrow> Value list list \<Rightarrow> Value list list list \<Rightarrow> Value list list list
     \<Rightarrow> Value list \<Rightarrow> nat \<Rightarrow> Value list option"
where
  "llama_head config q_heads ks vs x_attn h = do {
     q_h \<leftarrow> idx q_heads h;
     let k_h_all = map (kv_head config h) ks;
     let v_h_all = map (kv_head config h) vs;
     attn_logits \<leftarrow> llama_logits config q_h k_h_all;
     attn_weights \<leftarrow> softmax attn_logits;
     head_out \<leftarrow> llama_head_out config attn_weights v_h_all;
     Some (x_attn @ head_out)
   }"

definition llama_layer ::
  "LlamaConfig \<Rightarrow> params \<Rightarrow> nat
     \<Rightarrow> Value list \<times> Value list list list list \<times> Value list list list list \<Rightarrow> nat
     \<Rightarrow> (Value list \<times> Value list list list list \<times> Value list list list list) option"
where
  "llama_layer config state posId s li = (case s of (x, keys, values) \<Rightarrow> do {
     let x_res = x;
     x \<leftarrow> rmsnorm x;
     wq \<leftarrow> state (layer_key li ''attn_wq'');
     q \<leftarrow> linear_v x wq;
     wk \<leftarrow> state (layer_key li ''attn_wk'');
     k \<leftarrow> linear_v x wk;
     wv \<leftarrow> state (layer_key li ''attn_wv'');
     v \<leftarrow> linear_v x wv;
     q_heads \<leftarrow> split_heads (n_head config) (head_dim config)
       (\<lambda>q_h. apply_rope q_h posId (head_dim config)) q;
     k_heads \<leftarrow> split_heads (n_kv_head config) (head_dim config)
       (\<lambda>k_h. apply_rope k_h posId (head_dim config)) k;
     v_heads \<leftarrow> split_heads (n_kv_head config) (head_dim config) Some v;
     keys \<leftarrow> push_at keys li k_heads;
     values \<leftarrow> push_at values li v_heads;
     ks \<leftarrow> idx keys li;
     vs \<leftarrow> idx values li;
     x_attn \<leftarrow> foldlM (llama_head config q_heads ks vs) [] [0..<n_head config];
     wo \<leftarrow> state (layer_key li ''attn_wo'');
     x \<leftarrow> linear_v x_attn wo;
     x \<leftarrow> add_residual x x_res;
     let ffn_residual = x;
     x \<leftarrow> rmsnorm x;
     w_gate \<leftarrow> state (layer_key li ''ffn_gate'');
     gate \<leftarrow> linear_v x w_gate;
     w_up \<leftarrow> state (layer_key li ''ffn_up'');
     up \<leftarrow> linear_v x w_up;
     swiglu \<leftarrow> swiglu_of gate up;
     w_down \<leftarrow> state (layer_key li ''ffn_down'');
     x \<leftarrow> linear_v swiglu w_down;
     x \<leftarrow> add_residual x ffn_residual;
     Some (x, keys, values)
   })"

definition llama_forward ::
  "LlamaConfig \<Rightarrow> params \<Rightarrow> nat \<Rightarrow> nat
     \<Rightarrow> Value list list list list \<Rightarrow> Value list list list list
     \<Rightarrow> (Value list \<times> Value list list list list \<times> Value list list list list) option"
where
  "llama_forward config state tokenId posId keys values = do {
     wte \<leftarrow> state ''wte'';
     x \<leftarrow> idx wte tokenId;
     x \<leftarrow> rmsnorm x;
     (x, keys, values) \<leftarrow>
       foldlM (llama_layer config state posId) (x, keys, values) [0..<n_layer config];
     x \<leftarrow> rmsnorm x;
     lm_head \<leftarrow> state ''lm_head'';
     logits \<leftarrow> linear_v x lm_head;
     Some (logits, keys, values)
   }"

subsection \<open>Variant C: \<^verbatim>\<open>Deepseek.forward\<close> (src/models/deepseek.ts)\<close>

record DeepseekConfig = Config +
  latent_dim :: nat
  n_experts :: nat
  n_active :: nat

definition deepseek_config :: DeepseekConfig where
  "deepseek_config = \<lparr>n_embd = 16, n_head = 4, n_layer = 1, block_size = 16, head_dim = 16 div 4,
     latent_dim = 16, n_experts = 4, n_active = 2\<rparr>"

text \<open>The loop over the cached latents that fills \<^verbatim>\<open>attn_logits\<close>.\<close>

definition deepseek_logits ::
  "DeepseekConfig \<Rightarrow> params \<Rightarrow> nat \<Rightarrow> Value list \<Rightarrow> Value list list \<Rightarrow> Value list option"
where
  "deepseek_logits config state li q_h cache =
     foldlM (\<lambda>attn_logits t. do {
       latent \<leftarrow> idx cache t;
       wkv \<leftarrow> state (layer_key li ''attn_wkv'');
       kv_full \<leftarrow> linear_v latent wkv;
       let k = slice kv_full 0 (head_dim config);
       k_rope \<leftarrow> apply_rope k 0 (head_dim config);
       l \<leftarrow> scaled_dot (head_dim config) q_h k_rope;
       Some (attn_logits @ [l])
     }) [] [0..<length cache]"

text \<open>The loop over the attention weights that fills \<^verbatim>\<open>head_out\<close>.\<close>

definition deepseek_head_out ::
  "DeepseekConfig \<Rightarrow> params \<Rightarrow> nat \<Rightarrow> Value list \<Rightarrow> Value list list \<Rightarrow> Value list option"
where
  "deepseek_head_out config state li attn_weights cache =
     foldlM (\<lambda>head_out t. do {
       latent \<leftarrow> idx cache t;
       wkv \<leftarrow> state (layer_key li ''attn_wkv'');
       kv_full \<leftarrow> linear_v latent wkv;
       let v = slice kv_full (head_dim config) (head_dim config * 2);
       foldlM (\<lambda>head_out j. do {
         acc \<leftarrow> idx head_out j;
         w \<leftarrow> idx attn_weights t;
         vj \<leftarrow> idx v j;
         Some (head_out[j := add acc (V (mul w (V vj)))])
       }) head_out [0..<head_dim config]
     }) (replicate (head_dim config) (Value 0 [] [])) [0..<length attn_weights]"

definition deepseek_head ::
  "DeepseekConfig \<Rightarrow> params \<Rightarrow> nat \<Rightarrow> Value list list \<Rightarrow> Value list list
     \<Rightarrow> Value list \<Rightarrow> nat \<Rightarrow> Value list option"
where
  "deepseek_head config state li q_heads cache x_attn h = do {
     q_h \<leftarrow> idx q_heads h;
     attn_logits \<leftarrow> deepseek_logits config state li q_h cache;
     attn_weights \<leftarrow> softmax attn_logits;
     head_out \<leftarrow> deepseek_head_out config state li attn_weights cache;
     Some (x_attn @ head_out)
   }"

text \<open>The loop over the experts that fills \<^verbatim>\<open>expert_outputs\<close>.\<close>

definition deepseek_experts ::
  "DeepseekConfig \<Rightarrow> params \<Rightarrow> nat \<Rightarrow> Value list \<Rightarrow> Value list list option"
where
  "deepseek_experts config state li x =
     foldlM (\<lambda>expert_outputs e. do {
       w_gate \<leftarrow> state (expert_key li e ''gate'');
       gate \<leftarrow> linear_v x w_gate;
       w_up \<leftarrow> state (expert_key li e ''up'');
       up \<leftarrow> linear_v x w_up;
       swiglu \<leftarrow> swiglu_of gate up;
       w_down \<leftarrow> state (expert_key li e ''down'');
       out \<leftarrow> linear_v swiglu w_down;
       Some (expert_outputs @ [out])
     }) [] [0..<n_experts config]"

text \<open>The two nested loops that add every weighted expert output into \<^verbatim>\<open>output\<close>.\<close>

definition deepseek_mix ::
  "DeepseekConfig \<Rightarrow> Value list \<Rightarrow> Value list list \<Rightarrow> Value list option"
where
  "deepseek_mix config router_probs expert_outputs =
     foldlM (\<lambda>output e.
       foldlM (\<lambda>output j. do {
         acc \<leftarrow> idx output j;
         p \<leftarrow> idx router_probs e;
         out \<leftarrow> idx expert_outputs e;
         oj \<leftarrow> idx out j;
         Some (output[j := add acc (V (mul p (V oj)))])
       }) output [0..<n_embd config])
     (replicate (n_embd config) (Value 0 [] [])) [0..<n_experts config]"

text \<open>The mixture of experts, from \<^verbatim>\<open>const residual2 = x\<close> to the residual sum.\<close>

definition deepseek_moe ::
  "DeepseekConfig \<Rightarrow> params \<Rightarrow> nat \<Rightarrow> Value list \<Rightarrow> Value list option"
where
  "deepseek_moe config state li x = do {
     let residual2 = x;
     x \<leftarrow> rmsnorm x;
     router \<leftarrow> state (layer_key li ''router'');
     router_logits \<leftarrow> linear_v x router;
     router_probs \<leftarrow> softmax router_logits;
     expert_outputs \<leftarrow> deepseek_experts config state li x;
     output \<leftarrow> deepseek_mix config router_probs expert_outputs;
     add_residual output residual2
   }"

definition deepseek_layer ::
  "DeepseekConfig \<Rightarrow> params \<Rightarrow> nat \<Rightarrow> Value list \<times> Value list list list \<Rightarrow> nat
     \<Rightarrow> (Value list \<times> Value list list list) option"
where
  "deepseek_layer config state posId s li = (case s of (x, keysLatentCache) \<Rightarrow> do {
     let residual1 = x;
     x \<leftarrow> rmsnorm x;
     wq \<leftarrow> state (layer_key li ''attn_wq'');
     q \<leftarrow> linear_v x wq;
     w_compress \<leftarrow> state (layer_key li ''attn_compress_kv'');
     kv_latent \<leftarrow> linear_v x w_compress;
     keysLatentCache \<leftarrow> push_at keysLatentCache li kv_latent;
     q_heads \<leftarrow> split_heads (n_head config) (head_dim config)
       (\<lambda>q_h. apply_rope q_h posId (head_dim config)) q;
     cache \<leftarrow> idx keysLatentCache li;
     x_attn \<leftarrow> foldlM (deepseek_head config state li q_heads cache) [] [0..<n_head config];
     wo \<leftarrow> state (layer_key li ''attn_wo'');
     x \<leftarrow> linear_v x_attn wo;
     x \<leftarrow> add_residual x residual1;
     x \<leftarrow> deepseek_moe config state li x;
     Some (x, keysLatentCache)
   })"

definition deepseek_forward ::
  "DeepseekConfig \<Rightarrow> params \<Rightarrow> nat \<Rightarrow> nat \<Rightarrow> Value list list list
     \<Rightarrow> (Value list \<times> Value list list list) option"
where
  "deepseek_forward config state tokenId posId keysLatentCache = do {
     wte \<leftarrow> state ''wte'';
     x \<leftarrow> idx wte tokenId;
     x \<leftarrow> rmsnorm x;
     (x, keysLatentCache) \<leftarrow>
       foldlM (deepseek_layer config state posId) (x, keysLatentCache) [0..<n_layer config];
     x \<leftarrow> rmsnorm x;
     lm_head \<leftarrow> state ''lm_head'';
     logits \<leftarrow> linear_v x lm_head;
     Some (logits, keysLatentCache)
   }"

subsection \<open>The drivers \<^verbatim>\<open>train\<close> and \<^verbatim>\<open>infere\<close> (src/utils)\<close>

text \<open>
  Both drivers allocate \<^verbatim>\<open>keys\<close> and \<^verbatim>\<open>values\<close> with one empty array per layer and call
  \<^verbatim>\<open>model.forward(token, pos, keys, values)\<close> for every model. \<^verbatim>\<open>Deepseek.forward\<close> has
  three parameters, and JavaScript drops the fourth argument of the call.
\<close>

definition fresh_cache :: "nat \<Rightarrow> 'a list list" where
  "fresh_cache n_layers = replicate n_layers []"

definition deepseek_call ::
  "DeepseekConfig \<Rightarrow> params \<Rightarrow> nat \<Rightarrow> nat \<Rightarrow> Value list list list \<Rightarrow> 'c
     \<Rightarrow> (Value list \<times> Value list list list \<times> 'c) option"
where
  "deepseek_call config state tokenId posId keys values =
     map_option (\<lambda>(logits, keys). (logits, keys, values))
       (deepseek_forward config state tokenId posId keys)"

text \<open>
  The loop \<^verbatim>\<open>for (let pos = 0; pos < n; pos++)\<close> of \<^verbatim>\<open>train\<close>; \<open>forward\<close> is the method of
  the model.
\<close>

definition train_positions ::
  "(nat \<Rightarrow> nat \<Rightarrow> 'k \<Rightarrow> 'c \<Rightarrow> (Value list \<times> 'k \<times> 'c) option) \<Rightarrow> nat list \<Rightarrow> nat
     \<Rightarrow> Value list \<times> 'k \<times> 'c \<Rightarrow> (Value list \<times> 'k \<times> 'c) option"
where
  "train_positions forward tokens n s =
     foldlM (\<lambda>(losses, keys, values) pos. do {
       tok \<leftarrow> idx tokens pos;
       (logits, keys, values) \<leftarrow> forward tok pos keys values;
       probs \<leftarrow> softmax logits;
       target \<leftarrow> idx tokens (pos + 1);
       p \<leftarrow> idx probs target;
       l \<leftarrow> log_v p;
       Some (losses @ [neg l], keys, values)
     }) s [0..<n]"

text \<open>
  The loop of \<^verbatim>\<open>infere\<close> over the positions from \<open>pos\<close>, with \<open>fuel\<close> positions left up
  to \<^verbatim>\<open>block_size\<close>. \<^verbatim>\<open>weightedChoice\<close> draws from \<^verbatim>\<open>Math.random\<close>; \<open>pick\<close> stands for
  its result at a position. The loop stops when the choice is \<^verbatim>\<open>BOS\<close>.
\<close>

fun infere_positions ::
  "(nat \<Rightarrow> nat \<Rightarrow> 'k \<Rightarrow> 'c \<Rightarrow> (Value list \<times> 'k \<times> 'c) option) \<Rightarrow> (nat \<Rightarrow> real list \<Rightarrow> nat)
     \<Rightarrow> nat \<Rightarrow> nat \<Rightarrow> nat \<Rightarrow> nat list \<times> nat \<times> 'k \<times> 'c \<Rightarrow> (nat list \<times> nat \<times> 'k \<times> 'c) option"
where
  "infere_positions forward pick bos 0 pos s = Some s"
| "infere_positions forward pick bos (Suc fuel) pos (sample, tokenId, keys, values) = do {
     (logits, keys, values) \<leftarrow> forward tokenId pos keys values;
     scaled \<leftarrow> those (map (\<lambda>l. div_v l (N (1 / 2))) logits);
     probs \<leftarrow> softmax scaled;
     let i = pick pos (map data probs);
     if i = bos then Some (sample, tokenId, keys, values)
     else infere_positions forward pick bos fuel (Suc pos) (sample @ [i], i, keys, values)
   }"

section \<open>\<^verbatim>\<open>load\<close> (\<^verbatim>\<open>Llama.load\<close>, \<^verbatim>\<open>Deepseek.load\<close>)\<close>

text \<open>
  \<^verbatim>\<open>new Float64Array(bytes.buffer)\<close> throws a \<^verbatim>\<open>RangeError\<close> when the byte length is no
  multiple of \<open>8\<close>; its element \<open>i\<close> decodes the bytes \<open>8 i\<close> to \<open>8 i + 7\<close>. The decoding of a
  double is the parameter \<open>decode\<close>; it gives no real number on \<^verbatim>\<open>NaN\<close> and the infinities.
\<close>

datatype load_error = RangeError

type_synonym byte = "8 word"

definition Float64Array ::
  "(byte list \<Rightarrow> real option) \<Rightarrow> byte list \<Rightarrow> load_error + real option list"
where
  "Float64Array decode bytes =
     (if length bytes mod 8 \<noteq> 0 then Inl RangeError
      else Inr (map (\<lambda>i. decode (take 8 (drop (8 * i) bytes))) [0..<length bytes div 8]))"

text \<open>What \<^verbatim>\<open>v.data = floatArray[i]!\<close> stores: a number, or \<^verbatim>\<open>undefined\<close> past the end.\<close>

datatype stored = Number real | NotReal | Undefined

definition load ::
  "(byte list \<Rightarrow> real option) \<Rightarrow> Value list \<Rightarrow> byte list \<Rightarrow> load_error + stored list"
where
  "load decode params bytes =
     (case Float64Array decode bytes of
        Inl e \<Rightarrow> Inl e
      | Inr floatArray \<Rightarrow>
          Inr (imap (\<lambda>v i.
            case idx floatArray i of
              None \<Rightarrow> Undefined
            | Some None \<Rightarrow> NotReal
            | Some (Some d) \<Rightarrow> Number d) params))"

section \<open>Shapes and closed forms\<close>

text \<open>
  The notions below come from no source function; the theorems about the models are
  stated with them. A matrix of \<open>r\<close> rows and \<open>c\<close> columns, as \<^verbatim>\<open>matrix(r, c)\<close> builds it,
  and a store that holds such a matrix under a key:
\<close>

definition mat :: "nat \<Rightarrow> nat \<Rightarrow> Value list list \<Rightarrow> bool" where
  "mat r c w \<longleftrightarrow> length w = r \<and> (\<forall>row \<in> set w. length row = c)"

definition has_mat :: "params \<Rightarrow> string \<Rightarrow> nat \<Rightarrow> nat \<Rightarrow> bool" where
  "has_mat state key r c \<longleftrightarrow> (\<exists>w. state key = Some w \<and> mat r c w)"

text \<open>The result of \<^verbatim>\<open>linear\<close> when every row finds its \<^verbatim>\<open>x[i]\<close>.\<close>

definition lin :: "Value list \<Rightarrow> Value list list \<Rightarrow> Value list" where
  "lin x w =
     map (\<lambda>row. foldl (\<lambda>sum (wi, i). add sum (V (mul wi (V (x ! i))))) (Value 0 [] [])
       (enum row)) w"

text \<open>
  A cache that one more forward call appends to: layer \<open>li\<close> of \<open>cache'\<close> is layer \<open>li\<close> of
  \<open>cache\<close> followed by one entry (of the shape \<open>P\<close>) for the layers below \<open>m\<close>, and unchanged
  from \<open>m\<close> on. A cache of \<open>layers\<close> layers that holds \<open>k\<close> entries of the shape \<open>P\<close> in
  every layer.
\<close>

definition appended_below :: "('a \<Rightarrow> bool) \<Rightarrow> nat \<Rightarrow> 'a list list \<Rightarrow> 'a list list \<Rightarrow> bool" where
  "appended_below P m cache cache' \<longleftrightarrow>
     length cache' = length cache \<and> m \<le> length cache
     \<and> (\<forall>li < length cache.
           if li < m then (\<exists>e. P e \<and> cache' ! li = cache ! li @ [e])
           else cache' ! li = cache ! li)"

definition cache_ok :: "('a \<Rightarrow> bool) \<Rightarrow> nat \<Rightarrow> nat \<Rightarrow> 'a list list \<Rightarrow> bool" where
  "cache_ok P layers k cache \<longleftrightarrow>
     length cache = layers
     \<and> (\<forall>li < layers. length (cache ! li) = k \<and> (\<forall>e \<in> set (cache ! li). P e))"

text \<open>
  A run of forward calls the way both drivers make them: one call per token, at the
  positions \<open>0\<close>, \<open>1\<close>, \<open>\<dots>\<close> in order, all on the same two caches.
\<close>

definition forward_calls ::
  "(nat \<Rightarrow> nat \<Rightarrow> 'k \<Rightarrow> 'c \<Rightarrow> ('l \<times> 'k \<times> 'c) option) \<Rightarrow> nat list \<Rightarrow> 'k \<times> 'c \<Rightarrow> ('k \<times> 'c) option"
where
  "forward_calls forward tokens s =
     foldlM (\<lambda>(keys, values) (tok, pos). map_option snd (forward tok pos keys values)) s
       (enum tokens)"

text \<open>
  The parameter store that src/gpt.ts builds for a vocabulary of \<open>vocab\<close> tokens, by its
  shapes.
\<close>

definition gpt_state_ok :: "nat \<Rightarrow> params \<Rightarrow> bool" where
  "gpt_state_ok vocab state \<longleftrightarrow>
     has_mat state ''wte'' vocab (n_embd gpt_config)
     \<and> has_mat state ''wpe'' (block_size gpt_config) (n_embd gpt_config)
     \<and> has_mat state ''lm_head'' vocab (n_embd gpt_config)
     \<and> (\<forall>li < n_layer gpt_config.
          has_mat state (layer_key li ''attn_wq'') (n_embd gpt_config) (n_embd gpt_config)
          \<and> has_mat state (layer_key li ''attn_wk'') (n_embd gpt_config) (n_embd gpt_config)
          \<and> has_mat state (layer_key li ''attn_wv'') (n_embd gpt_config) (n_embd gpt_config)
          \<and> has_mat state (layer_key li ''attn_wo'') (n_embd gpt_config) (n_embd gpt_config)
          \<and> has_mat state (layer_key li ''mlp_fc1'') (4 * n_embd gpt_config) (n_embd gpt_config)
          \<and> has_mat state (layer_key li ''mlp_fc2'') (n_embd gpt_config) (4 * n_embd gpt_config))"

text \<open>
  The configurations and parameter stores that \<^verbatim>\<open>Llama\<close> runs on: the heads tile the
  embedding, \<^verbatim>\<open>head_dim\<close> is even (the rotary embedding pairs the coordinates), every query
  head finds its key/value head, and the matrices have the shapes the constructor gives
  them. An entry of the cache of \<^verbatim>\<open>Llama\<close> holds one vector per key/value head.
\<close>

definition llama_config_ok :: "LlamaConfig \<Rightarrow> bool" where
  "llama_config_ok config \<longleftrightarrow>
     0 < head_dim config \<and> even (head_dim config) \<and> 0 < n_head config
     \<and> n_head config * head_dim config = n_embd config
     \<and> 0 < n_rep config \<and> real (n_head config) \<le> n_rep config * real (n_kv_head config)"

definition llama_state_ok :: "LlamaConfig \<Rightarrow> nat \<Rightarrow> params \<Rightarrow> bool" where
  "llama_state_ok config vocab state \<longleftrightarrow>
     has_mat state ''wte'' vocab (n_embd config)
     \<and> has_mat state ''lm_head'' vocab (n_embd config)
     \<and> (\<forall>li < n_layer config.
          has_mat state (layer_key li ''attn_wq'') (n_embd config) (n_embd config)
          \<and> has_mat state (layer_key li ''attn_wk'') (n_kv_head config * head_dim config)
               (n_embd config)
          \<and> has_mat state (layer_key li ''attn_wv'') (n_kv_head config * head_dim config)
               (n_embd config)
          \<and> has_mat state (layer_key li ''attn_wo'') (n_embd config) (n_embd config)
          \<and> has_mat state (layer_key li ''ffn_gate'') (4 * n_embd config) (n_embd config)
          \<and> has_mat state (layer_key li ''ffn_up'') (4 * n_embd config) (n_embd config)
          \<and> has_mat state (layer_key li ''ffn_down'') (n_embd config) (4 * n_embd config))"

definition heads_entry :: "LlamaConfig \<Rightarrow> Value list list \<Rightarrow> bool" where
  "heads_entry config e \<longleftrightarrow>
     length e = n_kv_head config \<and> (\<forall>h \<in> set e. length h = head_dim config)"

text \<open>
  The configurations and parameter stores that \<^verbatim>\<open>Deepseek\<close> runs on: as for \<^verbatim>\<open>Llama\<close>, and
  the up-projected latent of \<^verbatim>\<open>n_embd\<close> entries holds \<^verbatim>\<open>2 * head_dim\<close> of them, and
  there is an expert.
\<close>

definition deepseek_config_ok :: "DeepseekConfig \<Rightarrow> bool" where
  "deepseek_config_ok config \<longleftrightarrow>
     0 < head_dim config \<and> even (head_dim config) \<and> 0 < n_head config
     \<and> n_head config * head_dim config = n_embd config
     \<and> 2 * head_dim config \<le> n_embd config \<and> 0 < n_experts config"

definition deepseek_layer_ok :: "DeepseekConfig \<Rightarrow> params \<Rightarrow> nat \<Rightarrow> bool" where
  "deepseek_layer_ok config state li \<longleftrightarrow>
     has_mat state (layer_key li ''attn_wq'') (n_embd config) (n_embd config)
     \<and> has_mat state (layer_key li ''attn_compress_kv'') (latent_dim config) (n_embd config)
     \<and> has_mat state (layer_key li ''attn_wkv'') (n_embd config) (latent_dim config)
     \<and> has_mat state (layer_key li ''attn_wo'') (n_embd config) (n_embd config)
     \<and> has_mat state (layer_key li ''router'') (n_experts config) (n_embd config)
     \<and> (\<forall>e < n_experts config.
          has_mat state (expert_key li e ''gate'') (4 * n_embd config) (n_embd config)
          \<and> has_mat state (expert_key li e ''up'') (4 * n_embd config) (n_embd config)
          \<and> has_mat state (expert_key li e ''down'') (n_embd config) (4 * n_embd config))"

definition deepseek_state_ok :: "DeepseekConfig \<Rightarrow> nat \<Rightarrow> params \<Rightarrow> bool" where
  "deepseek_state_ok config vocab state \<longleftrightarrow>
     has_mat state ''wte'' vocab (n_embd config)
     \<and> has_mat state ''lm_head'' vocab (n_embd config)
     \<and> (\<forall>li < n_layer config. deepseek_layer_ok config state li)"

section \<open>Example parameter stores\<close>

text \<open>
  \<^verbatim>\<open>matrix(r, c)\<close> draws its entries at random; the stores below hold the same number
  \<open>d\<close> everywhere. They have the keys and the shapes that the three constructors build,
  for a vocabulary of three tokens.
\<close>

definition filled :: "nat \<Rightarrow> nat \<Rightarrow> real \<Rightarrow> Value list list" where
  "filled r c d = replicate r (replicate c (Value d [] []))"

definition ex_gpt_state :: params where
  "ex_gpt_state =
     [''wte'' \<mapsto> filled 3 16 1, ''wpe'' \<mapsto> filled 8 16 1, ''lm_head'' \<mapsto> filled 3 16 1,
      ''layer0.attn_wq'' \<mapsto> filled 16 16 1, ''layer0.attn_wk'' \<mapsto> filled 16 16 1,
      ''layer0.attn_wv'' \<mapsto> filled 16 16 1, ''layer0.attn_wo'' \<mapsto> filled 16 16 1,
      ''layer0.mlp_fc1'' \<mapsto> filled 64 16 1, ''layer0.mlp_fc2'' \<mapsto> filled 16 64 1]"

definition ex_llama_state :: params where
  "ex_llama_state =
     [''wte'' \<mapsto> filled 3 16 1, ''lm_head'' \<mapsto> filled 3 16 1,
      ''layer0.attn_wq'' \<mapsto> filled 16 16 1, ''layer0.attn_wk'' \<mapsto> filled 8 16 1,
      ''layer0.attn_wv'' \<mapsto> filled 8 16 1, ''layer0.attn_wo'' \<mapsto> filled 16 16 1,
      ''layer0.ffn_gate'' \<mapsto> filled 64 16 1, ''layer0.ffn_up'' \<mapsto> filled 64 16 1,
      ''layer0.ffn_down'' \<mapsto> filled 16 64 1]"

text \<open>A small configuration of \<^verbatim>\<open>Deepseek\<close>, with two experts, and its store.\<close>

definition ex_deepseek_config :: DeepseekConfig where
  "ex_deepseek_config = \<lparr>n_embd = 4, n_head = 2, n_layer = 1, block_size = 4, head_dim = 4 div 2,
     latent_dim = 3, n_experts = 2, n_active = 1\<rparr>"

definition ex_deepseek_state :: params where
  "ex_deepseek_state =
     [''wte'' \<mapsto> filled 3 4 1, ''lm_head'' \<mapsto> filled 3 4 1,
      ''layer0.attn_wq'' \<mapsto> filled 4 4 1, ''layer0.attn_compress_kv'' \<mapsto> filled 3 4 1,
      ''layer0.attn_wkv'' \<mapsto> filled 4 3 1, ''layer0.attn_wo'' \<mapsto> filled 4 4 1,
      ''layer0.router'' \<mapsto> filled 2 4 1,
      ''layer0.expert0_gate'' \<mapsto> filled 16 4 1, ''layer0.expert0_up'' \<mapsto> filled 16 4 1,
      ''layer0.expert0_down'' \<mapsto> filled 4 16 1,
      ''layer0.expert1_gate'' \<mapsto> filled 16 4 1, ''layer0.expert1_up'' \<mapsto> filled 16 4 1,
      ''layer0.expert1_down'' \<mapsto> filled 4 16 1]"

section \<open>The operators\<close>

lemma js_pow_pos: "0 < x \<Longrightarrow> js_pow x p = Some (x powr p)"
  by (simp add: js_pow_def)

lemma pow_pos:
  "0 < data a \<Longrightarrow> pow a p = Some (Value (data a powr p) [a] [p * data a powr (p - 1)])"
  by (simp add: pow_def js_pow_pos)

lemma js_pow_int: "x \<noteq> 0 \<Longrightarrow> js_pow x (of_int n) = Some (x powi n)"
proof (cases "0 < x")
  case True
  then show ?thesis
    by (simp add: js_pow_pos powr_real_of_int')
next
  case False
  assume "x \<noteq> 0"
  with False show ?thesis
    by (simp add: js_pow_def)
qed

lemma pow_int:
  assumes "data a \<noteq> 0"
  shows "pow a (of_int n) =
    Some (Value (data a powi n) [a] [of_int n * data a powi (n - 1)])"
proof -
  have "js_pow (data a) (of_int n - 1) = Some (data a powi (n - 1))"
    using js_pow_int [OF assms, of "n - 1"] by simp
  then show ?thesis
    by (simp add: pow_def js_pow_int [OF assms])
qed

lemma relu_deriv:
  assumes "x \<noteq> 0"
  shows "((\<lambda>y. max 0 y) has_real_derivative (if x > 0 then 1 else 0)) (at x)"
proof (cases "x > 0")
  case True
  have "((\<lambda>y. y) has_real_derivative 1) (at x)"
    by (rule DERIV_ident)
  then have "((\<lambda>y. max 0 y) has_real_derivative 1) (at x)"
  proof (rule has_field_derivative_transform_within_open)
    show "open {(0::real) <..}" by simp
    show "x \<in> {0 <..}" using True by simp
    show "\<And>y::real. y \<in> {0 <..} \<Longrightarrow> y = max 0 y" by simp
  qed
  with True show ?thesis by simp
next
  case False
  with assms have neg: "x < 0" by simp
  have "((\<lambda>y. 0) has_real_derivative 0) (at x)"
    by (rule DERIV_const)
  then have "((\<lambda>y. max 0 y) has_real_derivative 0) (at x)"
  proof (rule has_field_derivative_transform_within_open)
    show "open {..< (0::real)}" by simp
    show "x \<in> {..< 0}" using neg by simp
    show "\<And>y::real. y \<in> {..< 0} \<Longrightarrow> 0 = max 0 y" by simp
  qed
  with False show ?thesis by simp
qed

lemma pow_zero_base:
  assumes "data a = 0"
  shows "pow a p = (if 1 < p then Some (Value 0 [a] [0])
                    else if p = 1 then Some (Value 0 [a] [1]) else None)"
  using assms by (auto simp: pow_def js_pow_def)

lemma pow_neg_base_fraction:
  assumes "data a < 0" "p \<noteq> of_int \<lfloor>p\<rfloor>"
  shows "pow a p = None"
  using assms by (auto simp: pow_def js_pow_def)

lemma pow_nat_everywhere:
  "pow a (of_nat (Suc n)) = Some (Value (data a ^ Suc n) [a] [of_nat (Suc n) * data a ^ n])"
proof (cases "data a = 0")
  case True
  then show ?thesis
    by (cases n) (simp_all add: pow_zero_base)
next
  case False
  have "pow a (of_int (int (Suc n))) =
      Some (Value (data a powi int (Suc n)) [a] [of_int (int (Suc n)) * data a powi (int (Suc n) - 1)])"
    using False by (rule pow_int)
  moreover have "int (Suc n) - 1 = int n"
    by simp
  ultimately show ?thesis
    by (simp only: power_int_of_nat of_int_of_nat_eq)
qed

lemma powr_deriv_at_zero:
  assumes "1 < (p::real)"
  shows "((\<lambda>x. x powr p) has_real_derivative 0) (at 0 within {0..})"
proof -
  have "((\<lambda>y::real. y powr (p - 1)) \<longlongrightarrow> 0) (at 0 within {0..})"
  proof (rule tendsto_zero_powrI)
    show "((\<lambda>y::real. y) \<longlongrightarrow> 0) (at 0 within {0..})"
      by (rule tendsto_ident_at)
    show "((\<lambda>y::real. p - 1) \<longlongrightarrow> p - 1) (at 0 within {0..})"
      by (rule tendsto_const)
    show "\<forall>\<^sub>F y::real in at 0 within {0..}. 0 \<le> y"
      by (simp add: eventually_at_filter)
    show "0 < p - 1"
      using assms by simp
  qed
  moreover have "\<forall>\<^sub>F y::real in at 0 within {0..}. y powr (p - 1) = (y powr p - 0 powr p) / (y - 0)"
  proof -
    have "y powr (p - 1) = (y powr p - 0 powr p) / (y - 0)" if "0 < y" for y :: real
      using that by (simp add: powr_diff)
    then show ?thesis
      by (simp add: eventually_at_filter less_le)
  qed
  ultimately have "((\<lambda>y::real. (y powr p - 0 powr p) / (y - 0)) \<longlongrightarrow> 0) (at 0 within {0..})"
    by (rule Lim_transform_eventually)
  then show ?thesis
    by (simp only: has_field_derivative_iff)
qed

lemma local_grad_pow_at_zero:
  assumes "data a = 0" "1 < p"
  shows "((\<lambda>x. data (the (pow (Value x cs gs) p))) has_real_derivative
      localGrads (the (pow a p)) ! 0) (at (data a) within {0..})"
proof -
  have eq: "data (the (pow (Value x cs gs) p)) = x powr p" if "0 \<le> x" for x
  proof (cases "x = 0")
    case True
    then show ?thesis using assms(2) by (simp add: pow_zero_base)
  next
    case False
    with that have "0 < x" by simp
    then show ?thesis by (simp add: pow_pos)
  qed
  have "((\<lambda>x. data (the (pow (Value x cs gs) p))) has_real_derivative 0) (at 0 within {0..})"
  proof (rule has_field_derivative_transform_within [OF powr_deriv_at_zero [OF assms(2)]])
    show "(0::real) < 1" by simp
    show "(0::real) \<in> {0..}" by simp
    show "\<And>x. x \<in> {0..} \<Longrightarrow> dist x 0 < 1 \<Longrightarrow> x powr p = data (the (pow (Value x cs gs) p))"
      using eq by simp
  qed
  then show ?thesis
    using assms by (simp add: pow_zero_base)
qed

lemma local_grad_pow_nat:
  "((\<lambda>x. data (the (pow (Value x cs gs) (of_nat (Suc n))))) has_real_derivative
      localGrads (the (pow a (of_nat (Suc n)))) ! 0) (at (data a))"
proof -
  have "((\<lambda>x. x ^ Suc n) has_real_derivative of_nat (Suc n) * data a ^ n) (at (data a))"
    using DERIV_pow [of "Suc n" "data a" UNIV] by simp
  then show ?thesis
    by (simp only: pow_nat_everywhere option.sel Value.sel nth_Cons_0)
qed

text \<open>
  Each local gradient is the derivative of the result's \<^verbatim>\<open>data\<close> in the operand's
  \<^verbatim>\<open>data\<close>, the other operand held fixed.
\<close>

lemma local_grads_are_derivatives:
  "((\<lambda>x. data (add (Value x cs gs) (V b))) has_real_derivative localGrads (add a (V b)) ! 0)
     (at (data a))"
  "((\<lambda>y. data (add a (V (Value y cs gs)))) has_real_derivative localGrads (add a (V b)) ! 1)
     (at (data b))"
  "((\<lambda>x. data (mul (Value x cs gs) (V b))) has_real_derivative localGrads (mul a (V b)) ! 0)
     (at (data a))"
  "((\<lambda>y. data (mul a (V (Value y cs gs)))) has_real_derivative localGrads (mul a (V b)) ! 1)
     (at (data b))"
  "((\<lambda>x. data (exp_v (Value x cs gs))) has_real_derivative localGrads (exp_v a) ! 0)
     (at (data a))"
  by (auto simp: add_def mul_def exp_v_def wrap_def Let_def intro!: derivative_eq_intros)

lemma local_grads_are_derivatives_pos:
  assumes "0 < data a"
  shows
    "((\<lambda>x. data (the (pow (Value x cs gs) p))) has_real_derivative
        localGrads (the (pow a p)) ! 0) (at (data a))"
    "((\<lambda>x. data (the (log_v (Value x cs gs)))) has_real_derivative
        localGrads (the (log_v a)) ! 0) (at (data a))"
proof -
  have "((\<lambda>x. x powr p) has_real_derivative p * data a powr (p - 1)) (at (data a))"
    using assms by (rule has_real_derivative_powr)
  then have "((\<lambda>x. data (the (pow (Value x cs gs) p))) has_real_derivative
      p * data a powr (p - 1)) (at (data a))"
  proof (rule has_field_derivative_transform_within_open)
    show "open {0 <..< 2 * data a}" by simp
    show "data a \<in> {0 <..< 2 * data a}" using assms by simp
    show "\<And>x. x \<in> {0 <..< 2 * data a} \<Longrightarrow> x powr p = data (the (pow (Value x cs gs) p))"
      by (simp add: pow_pos)
  qed
  then show "((\<lambda>x. data (the (pow (Value x cs gs) p))) has_real_derivative
      localGrads (the (pow a p)) ! 0) (at (data a))"
    using assms by (simp add: pow_pos)
  have "(ln has_real_derivative 1 / data a) (at (data a))"
    using assms by (auto intro!: derivative_eq_intros)
  then have "((\<lambda>x. data (the (log_v (Value x cs gs)))) has_real_derivative 1 / data a)
      (at (data a))"
  proof (rule has_field_derivative_transform_within_open)
    show "open {0 <..< 2 * data a}" by simp
    show "data a \<in> {0 <..< 2 * data a}" using assms by simp
    show "\<And>x. x \<in> {0 <..< 2 * data a} \<Longrightarrow> ln x = data (the (log_v (Value x cs gs)))"
      by (simp add: log_v_def)
  qed
  then show "((\<lambda>x. data (the (log_v (Value x cs gs)))) has_real_derivative
      localGrads (the (log_v a)) ! 0) (at (data a))"
    using assms by (simp add: log_v_def)
qed

lemma local_grad_relu:
  assumes "data a \<noteq> 0"
  shows "((\<lambda>x. data (relu (Value x cs gs))) has_real_derivative localGrads (relu a) ! 0)
    (at (data a))"
  using relu_deriv [OF assms] by (simp add: relu_def)


text \<open>
  Claim C2. Every operator returns one node whose \<^verbatim>\<open>data\<close> is the operator's result and
  whose children and local gradients are those of the table: \<open>add\<close> has the sum and
  \<open>[1, 1]\<close>; \<open>mul\<close> the product and the two operands' data, swapped; \<open>pow\<close> the power and
  \<open>p\<close> times the power one lower; \<open>log_v\<close> the logarithm and the reciprocal; \<open>exp_v\<close> the
  exponential, twice; \<open>relu\<close> the positive part and \<open>1\<close> or \<open>0\<close>. \<open>neg\<close>, \<open>sub\<close> and \<open>div_v\<close>
  are built from \<open>mul\<close>, \<open>add\<close> and \<open>pow\<close>. A number is wrapped as a leaf with no
  children.

  The table of \<open>pow\<close> is complete: a positive base has the real power; a base other than
  \<open>0\<close> and a whole exponent the integer power; the base \<open>0\<close> has the result \<open>0\<close> with the
  gradient \<open>0\<close> for an exponent above \<open>1\<close>, and \<open>0\<close> with the gradient \<open>1\<close> for the exponent
  \<open>1\<close>, and no real result or gradient below; a negative base with a fractional exponent
  has none; and an exponent that is a positive whole number has the power and \<open>n\<close> times
  the power one lower at every base. \<open>log_v\<close> has no real result from \<open>0\<close> down.

  Each local gradient is the derivative of the result in that operand: for \<open>pow\<close> at a
  positive base, at every base when the exponent is a positive whole number, and at the
  base \<open>0\<close> from the right when the exponent is above \<open>1\<close> (to the left a fractional power is
  no number); for \<open>log_v\<close> at a positive operand; for \<open>relu\<close> away from \<open>0\<close>.
\<close>

theorem operators_record_local_derivatives:
  "add a other = Value (data a + data (wrap other)) [a, wrap other] [1, 1]
   \<and> mul a other =
       Value (data a * data (wrap other)) [a, wrap other] [data (wrap other), data a]
   \<and> (0 < data a \<longrightarrow>
        pow a p = Some (Value (data a powr p) [a] [p * data a powr (p - 1)]))
   \<and> (data a \<noteq> 0 \<longrightarrow>
        pow a (of_int n) = Some (Value (data a powi n) [a] [of_int n * data a powi (n - 1)]))
   \<and> (data a = 0 \<longrightarrow>
        pow a p = (if 1 < p then Some (Value 0 [a] [0])
                   else if p = 1 then Some (Value 0 [a] [1]) else None))
   \<and> (data a < 0 \<longrightarrow> p \<noteq> of_int \<lfloor>p\<rfloor> \<longrightarrow> pow a p = None)
   \<and> pow a (of_nat (Suc m)) =
        Some (Value (data a ^ Suc m) [a] [of_nat (Suc m) * data a ^ m])
   \<and> (0 < data a \<longrightarrow> log_v a = Some (Value (ln (data a)) [a] [1 / data a]))
   \<and> (data a \<le> 0 \<longrightarrow> log_v a = None)
   \<and> exp_v a = Value (exp (data a)) [a] [exp (data a)]
   \<and> relu a = Value (max 0 (data a)) [a] [if data a > 0 then 1 else 0]
   \<and> neg a = mul a (N (- 1))
   \<and> sub a (V b) = add a (V (neg b))
   \<and> sub a (N c) = add a (N (- c))
   \<and> div_v a other = pow (wrap other) (- 1) \<bind> (\<lambda>r. Some (mul a (V r)))
   \<and> wrap (N c) = Value c [] []
   \<and> wrap (V b) = b
   \<and> ((\<lambda>x. data (add (Value x cs gs) (V b))) has_real_derivative
         localGrads (add a (V b)) ! 0) (at (data a))
   \<and> ((\<lambda>y. data (add a (V (Value y cs gs)))) has_real_derivative
         localGrads (add a (V b)) ! 1) (at (data b))
   \<and> ((\<lambda>x. data (mul (Value x cs gs) (V b))) has_real_derivative
         localGrads (mul a (V b)) ! 0) (at (data a))
   \<and> ((\<lambda>y. data (mul a (V (Value y cs gs)))) has_real_derivative
         localGrads (mul a (V b)) ! 1) (at (data b))
   \<and> ((\<lambda>x. data (exp_v (Value x cs gs))) has_real_derivative
         localGrads (exp_v a) ! 0) (at (data a))
   \<and> (0 < data a \<longrightarrow>
        ((\<lambda>x. data (the (pow (Value x cs gs) p))) has_real_derivative
           localGrads (the (pow a p)) ! 0) (at (data a)))
   \<and> ((\<lambda>x. data (the (pow (Value x cs gs) (of_nat (Suc m))))) has_real_derivative
         localGrads (the (pow a (of_nat (Suc m)))) ! 0) (at (data a))
   \<and> (data a = 0 \<longrightarrow> 1 < p \<longrightarrow>
        ((\<lambda>x. data (the (pow (Value x cs gs) p))) has_real_derivative
           localGrads (the (pow a p)) ! 0) (at (data a) within {0..}))
   \<and> (0 < data a \<longrightarrow>
        ((\<lambda>x. data (the (log_v (Value x cs gs)))) has_real_derivative
           localGrads (the (log_v a)) ! 0) (at (data a)))
   \<and> (data a \<noteq> 0 \<longrightarrow>
        ((\<lambda>x. data (relu (Value x cs gs))) has_real_derivative
           localGrads (relu a) ! 0) (at (data a)))"
proof -
  have shape:
    "add a other = Value (data a + data (wrap other)) [a, wrap other] [1, 1]"
    "mul a other =
       Value (data a * data (wrap other)) [a, wrap other] [data (wrap other), data a]"
    "exp_v a = Value (exp (data a)) [a] [exp (data a)]"
    "relu a = Value (max 0 (data a)) [a] [if data a > 0 then 1 else 0]"
    "neg a = mul a (N (- 1))"
    "sub a (V b) = add a (V (neg b))"
    "sub a (N c) = add a (N (- c))"
    "div_v a other = pow (wrap other) (- 1) \<bind> (\<lambda>r. Some (mul a (V r)))"
    "wrap (N c) = Value c [] []"
    "wrap (V b) = b"
    by (simp_all add: add_def mul_def exp_v_def relu_def neg_def sub_def div_v_def wrap_def
        Let_def)
  have logp:
    "0 < data a \<longrightarrow> log_v a = Some (Value (ln (data a)) [a] [1 / data a])"
    "data a \<le> 0 \<longrightarrow> log_v a = None"
    by (simp_all add: log_v_def)
  show ?thesis
    by (intro conjI impI)
      (rule shape pow_pos pow_int pow_zero_base pow_neg_base_fraction pow_nat_everywhere
        logp [rule_format] local_grads_are_derivatives local_grads_are_derivatives_pos
        local_grad_pow_nat local_grad_pow_at_zero local_grad_relu; assumption?)+
qed

theorem operators_record_local_derivatives_witness:
  "pow (Value 2 [] []) 3 = Some (Value 8 [Value 2 [] []] [12])
   \<and> pow (Value (- 2) [] []) (- 1) = Some (Value (- (1 / 2)) [Value (- 2) [] []] [- (1 / 4)])
   \<and> pow (Value 0 [] []) 2 = Some (Value 0 [Value 0 [] []] [0])
   \<and> pow (Value 0 [] []) (1 / 2) = None
   \<and> pow (Value (- 2) [] []) (1 / 2) = None
   \<and> log_v (Value 1 [] []) = Some (Value 0 [Value 1 [] []] [1])
   \<and> log_v (Value 0 [] []) = None
   \<and> ((\<lambda>x. data (the (pow (Value x [] []) 2))) has_real_derivative 0) (at 0 within {0..})
   \<and> ((\<lambda>x. data (relu (Value x [] []))) has_real_derivative 1) (at 5)"
proof -
  have "pow (Value 2 [] []) 3 = Some (Value 8 [Value 2 [] []] [12])"
    using operators_record_local_derivatives [where a = "Value 2 [] []" and p = 3] by simp
  moreover have
    "pow (Value (- 2) [] []) (- 1) = Some (Value (- (1 / 2)) [Value (- 2) [] []] [- (1 / 4)])"
    using operators_record_local_derivatives [where a = "Value (- 2) [] []" and n = "- 1"]
    by (simp add: power_int_minus field_simps)
  moreover have "pow (Value 0 [] []) 2 = Some (Value 0 [Value 0 [] []] [0])"
    using operators_record_local_derivatives [where a = "Value 0 [] []" and p = 2] by simp
  moreover have "pow (Value 0 [] []) (1 / 2) = None"
    using operators_record_local_derivatives [where a = "Value 0 [] []" and p = "1 / 2"] by simp
  moreover have "pow (Value (- 2) [] []) (1 / 2) = None"
  proof -
    have "(1 / 2 :: real) \<noteq> of_int \<lfloor>1 / 2 :: real\<rfloor>"
      by simp
    then show ?thesis
      using operators_record_local_derivatives [where a = "Value (- 2) [] []" and p = "1 / 2"]
      by simp
  qed
  moreover have "log_v (Value 1 [] []) = Some (Value 0 [Value 1 [] []] [1])"
    using operators_record_local_derivatives [where a = "Value 1 [] []"] by simp
  moreover have "log_v (Value 0 [] []) = None"
    using operators_record_local_derivatives [where a = "Value 0 [] []"] by simp
  moreover have
    "((\<lambda>x. data (the (pow (Value x [] []) 2))) has_real_derivative 0) (at 0 within {0..})"
  proof -
    note w = operators_record_local_derivatives
      [where a = "Value 0 [] []" and p = 2 and cs = "[]" and gs = "[]" and other = "N 0"
        and m = 0 and n = 0 and b = "Value 0 [] []" and c = 0]
    show ?thesis
      using w by (elim conjE) simp
  qed
  moreover have "((\<lambda>x. data (relu (Value x [] []))) has_real_derivative 1) (at 5)"
    using operators_record_local_derivatives [where a = "Value 5 [] []" and cs = "[]" and gs = "[]"]
    by (simp add: relu_def)
  ultimately show ?thesis by blast
qed

section \<open>Softmax and RMS normalization\<close>

lemma those_map_Some:
  "(\<And>x. x \<in> set xs \<Longrightarrow> f x = Some (g x)) \<Longrightarrow> those (map f xs) = Some (map g xs)"
  by (induction xs) simp_all

lemma those_eq_Some_length: "those xs = Some ys \<Longrightarrow> length ys = length xs"
  by (induction xs arbitrary: ys) (auto split: option.splits)

lemma those_eq_Some_nth:
  "those xs = Some ys \<Longrightarrow> i < length xs \<Longrightarrow> xs ! i = Some (ys ! i)"
proof (induction xs arbitrary: ys i)
  case Nil
  then show ?case by simp
next
  case (Cons x xs)
  then show ?case
    by (cases i) (auto split: option.splits)
qed

lemma data_foldl_add:
  "data (foldl (\<lambda>a b. add a (V b)) x xs) = data x + sum_list (map data xs)"
  by (induction xs arbitrary: x) (simp_all add: add_def wrap_def)

lemma reduce_add_data:
  "xs \<noteq> [] \<Longrightarrow> \<exists>t. reduce (\<lambda>a b. add a (V b)) xs = Some t \<and> data t = sum_list (map data xs)"
  by (cases xs) (simp_all add: reduce_def data_foldl_add)

lemma foldl_max: "foldl max (x::real) xs = Max (set (x # xs))"
  by (metis (no_types, lifting) ext Max.set_eq_fold foldl_conv_fold max.commute)

lemma Math_max_eq: "xs \<noteq> [] \<Longrightarrow> Math_max xs = Some (Max (set xs))"
  by (cases xs) (simp_all add: Math_max_def reduce_def foldl_max del: Max_insert)

lemma sum_list_pos_real:
  "xs \<noteq> [] \<Longrightarrow> (\<And>x::real. x \<in> set xs \<Longrightarrow> 0 < x) \<Longrightarrow> 0 < sum_list xs"
proof (induction xs)
  case Nil
  then show ?case by simp
next
  case (Cons a xs)
  have "0 \<le> sum_list xs"
    using Cons.prems(2) by (intro sum_list_nonneg) (simp add: less_imp_le)
  moreover have "0 < a"
    using Cons.prems(2) by simp
  ultimately show ?case by simp
qed

lemma Math_max_Nil: "Math_max [] = None"
  by (simp add: Math_max_def reduce_def)

lemma div_v_eq:
  assumes "data (wrap b) \<noteq> 0"
  shows "div_v a b =
    Some (mul a (V (Value (1 / data (wrap b)) [wrap b] [- (1 / (data (wrap b))\<^sup>2)])))"
proof -
  have "pow (wrap b) (- 1) =
      Some (Value (data (wrap b) powi (- 1)) [wrap b] [- 1 * data (wrap b) powi (- 2)])"
    using pow_int [OF assms, of "- 1"] by simp
  then show ?thesis
    by (simp add: div_v_def power_int_minus divide_inverse)
qed

lemma softmax_shape:
  assumes "logits \<noteq> []"
  shows "\<exists>inv. softmax logits =
        Some (map (\<lambda>v. mul (exp_v (sub v (N (Max (set (map data logits)))))) (V inv)) logits)
    \<and> data inv = 1 / (\<Sum>d\<leftarrow>map data logits. exp (d - Max (set (map data logits))))
    \<and> 0 < (\<Sum>d\<leftarrow>map data logits. exp (d - Max (set (map data logits))))"
proof -
  define M where "M = Max (set (map data logits))"
  define exps where "exps = map (\<lambda>v. exp_v (sub v (N M))) logits"
  have dexps: "map data exps = map (\<lambda>d. exp (d - M)) (map data logits)"
    by (simp add: exps_def exp_v_def sub_def add_def wrap_def Let_def)
  have ne: "exps \<noteq> []"
    using assms by (simp add: exps_def)
  obtain tot where tot: "reduce (\<lambda>a b. add a (V b)) exps = Some tot"
    and dtot: "data tot = sum_list (map data exps)"
    using reduce_add_data [OF ne] by blast
  have pos: "0 < data tot"
    unfolding dtot using assms by (intro sum_list_pos_real) (auto simp: dexps)
  define inv where "inv = Value (1 / data tot) [tot] [- (1 / (data tot)\<^sup>2)]"
  have "div_v e (V tot) = Some (mul e (V inv))" for e
    using pos div_v_eq [of "V tot" e] by (simp add: wrap_def inv_def)
  then have "those (map (\<lambda>e. div_v e (V tot)) exps) = Some (map (\<lambda>e. mul e (V inv)) exps)"
    by (intro those_map_Some) simp
  moreover have "Math_max (map data logits) = Some M"
    using assms by (simp add: Math_max_eq M_def)
  ultimately have "softmax logits = Some (map (\<lambda>e. mul e (V inv)) exps)"
    using tot by (simp add: softmax_def exps_def)
  then have "softmax logits = Some (map (\<lambda>v. mul (exp_v (sub v (N M))) (V inv)) logits)"
    by (simp add: exps_def comp_def)
  moreover have "data inv = 1 / (\<Sum>d\<leftarrow>map data logits. exp (d - M))"
    by (simp add: inv_def dtot dexps)
  moreover have "0 < (\<Sum>d\<leftarrow>map data logits. exp (d - M))"
    using pos by (simp add: dtot dexps)
  ultimately show ?thesis
    unfolding M_def by blast
qed


lemma sum_list_nonneg_pos:
  fixes xs :: "real list"
  assumes "\<And>x. x \<in> set xs \<Longrightarrow> 0 \<le> x" and "y \<in> set xs" and "0 < y"
  shows "0 < sum_list xs"
proof -
  have "y \<le> sum_list xs"
    using assms(2) assms(1) by (rule member_le_sum_list)
  with assms(3) show ?thesis by simp
qed






lemma inv_sqrt_sq: "0 < (a::real) \<Longrightarrow> (a powr (- (1 / 2)))\<^sup>2 = 1 / a"
  by (simp add: powr_minus_divide powr_half_sqrt power_divide)

lemma scale_shift:
  assumes "0 < (c::real)" "0 \<le> m" "0 < e"
  shows "c * (c\<^sup>2 * m + e) powr (- (1 / 2)) = (m + e / c\<^sup>2) powr (- (1 / 2))"
proof -
  have "c\<^sup>2 * m + e = c\<^sup>2 * (m + e / c\<^sup>2)"
    using assms by (simp add: field_simps)
  then have "(c\<^sup>2 * m + e) powr (- (1 / 2)) =
      (c\<^sup>2) powr (- (1 / 2)) * (m + e / c\<^sup>2) powr (- (1 / 2))"
    using assms by (simp add: powr_mult)
  moreover have "(c\<^sup>2) powr (- (1 / 2)) = 1 / c"
    using assms by (simp add: powr_minus_divide powr_half_sqrt)
  ultimately show ?thesis
    using assms by simp
qed

lemma rmsnorm_shape:
  assumes "x \<noteq> []"
  shows "\<exists>scale. rmsnorm x = Some (map (\<lambda>xi. mul xi (V scale)) x)
    \<and> data scale =
        ((\<Sum>d\<leftarrow>map data x. d\<^sup>2) / real (length x) + 1 / 100000) powr (- (1 / 2))"
proof -
  have "map (\<lambda>xi. mul xi (V xi)) x \<noteq> []"
    using assms by simp
  then obtain s where s: "reduce (\<lambda>a b. add a (V b)) (map (\<lambda>xi. mul xi (V xi)) x) = Some s"
    and ds: "data s = sum_list (map data (map (\<lambda>xi. mul xi (V xi)) x))"
    using reduce_add_data by blast
  have ds': "data s = (\<Sum>d\<leftarrow>map data x. d\<^sup>2)"
    by (simp add: ds mul_def wrap_def comp_def power2_eq_square)
  have n: "real (length x) \<noteq> 0"
    using assms by simp
  define ms where "ms = mul s (V (Value (1 / real (length x)) [Value (real (length x)) [] []]
      [- (1 / (real (length x))\<^sup>2)]))"
  have msd: "div_v s (N (real (length x))) = Some ms"
    using n div_v_eq [of "N (real (length x))" s] by (simp add: wrap_def ms_def)
  have dms: "data ms = (\<Sum>d\<leftarrow>map data x. d\<^sup>2) / real (length x)"
    by (simp add: ms_def mul_def wrap_def ds')
  have "0 \<le> (\<Sum>d\<leftarrow>map data x. d\<^sup>2)"
    by (intro sum_list_nonneg) auto
  then have "0 \<le> data ms"
    by (simp add: dms)
  then have pos: "0 < data (add ms (N (1 / 100000)))"
    by (simp add: add_def wrap_def)
  define scale where "scale = Value (data (add ms (N (1 / 100000))) powr (- (1 / 2)))
      [add ms (N (1 / 100000))]
      [- (1 / 2) * data (add ms (N (1 / 100000))) powr (- (1 / 2) - 1)]"
  have "pow (add ms (N (1 / 100000))) (- (1 / 2)) = Some scale"
    using pow_pos [OF pos, of "- (1 / 2)"] by (simp add: scale_def)
  then have "rmsnorm x = Some (map (\<lambda>xi. mul xi (V scale)) x)"
    using s msd by (simp add: rmsnorm_def)
  moreover have "data scale =
      ((\<Sum>d\<leftarrow>map data x. d\<^sup>2) / real (length x) + 1 / 100000) powr (- (1 / 2))"
    by (simp add: scale_def add_def wrap_def dms)
  ultimately show ?thesis by blast
qed

lemma rmsnorm_mean_square:
  assumes "x \<noteq> []"
  shows "map_option (\<lambda>y. (\<Sum>yi\<leftarrow>y. (data yi)\<^sup>2) / real (length y)) (rmsnorm x) =
    Some (((\<Sum>xi\<leftarrow>x. (data xi)\<^sup>2) / real (length x))
      / ((\<Sum>xi\<leftarrow>x. (data xi)\<^sup>2) / real (length x) + 1 / 100000))"
proof -
  define ms where "ms = (\<Sum>d\<leftarrow>map data x. d\<^sup>2) / real (length x)"
  have ms_eq: "ms = (\<Sum>xi\<leftarrow>x. (data xi)\<^sup>2) / real (length x)"
    by (simp add: ms_def comp_def)
  have ms0: "0 \<le> ms"
    unfolding ms_def by (intro divide_nonneg_nonneg sum_list_nonneg) auto
  obtain scale where r: "rmsnorm x = Some (map (\<lambda>xi. mul xi (V scale)) x)"
    and dscale: "data scale = (ms + 1 / 100000) powr (- (1 / 2))"
    using rmsnorm_shape [OF assms] unfolding ms_def by blast
  define y where "y = map (\<lambda>xi. mul xi (V scale)) x"
  have dy: "map data y = map (\<lambda>xi. data xi * data scale) x"
    by (simp add: y_def mul_def wrap_def)
  have "(\<Sum>yi\<leftarrow>y. (data yi)\<^sup>2) = (\<Sum>d\<leftarrow>map data y. d\<^sup>2)"
    by (simp add: comp_def)
  also have "\<dots> = (\<Sum>xi\<leftarrow>x. (data xi)\<^sup>2 * (data scale)\<^sup>2)"
    by (simp add: dy comp_def power_mult_distrib)
  also have "\<dots> = (\<Sum>xi\<leftarrow>x. (data xi)\<^sup>2) * (data scale)\<^sup>2"
    by (rule sum_list_mult_const)
  also have "(data scale)\<^sup>2 = 1 / (ms + 1 / 100000)"
    unfolding dscale using ms0 by (intro inv_sqrt_sq) simp
  finally have "(\<Sum>yi\<leftarrow>y. (data yi)\<^sup>2) / real (length y) = ms / (ms + 1 / 100000)"
    by (simp add: ms_eq y_def)
  then show ?thesis
    using r unfolding ms_eq [symmetric] by (simp add: y_def)
qed

text \<open>
  Claim C6, as amended: on a vector \<open>x\<close> that is not empty and whose squares add up to less
  than the doubles reach, \<open>rmsnorm\<close> returns every entry multiplied by one node \<open>scale\<close>
  whose data is \<open>(ms + 1e-5)\<close> to the power \<open>-0.5\<close>, where \<open>ms\<close> is the mean of the squares;
  there is no gain and no bias. The mean square of the output is \<open>ms / (ms + 1e-5)\<close>: it is
  below \<open>1\<close> and, for an input other than zero, at least \<open>1 - 1e-5 / ms\<close>, so it is near \<open>1\<close>
  only where \<open>ms\<close> is large against \<open>1e-5\<close>. Scaling the input by \<open>c > 0\<close> gives the output
  that \<open>x\<close> has with \<open>1e-5 / c\<^sup>2\<close> in place of \<open>1e-5\<close>, which is another output.
\<close>

theorem rmsnorm_mean_square_is_below_one:
  assumes "x \<noteq> []" and "(\<Sum>xi\<leftarrow>x. (data xi)\<^sup>2) < 2 ^ 1024"
  shows "\<exists>y scale. rmsnorm x = Some y
    \<and> y = map (\<lambda>xi. mul xi (V scale)) x
    \<and> data scale =
        ((\<Sum>xi\<leftarrow>x. (data xi)\<^sup>2) / real (length x) + 1 / 100000) powr (- (1 / 2))
    \<and> map data y = map (\<lambda>xi. data xi * data scale) x
    \<and> (\<Sum>yi\<leftarrow>y. (data yi)\<^sup>2) / real (length y) =
        ((\<Sum>xi\<leftarrow>x. (data xi)\<^sup>2) / real (length x))
        / ((\<Sum>xi\<leftarrow>x. (data xi)\<^sup>2) / real (length x) + 1 / 100000)
    \<and> (\<Sum>yi\<leftarrow>y. (data yi)\<^sup>2) / real (length y) < 1
    \<and> (0 < (\<Sum>xi\<leftarrow>x. (data xi)\<^sup>2) \<longrightarrow>
          1 - 1 / 100000 / ((\<Sum>xi\<leftarrow>x. (data xi)\<^sup>2) / real (length x))
            \<le> (\<Sum>yi\<leftarrow>y. (data yi)\<^sup>2) / real (length y))
    \<and> (\<forall>c x'. 0 < c \<and> map data x' = map (\<lambda>xi. c * data xi) x
            \<and> c\<^sup>2 * (\<Sum>xi\<leftarrow>x. (data xi)\<^sup>2) < 2 ^ 1024 \<longrightarrow>
          (\<exists>y'. rmsnorm x' = Some y'
            \<and> map data y' =
                map (\<lambda>xi. data xi *
                  ((\<Sum>xi\<leftarrow>x. (data xi)\<^sup>2) / real (length x) + 1 / 100000 / c\<^sup>2)
                    powr (- (1 / 2))) x))"
proof -
  define ms where "ms = (\<Sum>d\<leftarrow>map data x. d\<^sup>2) / real (length x)"
  have ms_eq: "ms = (\<Sum>xi\<leftarrow>x. (data xi)\<^sup>2) / real (length x)"
    by (simp add: ms_def comp_def)
  have ms0: "0 \<le> ms"
    unfolding ms_def by (intro divide_nonneg_nonneg sum_list_nonneg) auto
  obtain scale where r: "rmsnorm x = Some (map (\<lambda>xi. mul xi (V scale)) x)"
    and dscale: "data scale = (ms + 1 / 100000) powr (- (1 / 2))"
    using rmsnorm_shape [OF assms(1)] unfolding ms_def by blast
  define y where "y = map (\<lambda>xi. mul xi (V scale)) x"
  have dy: "map data y = map (\<lambda>xi. data xi * data scale) x"
    by (simp add: y_def mul_def wrap_def)
  have "(\<Sum>yi\<leftarrow>y. (data yi)\<^sup>2) = (\<Sum>d\<leftarrow>map data y. d\<^sup>2)"
    by (simp add: comp_def)
  also have "\<dots> = (\<Sum>xi\<leftarrow>x. (data xi)\<^sup>2 * (data scale)\<^sup>2)"
    by (simp add: dy comp_def power_mult_distrib)
  also have "\<dots> = (\<Sum>xi\<leftarrow>x. (data xi)\<^sup>2) * (data scale)\<^sup>2"
    by (rule sum_list_mult_const)
  also have "(data scale)\<^sup>2 = 1 / (ms + 1 / 100000)"
    unfolding dscale using ms0 by (intro inv_sqrt_sq) simp
  finally have rms: "(\<Sum>yi\<leftarrow>y. (data yi)\<^sup>2) / real (length y) = ms / (ms + 1 / 100000)"
    by (simp add: ms_eq y_def)
  have scaled: "\<exists>y'. rmsnorm x' = Some y'
      \<and> map data y' = map (\<lambda>xi. data xi * (ms + 1 / 100000 / c\<^sup>2) powr (- (1 / 2))) x"
    if c: "0 < c" and eq: "map data x' = map (\<lambda>xi. c * data xi) x" for c x'
  proof -
    have ne: "x' \<noteq> []"
      using assms(1) eq by auto
    have len: "length x' = length x"
      using eq by (metis length_map)
    have "(\<Sum>d\<leftarrow>map data x'. d\<^sup>2) = (\<Sum>xi\<leftarrow>x. (data xi)\<^sup>2 * c\<^sup>2)"
      by (simp add: eq comp_def power_mult_distrib mult.commute)
    also have "\<dots> = (\<Sum>xi\<leftarrow>x. (data xi)\<^sup>2) * c\<^sup>2"
      by (rule sum_list_mult_const)
    finally have ms': "(\<Sum>d\<leftarrow>map data x'. d\<^sup>2) / real (length x') = c\<^sup>2 * ms"
      by (simp add: ms_eq len)
    obtain scale' where r': "rmsnorm x' = Some (map (\<lambda>xi. mul xi (V scale')) x')"
      and dscale': "data scale' = (c\<^sup>2 * ms + 1 / 100000) powr (- (1 / 2))"
      using rmsnorm_shape [OF ne] unfolding ms' by blast
    have "map data (map (\<lambda>xi. mul xi (V scale')) x') =
        map (\<lambda>d. d * data scale') (map data x')"
      by (simp add: mul_def wrap_def)
    also have "\<dots> = map (\<lambda>xi. data xi * (c * data scale')) x"
      by (simp add: eq mult_ac)
    also have "c * data scale' = (ms + 1 / 100000 / c\<^sup>2) powr (- (1 / 2))"
      unfolding dscale' using c ms0 by (intro scale_shift) simp_all
    finally show ?thesis
      using r' by blast
  qed
  have "rmsnorm x = Some y"
    using r by (simp add: y_def)
  moreover have "data scale = (ms + 1 / 100000) powr (- (1 / 2))"
    by (rule dscale)
  moreover have "\<forall>c x'. 0 < c \<and> map data x' = map (\<lambda>xi. c * data xi) x
        \<and> c\<^sup>2 * (\<Sum>xi\<leftarrow>x. (data xi)\<^sup>2) < 2 ^ 1024 \<longrightarrow>
      (\<exists>y'. rmsnorm x' = Some y'
        \<and> map data y' = map (\<lambda>xi. data xi * (ms + 1 / 100000 / c\<^sup>2) powr (- (1 / 2))) x)"
    using scaled by blast
  moreover have "(\<Sum>yi\<leftarrow>y. (data yi)\<^sup>2) / real (length y) < 1"
    unfolding rms using ms0 by simp
  moreover have "0 < (\<Sum>xi\<leftarrow>x. (data xi)\<^sup>2) \<longrightarrow>
      1 - 1 / 100000 / ms \<le> (\<Sum>yi\<leftarrow>y. (data yi)\<^sup>2) / real (length y)"
  proof
    assume "0 < (\<Sum>xi\<leftarrow>x. (data xi)\<^sup>2)"
    then have "0 < ms"
      using assms(1) by (simp add: ms_eq)
    then have "(ms - 1 / 100000) * (ms + 1 / 100000) \<le> ms * ms"
      by (simp add: algebra_simps)
    then have "(ms - 1 / 100000) / ms \<le> ms / (ms + 1 / 100000)"
      using \<open>0 < ms\<close> by (simp add: field_simps)
    then show "1 - 1 / 100000 / ms \<le> (\<Sum>yi\<leftarrow>y. (data yi)\<^sup>2) / real (length y)"
      unfolding rms using \<open>0 < ms\<close> by (simp add: field_simps)
  qed
  ultimately show ?thesis
    unfolding ms_eq [symmetric] using y_def dy rms by blast
qed

theorem rmsnorm_mean_square_is_below_one_witness:
  "\<exists>y. rmsnorm [Value 3 [] [], Value 4 [] []] = Some y
     \<and> map data y = [3 * (25 / 2 + 1 / 100000) powr (- (1 / 2)),
                       4 * (25 / 2 + 1 / 100000) powr (- (1 / 2))]
     \<and> (\<Sum>yi\<leftarrow>y. (data yi)\<^sup>2) / real (length y) = (25 / 2) / (25 / 2 + 1 / 100000)
     \<and> 1 - 1 / 100000 / (25 / 2) \<le> (\<Sum>yi\<leftarrow>y. (data yi)\<^sup>2) / real (length y)"
proof -
  have "[Value 3 [] [], Value 4 [] []] \<noteq> []"
    "(\<Sum>xi\<leftarrow>[Value 3 [] [], Value 4 [] []]. (data xi)\<^sup>2) < 2 ^ 1024"
    by simp_all
  from rmsnorm_mean_square_is_below_one [OF this]
  obtain y scale where "rmsnorm [Value 3 [] [], Value 4 [] []] = Some y"
    "data scale = ((\<Sum>xi\<leftarrow>[Value 3 [] [], Value 4 [] []]. (data xi)\<^sup>2)
        / real (length [Value 3 [] [], Value 4 [] []]) + 1 / 100000) powr (- (1 / 2))"
    "map data y = map (\<lambda>xi. data xi * data scale) [Value 3 [] [], Value 4 [] []]"
    "(\<Sum>yi\<leftarrow>y. (data yi)\<^sup>2) / real (length y) =
        ((\<Sum>xi\<leftarrow>[Value 3 [] [], Value 4 [] []]. (data xi)\<^sup>2)
          / real (length [Value 3 [] [], Value 4 [] []]))
        / ((\<Sum>xi\<leftarrow>[Value 3 [] [], Value 4 [] []]. (data xi)\<^sup>2)
          / real (length [Value 3 [] [], Value 4 [] []]) + 1 / 100000)"
    "0 < (\<Sum>xi\<leftarrow>[Value 3 [] [], Value 4 [] []]. (data xi)\<^sup>2) \<longrightarrow>
          1 - 1 / 100000 / ((\<Sum>xi\<leftarrow>[Value 3 [] [], Value 4 [] []]. (data xi)\<^sup>2)
              / real (length [Value 3 [] [], Value 4 [] []]))
            \<le> (\<Sum>yi\<leftarrow>y. (data yi)\<^sup>2) / real (length y)"
    by (elim exE conjE) (rule that; assumption)
  then show ?thesis
    by simp
qed

theorem rmsnorm_small_input_counterexample:
  "map_option (\<lambda>y. (\<Sum>yi\<leftarrow>y. (data yi)\<^sup>2) / real (length y))
      (rmsnorm [Value (1 / 1000) [] []]) = Some (1 / 11)
   \<and> map_option (\<lambda>y. (\<Sum>yi\<leftarrow>y. (data yi)\<^sup>2) / real (length y))
      (rmsnorm [Value 1 [] []]) = Some (100000 / 100001)
   \<and> rmsnorm [] = None"
proof -
  have "rmsnorm [] = None"
    by (simp add: rmsnorm_def reduce_def)
  moreover have "map_option (\<lambda>y. (\<Sum>yi\<leftarrow>y. (data yi)\<^sup>2) / real (length y))
      (rmsnorm [Value (1 / 1000) [] []]) = Some (1 / 11)"
    using rmsnorm_mean_square [of "[Value (1 / 1000) [] []]"] by (simp add: power2_eq_square)
  moreover have "map_option (\<lambda>y. (\<Sum>yi\<leftarrow>y. (data yi)\<^sup>2) / real (length y))
      (rmsnorm [Value 1 [] []]) = Some (100000 / 100001)"
    using rmsnorm_mean_square [of "[Value 1 [] []]"] by simp
  ultimately show ?thesis
    by simp
qed

section \<open>Loops that do not fail\<close>

subsection \<open>Loops\<close>

lemma foldlM_append:
  "foldlM f s (xs @ ys) = foldlM f s xs \<bind> (\<lambda>s'. foldlM f s' ys)"
  by (induction xs arbitrary: s) (simp_all add: Option.bind_assoc)

lemma foldlM_foldl:
  assumes "\<And>s x. x \<in> set xs \<Longrightarrow> f s x = Some (g s x)"
  shows "foldlM f s xs = Some (foldl g s xs)"
  using assms by (induction xs arbitrary: s) simp_all

lemma foldlM_push:
  assumes "\<And>acc x. x \<in> set xs \<Longrightarrow> f acc x = map_option (\<lambda>y. acc @ [y]) (e x)"
  shows "foldlM f acc xs = map_option (\<lambda>ys. acc @ ys) (those (map e xs))"
  using assms
proof (induction xs arbitrary: acc)
  case Nil
  then show ?case by simp
next
  case (Cons x xs)
  show ?case
  proof (cases "e x")
    case None
    then show ?thesis using Cons.prems by simp
  next
    case (Some y)
    have "foldlM f (acc @ [y]) xs = map_option (\<lambda>ys. (acc @ [y]) @ ys) (those (map e xs))"
      using Cons.prems by (intro Cons.IH) simp
    then show ?thesis
      using Some Cons.prems by (cases "those (map e xs)") simp_all
  qed
qed

lemma those_map_exists:
  assumes "\<And>x. x \<in> set xs \<Longrightarrow> \<exists>y. f x = Some y \<and> P x y"
  shows "\<exists>ys. those (map f xs) = Some ys \<and> length ys = length xs
    \<and> (\<forall>i < length xs. f (xs ! i) = Some (ys ! i) \<and> P (xs ! i) (ys ! i))"
  using assms
proof (induction xs)
  case Nil
  then show ?case by simp
next
  case (Cons x xs)
  obtain y where y: "f x = Some y" "P x y"
    using Cons.prems by auto
  obtain ys where ys: "those (map f xs) = Some ys" "length ys = length xs"
    "\<forall>i < length xs. f (xs ! i) = Some (ys ! i) \<and> P (xs ! i) (ys ! i)"
    using Cons by auto
  have "\<forall>i < length (x # xs). f ((x # xs) ! i) = Some ((y # ys) ! i)
      \<and> P ((x # xs) ! i) ((y # ys) ! i)"
    using y ys(3) by (auto simp: nth_Cons split: nat.splits)
  then show ?case
    using y ys by (intro exI [of _ "y # ys"]) simp
qed

lemma imap_eq_map_upt: "imap f xs = map (\<lambda>i. f (xs ! i) i) [0..<length xs]"
  by (auto simp: imap_def intro!: nth_equalityI)

lemma length_imap [simp]: "length (imap f xs) = length xs"
  by (simp add: imap_def)

lemma nth_imap [simp]: "i < length xs \<Longrightarrow> imap f xs ! i = f (xs ! i) i"
  by (simp add: imap_def)

lemma length_enum [simp]: "length (enum xs) = length xs"
  by (simp add: enum_def)

lemma nth_enum [simp]: "i < length xs \<Longrightarrow> enum xs ! i = (xs ! i, i)"
  by (simp add: enum_def)

lemma length_slice: "length (slice xs a b) = min (b - a) (length xs - a)"
  by (simp add: slice_def)

lemma nth_slice: "i < b - a \<Longrightarrow> a + i < length xs \<Longrightarrow> slice xs a b ! i = xs ! (a + i)"
  by (simp add: slice_def)

subsection \<open>The numeric primitives return\<close>

lemma data_add [simp]: "data (add a b) = data a + data (wrap b)"
  by (simp add: add_def Let_def)

lemma data_mul [simp]: "data (mul a b) = data a * data (wrap b)"
  by (simp add: mul_def Let_def)

lemma wrap_V [simp]: "wrap (V a) = a"
  by (simp add: wrap_def)

lemma data_wrap_N [simp]: "data (wrap (N c)) = c"
  by (simp add: wrap_def)

lemma linear_v_lin:
  assumes "\<And>row. row \<in> set w \<Longrightarrow> length row \<le> length x"
  shows "linear_v x w = Some (lin x w)"
proof -
  have row: "foldlM (\<lambda>sum (wi, i). do {
           xi \<leftarrow> idx x i;
           Some (add sum (V (mul wi (V xi))))
         }) (Value 0 [] []) (enum row) =
       Some (foldl (\<lambda>sum (wi, i). add sum (V (mul wi (V (x ! i))))) (Value 0 [] []) (enum row))"
    if "row \<in> set w" for row
  proof (rule foldlM_foldl)
    fix s p assume "p \<in> set (enum row)"
    then have "snd p < length row"
      by (auto simp: enum_def in_set_zip)
    then have "snd p < length x"
      using assms [OF that] by simp
    then show "(case p of (wi, i) \<Rightarrow> do {
           xi \<leftarrow> idx x i;
           Some (add s (V (mul wi (V xi))))
         }) = Some (case p of (wi, i) \<Rightarrow> add s (V (mul wi (V (x ! i)))))"
      by (simp add: case_prod_beta idx_def)
  qed
  show ?thesis
    unfolding linear_v_def lin_def by (rule those_map_Some) (rule row)
qed

lemma length_lin [simp]: "length (lin x w) = length w"
  by (simp add: lin_def)

lemma linear_v_mat:
  assumes "mat r c w" "c \<le> length x"
  shows "linear_v x w = Some (lin x w)"
  using assms by (intro linear_v_lin) (simp add: mat_def)

lemma add_residual_Some:
  assumes "length x \<le> length r"
  shows "add_residual x r = Some (imap (\<lambda>xi i. add xi (V (r ! i))) x)"
proof -
  have "those (map (\<lambda>i. map_option (\<lambda>ri. add (x ! i) (V ri)) (idx r i)) [0..<length x]) =
      Some (map (\<lambda>i. add (x ! i) (V (r ! i))) [0..<length x])"
    using assms by (intro those_map_Some) (simp add: idx_def)
  then show ?thesis
    by (simp add: add_residual_def imap_eq_map_upt)
qed

lemma rmsnorm_Some:
  assumes "x \<noteq> []"
  shows "\<exists>y. rmsnorm x = Some y \<and> length y = length x"
  using rmsnorm_shape [OF assms] by auto

lemma softmax_Some:
  assumes "logits \<noteq> []"
  shows "\<exists>ps. softmax logits = Some ps \<and> length ps = length logits \<and> (\<forall>p \<in> set ps. 0 < data p)"
proof -
  obtain inv where sm: "softmax logits =
      Some (map (\<lambda>v. mul (exp_v (sub v (N (Max (set (map data logits)))))) (V inv)) logits)"
    and "data inv = 1 / (\<Sum>d\<leftarrow>map data logits. exp (d - Max (set (map data logits))))"
    and "0 < (\<Sum>d\<leftarrow>map data logits. exp (d - Max (set (map data logits))))"
    using softmax_shape [OF assms] by blast
  then have "0 < data inv" by simp
  then have "\<forall>p \<in> set (map (\<lambda>v. mul (exp_v (sub v (N (Max (set (map data logits)))))) (V inv))
      logits). 0 < data p"
    by (simp add: mul_def exp_v_def wrap_def Let_def)
  then show ?thesis
    using sm by simp
qed

lemma apply_rope_Some:
  assumes "2 * (d div 2) \<le> length x"
  shows "\<exists>y. apply_rope x pos d = Some y \<and> length y = 2 * (d div 2)"
proof -
  let ?pair = "\<lambda>i. [sub (mul (x ! (2 * i)) (N (cos (10000 powr (- (2 * real i) / real d) * real pos))))
        (V (mul (x ! (2 * i + 1)) (N (sin (10000 powr (- (2 * real i) / real d) * real pos))))),
      add (mul (x ! (2 * i)) (N (sin (10000 powr (- (2 * real i) / real d) * real pos))))
        (V (mul (x ! (2 * i + 1)) (N (cos (10000 powr (- (2 * real i) / real d) * real pos)))))]"
  have "those (map (\<lambda>i. do {
       a \<leftarrow> idx x (2 * i);
       b \<leftarrow> idx x (2 * i + 1);
       let theta = 10000 powr (- (2 * real i) / real d);
       let c = cos (theta * real pos);
       let s = sin (theta * real pos);
       Some [sub (mul a (N c)) (V (mul b (N s))), add (mul a (N s)) (V (mul b (N c)))]
     }) [0..<d div 2]) = Some (map ?pair [0..<d div 2])"
  proof (rule those_map_Some)
    fix i assume "i \<in> set [0..<d div 2]"
    then have "2 * i + 1 < length x"
      using assms by simp
    then show "do {
       a \<leftarrow> idx x (2 * i);
       b \<leftarrow> idx x (2 * i + 1);
       let theta = 10000 powr (- (2 * real i) / real d);
       let c = cos (theta * real pos);
       let s = sin (theta * real pos);
       Some [sub (mul a (N c)) (V (mul b (N s))), add (mul a (N s)) (V (mul b (N c)))]
     } = Some (?pair i)"
      by (simp add: idx_def Let_def)
  qed
  moreover have "length (concat (map ?pair [0..<n])) = 2 * n" for n
    by (induction n) simp_all
  ultimately show ?thesis
    by (simp add: apply_rope_def)
qed

lemma split_heads_Some:
  assumes "\<And>h. h < n \<Longrightarrow> \<exists>r. f (slice x (h * d) (h * d + d)) = Some r \<and> P h r"
  shows "\<exists>heads. split_heads n d f x = Some heads \<and> length heads = n
    \<and> (\<forall>h < n. f (slice x (h * d) (h * d + d)) = Some (heads ! h) \<and> P h (heads ! h))"
proof -
  have "split_heads n d f x =
      map_option (\<lambda>ys. [] @ ys) (those (map (\<lambda>h. f (slice x (h * d) (h * d + d))) [0..<n]))"
    unfolding split_heads_def
    by (rule foldlM_push) (simp add: Let_def map_option_case split: option.splits)
  moreover obtain ys where "those (map (\<lambda>h. f (slice x (h * d) (h * d + d))) [0..<n]) = Some ys"
    "length ys = length [0..<n]"
    "\<forall>i < length [0..<n]. f (slice x ([0..<n] ! i * d) ([0..<n] ! i * d + d)) = Some (ys ! i)
      \<and> P ([0..<n] ! i) (ys ! i)"
    using those_map_exists [of "[0..<n]" "\<lambda>h. f (slice x (h * d) (h * d + d))" P] assms
    by auto
  ultimately show ?thesis
    by (intro exI [of _ ys]) simp
qed

lemma data_foldl_dot:
  "data (foldl (\<lambda>dot j. add dot (V (mul (q ! j) (V (k ! j))))) s js) =
     data s + (\<Sum>j\<leftarrow>js. data (q ! j) * data (k ! j))"
  by (induction js arbitrary: s) simp_all

lemma scaled_dot_Some:
  assumes "0 < d" "d \<le> length q" "d \<le> length k"
  shows "\<exists>l. scaled_dot d q k = Some l
    \<and> data l = (\<Sum>j\<leftarrow>[0..<d]. data (q ! j) * data (k ! j)) / sqrt (real d)"
proof -
  have "foldlM (\<lambda>dot j. do {
       qj \<leftarrow> idx q j;
       kj \<leftarrow> idx k j;
       Some (add dot (V (mul qj (V kj))))
     }) (Value 0 [] []) [0..<d] =
     Some (foldl (\<lambda>dot j. add dot (V (mul (q ! j) (V (k ! j))))) (Value 0 [] []) [0..<d])"
    using assms by (intro foldlM_foldl) (simp add: idx_def)
  moreover have "sqrt (real d) \<noteq> 0"
    using assms by simp
  ultimately show ?thesis
    using div_v_eq [of "V (Value (sqrt (real d)) [] [])"]
    by (simp add: scaled_dot_def data_foldl_dot)
qed

lemma swiglu_of_Some:
  assumes "length gate \<le> length up"
  shows "swiglu_of gate up =
    Some (map (\<lambda>i. mul (silu (gate ! i)) (V (up ! i))) [0..<length gate])"
proof -
  have "swiglu_of gate up = map_option (\<lambda>ys. [] @ ys)
      (those (map (\<lambda>i. do {
         g \<leftarrow> idx gate i;
         u \<leftarrow> idx up i;
         Some (mul (silu g) (V u))
       }) [0..<length gate]))"
    unfolding swiglu_of_def
    by (rule foldlM_push) (auto split: bind_splits)
  moreover have "those (map (\<lambda>i. do {
         g \<leftarrow> idx gate i;
         u \<leftarrow> idx up i;
         Some (mul (silu g) (V u))
       }) [0..<length gate]) =
      Some (map (\<lambda>i. mul (silu (gate ! i)) (V (up ! i))) [0..<length gate])"
    using assms by (intro those_map_Some) (simp add: idx_def)
  ultimately show ?thesis by simp
qed

lemma foldlM_upt_inv:
  assumes "I 0 s"
    and "\<And>i s. i < n \<Longrightarrow> I i s \<Longrightarrow> \<exists>s'. f s i = Some s' \<and> I (Suc i) s'"
  shows "\<exists>s'. foldlM f s [0..<n] = Some s' \<and> I n s'"
  using assms(2)
proof (induction n)
  case 0
  then show ?case using assms(1) by simp
next
  case (Suc n)
  obtain s1 where s1: "foldlM f s [0..<n] = Some s1" "I n s1"
    using Suc by (metis less_Suc_eq)
  obtain s2 where "f s1 n = Some s2" "I (Suc n) s2"
    using Suc.prems [of n s1] s1 by auto
  then show ?case
    using s1 by (simp add: foldlM_append)
qed

lemma foldlM_upt_result:
  assumes "foldlM f s [0..<n] = Some s'" and "I 0 s"
    and "\<And>i s s'. i < n \<Longrightarrow> I i s \<Longrightarrow> f s i = Some s' \<Longrightarrow> I (Suc i) s'"
  shows "I n s'"
  using assms(1,3)
proof (induction n arbitrary: s')
  case 0
  then show ?case using assms(2) by simp
next
  case (Suc n)
  from Suc.prems(1) obtain s1 where s1: "foldlM f s [0..<n] = Some s1" "f s1 n = Some s'"
    by (auto simp: foldlM_append bind_eq_Some_conv)
  have "I n s1"
    using s1(1) Suc.prems(2) by (intro Suc.IH) auto
  then show ?case
    using Suc.prems(2) [of n s1 s'] s1(2) by simp
qed


section \<open>The forward pass of Variant A returns\<close>

lemma gpt_config_simps [simp]:
  "head_dim gpt_config = 4" "n_head gpt_config = 4" "n_embd gpt_config = 16"
  "n_layer gpt_config = 1" "block_size gpt_config = 8"
  by (simp_all add: gpt_config_def)

lemma gpt_logits_Some:
  assumes "qh \<noteq> []" and "\<And>kt. kt \<in> set kh \<Longrightarrow> length qh \<le> length kt"
  shows "\<exists>ls. gpt_logits qh kh = Some ls \<and> length ls = length kh
    \<and> (\<forall>t < length kh. data (ls ! t) =
          (\<Sum>j\<leftarrow>[0..<length qh]. data (qh ! j) * data (kh ! t ! j)) / 2)"
proof -
  have one: "\<exists>l. do {
       prods \<leftarrow> those (imap (\<lambda>qj j. map_option (\<lambda>kj. mul qj (V kj)) (idx kt j)) qh);
       dot \<leftarrow> reduce (\<lambda>a b. add a (V b)) prods;
       div_v dot (N (sqrt (real (head_dim gpt_config))))
     } = Some l \<and> data l = (\<Sum>j\<leftarrow>[0..<length qh]. data (qh ! j) * data (kt ! j)) / 2"
    if "kt \<in> set kh" for kt
  proof -
    have len: "length qh \<le> length kt"
      using assms(2) that by simp
    have p: "those (imap (\<lambda>qj j. map_option (\<lambda>kj. mul qj (V kj)) (idx kt j)) qh) =
        Some (map (\<lambda>j. mul (qh ! j) (V (kt ! j))) [0..<length qh])"
      unfolding imap_eq_map_upt using len by (intro those_map_Some) (simp add: idx_def)
    have "map (\<lambda>j. mul (qh ! j) (V (kt ! j))) [0..<length qh] \<noteq> []"
      using assms(1) by simp
    then obtain dot where dot: "reduce (\<lambda>a b. add a (V b))
        (map (\<lambda>j. mul (qh ! j) (V (kt ! j))) [0..<length qh]) = Some dot"
      and "data dot = sum_list (map data (map (\<lambda>j. mul (qh ! j) (V (kt ! j))) [0..<length qh]))"
      using reduce_add_data by blast
    then have ddot: "data dot = (\<Sum>j\<leftarrow>[0..<length qh]. data (qh ! j) * data (kt ! j))"
      by (simp add: comp_def)
    have "sqrt (real (head_dim gpt_config)) = 2"
      using real_sqrt_abs [of 2] by simp
    then show ?thesis
      using p dot ddot div_v_eq [of "N 2" dot] by simp
  qed
  obtain ls where "gpt_logits qh kh = Some ls" "length ls = length kh"
    "\<forall>t < length kh. do {
       prods \<leftarrow> those (imap (\<lambda>qj j. map_option (\<lambda>kj. mul qj (V kj)) (idx (kh ! t) j)) qh);
       dot \<leftarrow> reduce (\<lambda>a b. add a (V b)) prods;
       div_v dot (N (sqrt (real (head_dim gpt_config))))
     } = Some (ls ! t)
     \<and> data (ls ! t) = (\<Sum>j\<leftarrow>[0..<length qh]. data (qh ! j) * data (kh ! t ! j)) / 2"
    unfolding gpt_logits_def
    using those_map_exists [of kh _ "\<lambda>kt l. data l =
      (\<Sum>j\<leftarrow>[0..<length qh]. data (qh ! j) * data (kt ! j)) / 2", OF one]
    by blast
  then show ?thesis by blast
qed


lemma weighted_sum_Some:
  assumes "weights \<noteq> []" and "length weights \<le> length vh"
    and "\<And>t. t < length weights \<Longrightarrow> j < length (vh ! t)"
  shows "\<exists>val. do {
         prods \<leftarrow> those (imap (\<lambda>wt t. do {
           vt \<leftarrow> idx vh t;
           vj \<leftarrow> idx vt j;
           Some (mul wt (V vj))
         }) weights);
         reduce (\<lambda>a b. add a (V b)) prods
       } = Some val
     \<and> data val = (\<Sum>t\<leftarrow>[0..<length weights]. data (weights ! t) * data (vh ! t ! j))"
proof -
  have p: "those (imap (\<lambda>wt t. do {
           vt \<leftarrow> idx vh t;
           vj \<leftarrow> idx vt j;
           Some (mul wt (V vj))
         }) weights) = Some (map (\<lambda>t. mul (weights ! t) (V (vh ! t ! j))) [0..<length weights])"
    unfolding imap_eq_map_upt using assms(2,3) by (intro those_map_Some) (simp add: idx_def)
  have "map (\<lambda>t. mul (weights ! t) (V (vh ! t ! j))) [0..<length weights] \<noteq> []"
    using assms(1) by simp
  then obtain val where "reduce (\<lambda>a b. add a (V b))
      (map (\<lambda>t. mul (weights ! t) (V (vh ! t ! j))) [0..<length weights]) = Some val"
    and "data val =
      sum_list (map data (map (\<lambda>t. mul (weights ! t) (V (vh ! t ! j))) [0..<length weights]))"
    using reduce_add_data by blast
  then show ?thesis
    using p by (simp add: comp_def)
qed

lemma gpt_head_Some:
  assumes q: "h * 4 + 4 \<le> length q"
    and ks: "ks \<noteq> []" "\<And>k. k \<in> set ks \<Longrightarrow> h * 4 + 4 \<le> length k"
    and vs: "length vs = length ks" "\<And>v. v \<in> set vs \<Longrightarrow> h * 4 + 4 \<le> length v"
  shows "\<exists>logits weights ho.
      gpt_logits (slice q (h * 4) (h * 4 + 4)) (map (\<lambda>kk. slice kk (h * 4) (h * 4 + 4)) ks)
        = Some logits
    \<and> length logits = length ks
    \<and> softmax logits = Some weights
    \<and> gpt_head q ks vs x_attn h = Some (x_attn @ ho) \<and> length ho = 4
    \<and> (\<forall>j < 4. data (ho ! j) =
          (\<Sum>t\<leftarrow>[0..<length ks]. data (weights ! t) * data (vs ! t ! (h * 4 + j))))"
proof -
  let ?qh = "slice q (h * 4) (h * 4 + 4)"
  let ?kh = "map (\<lambda>kk. slice kk (h * 4) (h * 4 + 4)) ks"
  let ?vh = "map (\<lambda>vv. slice vv (h * 4) (h * 4 + 4)) vs"
  have lq: "length ?qh = 4"
    using q by (simp add: length_slice)
  have lk: "length kt = 4" if "kt \<in> set ?kh" for kt
    using that ks(2) by (fastforce simp: length_slice)
  have lv: "length (?vh ! t) = 4" if "t < length vs" for t
    using that vs(2) [of "vs ! t"] by (simp add: length_slice)
  have "?qh \<noteq> []" using lq by auto
  then obtain logits where lg: "gpt_logits ?qh ?kh = Some logits" "length logits = length ?kh"
    using gpt_logits_Some [of ?qh ?kh] lq lk by auto
  have "logits \<noteq> []" using lg(2) ks(1) by auto
  then obtain weights where w: "softmax logits = Some weights" "length weights = length logits"
    using softmax_Some by blast
  have wne: "weights \<noteq> []" and wl: "length weights = length ks"
    using w(2) lg(2) ks(1) by auto
  let ?e = "\<lambda>j. do {
         prods \<leftarrow> those (imap (\<lambda>wt t. do {
           vt \<leftarrow> idx ?vh t;
           vj \<leftarrow> idx vt j;
           Some (mul wt (V vj))
         }) weights);
         reduce (\<lambda>a b. add a (V b)) prods
       }"
  have each: "\<exists>val. ?e j = Some val
      \<and> data val = (\<Sum>t\<leftarrow>[0..<length ks]. data (weights ! t) * data (vs ! t ! (h * 4 + j)))"
    if "j \<in> set [0..<4]" for j
  proof -
    have j: "j < 4" using that by simp
    obtain val where v: "?e j = Some val"
      and d: "data val = (\<Sum>t\<leftarrow>[0..<length weights]. data (weights ! t) * data (?vh ! t ! j))"
      using weighted_sum_Some [of weights ?vh j] wne wl vs(1) lv j by auto
    have "data (weights ! t) * data (?vh ! t ! j) = data (weights ! t) * data (vs ! t ! (h * 4 + j))"
      if "t \<in> set [0..<length weights]" for t
    proof -
      have t: "t < length vs" using that wl vs(1) by simp
      then have "h * 4 + 4 \<le> length (vs ! t)" using vs(2) by simp
      then show ?thesis
        using t j by (simp add: nth_slice)
    qed
    then have "(\<Sum>t\<leftarrow>[0..<length weights]. data (weights ! t) * data (?vh ! t ! j)) =
        (\<Sum>t\<leftarrow>[0..<length weights]. data (weights ! t) * data (vs ! t ! (h * 4 + j)))"
      by (intro arg_cong [where f = sum_list] map_cong refl)
    then show ?thesis
      using v d wl by simp
  qed
  obtain ho where ho: "those (map ?e [0..<4]) = Some ho" "length ho = length [0..<4]"
    "\<forall>i < length [0..<4]. ?e ([0..<4] ! i) = Some (ho ! i)
      \<and> data (ho ! i) = (\<Sum>t\<leftarrow>[0..<length ks]. data (weights ! t)
          * data (vs ! t ! (h * 4 + [0..<4] ! i)))"
    using those_map_exists [of "[0..<4]" ?e "\<lambda>j val. data val =
      (\<Sum>t\<leftarrow>[0..<length ks]. data (weights ! t) * data (vs ! t ! (h * 4 + j)))", OF each]
    by blast
  have "foldlM (\<lambda>x_attn j. do {
            prods \<leftarrow> those (imap (\<lambda>wt t. do {
              vt \<leftarrow> idx ?vh t;
              vj \<leftarrow> idx vt j;
              Some (mul wt (V vj))
            }) weights);
            val \<leftarrow> reduce (\<lambda>a b. add a (V b)) prods;
            Some (x_attn @ [val])
          }) x_attn [0..<4] = map_option (\<lambda>ys. x_attn @ ys) (those (map ?e [0..<4]))"
    by (rule foldlM_push) (auto split: bind_splits)
  then have "gpt_head q ks vs x_attn h = Some (x_attn @ ho)"
    using lg(1) w(1) ho(1) by (simp add: gpt_head_def Let_def)
  moreover have "\<forall>j < 4. data (ho ! j) =
      (\<Sum>t\<leftarrow>[0..<length ks]. data (weights ! t) * data (vs ! t ! (h * 4 + j)))"
    using ho(3) by simp
  ultimately show ?thesis
    using lg w(1) ho(2) by auto
qed

lemma pow_2_Some: "\<exists>y. pow a 2 = Some y"
proof -
  have "\<exists>r. js_pow x 2 = Some r" for x
    by (simp add: js_pow_def)
  moreover have "\<exists>r. js_pow x 1 = Some r" for x
    by (simp add: js_pow_def)
  ultimately obtain r1 r2 where "js_pow (data a) 2 = Some r1" "js_pow (data a) (2 - 1) = Some r2"
    by force
  then show ?thesis
    by (simp add: pow_def)
qed

lemma has_matD:
  assumes "has_mat state key r c"
  obtains w where "state key = Some w" "mat r c w"
  using assms by (auto simp: has_mat_def)

lemma linear_has_mat:
  assumes "has_mat state key r c" "c \<le> length x"
  shows "\<exists>w y. state key = Some w \<and> linear_v x w = Some y \<and> length y = r"
proof -
  obtain w where w: "state key = Some w" "mat r c w"
    using assms(1) by (rule has_matD)
  then have "linear_v x w = Some (lin x w)"
    using assms(2) by (intro linear_v_mat)
  moreover have "length (lin x w) = r"
    using w(2) by (simp add: mat_def)
  ultimately show ?thesis
    using w(1) by blast
qed

lemma appended_below_0: "m = 0 \<Longrightarrow> appended_below P m cache cache"
  by (simp add: appended_below_def)

lemma appended_below_push:
  assumes "appended_below P m cache c1" and "m < length cache" and "P e"
  shows "appended_below P (Suc m) cache (c1[m := c1 ! m @ [e]])"
  using assms
  by (auto simp: appended_below_def nth_list_update less_Suc_eq)

lemma cache_ok_appended:
  assumes "cache_ok P layers k cache" "appended_below P layers cache cache'"
  shows "cache_ok P layers (Suc k) cache'"
  using assms by (fastforce simp: cache_ok_def appended_below_def)

lemma cache_ok_fresh: "cache_ok P layers 0 (fresh_cache layers)"
  by (simp add: cache_ok_def fresh_cache_def)

lemma foldlM_map: "foldlM f s (map h xs) = foldlM (\<lambda>s x. f s (h x)) s xs"
  by (induction xs arbitrary: s) simp_all

lemma enum_eq_map: "enum xs = map (\<lambda>i. (xs ! i, i)) [0..<length xs]"
  by (auto simp: enum_def intro!: nth_equalityI)

lemma forward_calls_inv:
  assumes "I 0 s"
    and "\<And>i ks vs. i < length tokens \<Longrightarrow> I i (ks, vs) \<Longrightarrow>
      \<exists>l ks' vs'. forward (tokens ! i) i ks vs = Some (l, ks', vs') \<and> I (Suc i) (ks', vs')"
  shows "\<exists>s'. forward_calls forward tokens s = Some s' \<and> I (length tokens) s'"
  unfolding forward_calls_def enum_eq_map foldlM_map
proof (rule foldlM_upt_inv [where I = I])
  show "I 0 s" by (rule assms(1))
  fix i s1 assume i: "i < length tokens" and I: "I i s1"
  obtain ks vs where s1: "s1 = (ks, vs)" by (cases s1)
  obtain l ks' vs' where "forward (tokens ! i) i ks vs = Some (l, ks', vs')" "I (Suc i) (ks', vs')"
    using assms(2) [OF i] I s1 by blast
  then show "\<exists>s'. (case s1 of (keys, values) \<Rightarrow> \<lambda>(tok, pos).
      map_option snd (forward tok pos keys values)) (tokens ! i, i) = Some s' \<and> I (Suc i) s'"
    by (simp add: s1)
qed

lemma gpt_layer_Some:
  assumes st: "gpt_state_ok vocab state" and li: "li < 1" and x: "length x = 16"
    and keys: "li < length keys" "\<And>k. k \<in> set (keys ! li) \<Longrightarrow> length k = 16"
    and vals: "li < length values" "\<And>v. v \<in> set (values ! li) \<Longrightarrow> length v = 16"
      "length (values ! li) = length (keys ! li)"
  shows "\<exists>x' k v. gpt_layer state (x, keys, values) li =
        Some (x', keys[li := keys ! li @ [k]], values[li := values ! li @ [v]])
    \<and> length x' = 16 \<and> length k = 16 \<and> length v = 16"
proof -
  have mats: "has_mat state (layer_key li ''attn_wq'') 16 16"
    "has_mat state (layer_key li ''attn_wk'') 16 16"
    "has_mat state (layer_key li ''attn_wv'') 16 16"
    "has_mat state (layer_key li ''attn_wo'') 16 16"
    "has_mat state (layer_key li ''mlp_fc1'') 64 16"
    "has_mat state (layer_key li ''mlp_fc2'') 16 64"
    using st li by (simp_all add: gpt_state_ok_def)
  have "x \<noteq> []" using x by auto
  then obtain xn where xn: "rmsnorm x = Some xn" "length xn = 16"
    using rmsnorm_Some x by metis
  obtain wq q where q: "state (layer_key li ''attn_wq'') = Some wq" "linear_v xn wq = Some q"
      "length q = 16"
    using linear_has_mat [OF mats(1), of xn] xn(2) by auto
  obtain wk k where k: "state (layer_key li ''attn_wk'') = Some wk" "linear_v xn wk = Some k"
      "length k = 16"
    using linear_has_mat [OF mats(2), of xn] xn(2) by auto
  obtain wv v where v: "state (layer_key li ''attn_wv'') = Some wv" "linear_v xn wv = Some v"
      "length v = 16"
    using linear_has_mat [OF mats(3), of xn] xn(2) by auto
  let ?keys = "keys[li := keys ! li @ [k]]"
  let ?vals = "values[li := values ! li @ [v]]"
  let ?ks = "keys ! li @ [k]"
  let ?vs = "values ! li @ [v]"
  have push: "push_at keys li k = Some ?keys" "push_at values li v = Some ?vals"
    "idx ?keys li = Some ?ks" "idx ?vals li = Some ?vs"
    using keys(1) vals(1) by (simp_all add: push_at_def idx_def)
  have heads: "\<exists>acc'. gpt_head q ?ks ?vs acc h = Some acc' \<and> length acc' = 4 * Suc h"
    if "h < 4" "length acc = 4 * h" for h acc
  proof -
    have ksok: "h * 4 + 4 \<le> length k'" if "k' \<in> set ?ks" for k'
      using that k(3) keys(2) [of k'] \<open>h < 4\<close> by auto
    have vsok: "h * 4 + 4 \<le> length v'" if "v' \<in> set ?vs" for v'
      using that v(3) vals(2) [of v'] \<open>h < 4\<close> by auto
    have qok: "h * 4 + 4 \<le> length q"
      using q(3) \<open>h < 4\<close> by simp
    have "?ks \<noteq> []" "length ?vs = length ?ks"
      using vals(3) by simp_all
    then obtain ho where "gpt_head q ?ks ?vs acc h = Some (acc @ ho)" "length ho = 4"
      using gpt_head_Some [OF qok _ ksok _ vsok, where x_attn = acc] by blast
    then show ?thesis using that(2) by simp
  qed
  obtain x_attn where xa: "foldlM (gpt_head q ?ks ?vs) [] [0..<4] = Some x_attn"
      "length x_attn = 4 * 4"
    using foldlM_upt_inv [of "\<lambda>i acc. length acc = 4 * i" "[]" 4 "gpt_head q ?ks ?vs"] heads
    by auto
  obtain wo x1 where x1: "state (layer_key li ''attn_wo'') = Some wo" "linear_v x_attn wo = Some x1"
      "length x1 = 16"
    using linear_has_mat [OF mats(4), of x_attn] xa(2) by auto
  obtain x2 where x2: "add_residual x1 x = Some x2" "length x2 = 16"
    using add_residual_Some [of x1 x] x1(3) x by simp
  have "x2 \<noteq> []" using x2(2) by auto
  then obtain x3 where x3: "rmsnorm x2 = Some x3" "length x3 = 16"
    using rmsnorm_Some x2(2) by metis
  obtain fc1 x4 where x4: "state (layer_key li ''mlp_fc1'') = Some fc1" "linear_v x3 fc1 = Some x4"
      "length x4 = 64"
    using linear_has_mat [OF mats(5), of x3] x3(2) by auto
  obtain x5 where x5: "those (map (\<lambda>xi. pow (relu xi) 2) x4) = Some x5" "length x5 = length x4"
    using those_map_exists [of x4 "\<lambda>xi. pow (relu xi) 2" "\<lambda>_ _. True"] pow_2_Some by auto
  obtain fc2 x6 where x6: "state (layer_key li ''mlp_fc2'') = Some fc2" "linear_v x5 fc2 = Some x6"
      "length x6 = 16"
    using linear_has_mat [OF mats(6), of x5] x5(2) x4(3) by auto
  obtain x7 where x7: "add_residual x6 x2 = Some x7" "length x7 = 16"
    using add_residual_Some [of x6 x2] x6(3) x2(2) by simp
  have "gpt_layer state (x, keys, values) li = Some (x7, ?keys, ?vals)"
    using xn(1) q(1,2) k(1,2) v(1,2) push xa(1) x1(1,2) x2(1) x3(1) x4(1,2) x5(1) x6(1,2) x7(1)
    by (simp add: gpt_layer_def)
  then show ?thesis
    using x7(2) k(3) v(3) by blast
qed


lemma gpt_Some:
  assumes st: "gpt_state_ok vocab state" and tok: "tokenId < vocab" and pos: "posId < 8"
    and keys: "cache_ok (\<lambda>e. length e = 16) 1 k keys"
    and vals: "cache_ok (\<lambda>e. length e = 16) 1 k values"
  shows "\<exists>logits keys' values'. gpt state tokenId posId keys values = Some (logits, keys', values')
    \<and> length logits = vocab
    \<and> appended_below (\<lambda>e. length e = 16) 1 keys keys'
    \<and> appended_below (\<lambda>e. length e = 16) 1 values values'"
proof -
  obtain wte where wte: "state ''wte'' = Some wte" "mat vocab 16 wte"
    using st by (auto simp: gpt_state_ok_def elim: has_matD)
  obtain wpe where wpe: "state ''wpe'' = Some wpe" "mat 8 16 wpe"
    using st by (auto simp: gpt_state_ok_def elim: has_matD)
  have row: "idx wte tokenId = Some (wte ! tokenId)" "length (wte ! tokenId) = 16"
    using wte(2) tok by (simp_all add: mat_def idx_def)
  have prow: "idx wpe posId = Some (wpe ! posId)" "length (wpe ! posId) = 16"
    using wpe(2) pos by (simp_all add: mat_def idx_def)
  let ?x0 = "map (\<lambda>i. add (wte ! tokenId ! i) (V (wpe ! posId ! i))) [0..<length (wte ! tokenId)]"
  have x0: "those (imap (\<lambda>t i. do {
       wpe \<leftarrow> state ''wpe'';
       prow \<leftarrow> idx wpe posId;
       p \<leftarrow> idx prow i;
       Some (add t (V p))
     }) (wte ! tokenId)) = Some ?x0"
    unfolding imap_eq_map_upt using wpe(1) prow row(2)
    by (intro those_map_Some) (simp add: idx_def)
  have "?x0 \<noteq> []" using row(2) by simp
  then obtain x1 where x1: "rmsnorm ?x0 = Some x1" "length x1 = 16"
    using rmsnorm_Some [of ?x0] row(2) by auto
  let ?P = "\<lambda>e::Value list. length e = 16"
  let ?I = "\<lambda>i (x, ks, vs). length x = 16 \<and> appended_below ?P i keys ks
    \<and> appended_below ?P i values vs"
  have step: "\<exists>s'. gpt_layer state s i = Some s' \<and> ?I (Suc i) s'"
    if i: "i < 1" and inv: "?I i s" for i s
  proof -
    obtain x ks vs where s: "s = (x, ks, vs)" by (cases s)
    with inv have x: "length x = 16" and ab: "appended_below ?P i keys ks"
      "appended_below ?P i values vs" by auto
    have lk: "length keys = 1" "length values = 1"
      using keys vals by (simp_all add: cache_ok_def)
    have same: "ks ! i = keys ! i" "vs ! i = values ! i" "i < length ks" "i < length vs"
      using ab i lk by (auto simp: appended_below_def)
    have ok: "\<And>e. e \<in> set (ks ! i) \<Longrightarrow> length e = 16" "\<And>e. e \<in> set (vs ! i) \<Longrightarrow> length e = 16"
      "length (vs ! i) = length (ks ! i)"
      using keys vals i same by (auto simp: cache_ok_def)
    obtain x' k' v' where "gpt_layer state (x, ks, vs) i =
        Some (x', ks[i := ks ! i @ [k']], vs[i := vs ! i @ [v']])"
      "length x' = 16" "length k' = 16" "length v' = 16"
      using gpt_layer_Some [OF st i x same(3) ok(1) same(4) ok(2) ok(3)] by blast
    moreover have "appended_below ?P (Suc i) keys (ks[i := ks ! i @ [k']])"
      using ab(1) i lk \<open>length k' = 16\<close> by (intro appended_below_push) simp_all
    moreover have "appended_below ?P (Suc i) values (vs[i := vs ! i @ [v']])"
      using ab(2) i lk \<open>length v' = 16\<close> by (intro appended_below_push) simp_all
    ultimately show ?thesis
      by (simp add: s)
  qed
  have "?I 0 (x1, keys, values)"
    using x1(2) by (simp add: appended_below_0)
  then obtain s' where s': "foldlM (gpt_layer state) (x1, keys, values) [0..<1] = Some s'" "?I 1 s'"
    using foldlM_upt_inv [of ?I "(x1, keys, values)" 1 "gpt_layer state"] step by blast
  obtain x2 keys' values' where s'eq: "s' = (x2, keys', values')" by (cases s')
  obtain lm where lm: "state ''lm_head'' = Some lm" "mat vocab 16 lm"
    using st by (auto simp: gpt_state_ok_def elim: has_matD)
  have "linear_v x2 lm = Some (lin x2 lm)"
    using lm(2) s'(2) by (intro linear_v_mat [of vocab 16]) (simp_all add: s'eq)
  then have "gpt state tokenId posId keys values = Some (lin x2 lm, keys', values')"
    using wte(1) row(1) x0 x1(1) s'(1) lm(1) by (simp add: gpt_def s'eq)
  moreover have "length (lin x2 lm) = vocab"
    using lm(2) by (simp add: mat_def)
  ultimately show ?thesis
    using s'(2) by (auto simp: s'eq)
qed

section \<open>The forward pass of Variant B returns\<close>

lemma data_foldl_weighted:
  "data (foldl (\<lambda>s t. add s (V (mul (a t) (V (b t))))) s0 ts) =
     data s0 + (\<Sum>t\<leftarrow>ts. data (a t) * data (b t))"
  by (induction ts arbitrary: s0) simp_all

lemma kv_head_Some:
  assumes "llama_config_ok config" "h < n_head config" "heads_entry config e"
  shows "kv_head config h e = Some (e ! nat (kv_head_idx config h))"
    and "length (e ! nat (kv_head_idx config h)) = head_dim config"
proof -
  have pos: "0 < n_rep config"
    and le: "real (n_head config) \<le> n_rep config * real (n_kv_head config)"
    using assms(1) by (simp_all add: llama_config_ok_def)
  have "real h < n_rep config * real (n_kv_head config)"
    using assms(2) le by simp
  then have "real h / n_rep config < real (n_kv_head config)"
    using pos by (simp add: pos_divide_less_eq mult.commute)
  then have "kv_head_idx config h < int (n_kv_head config)"
    unfolding kv_head_idx_def by (simp add: floor_less_iff)
  moreover have nonneg: "0 \<le> kv_head_idx config h"
    unfolding kv_head_idx_def using pos by simp
  ultimately have "nat (kv_head_idx config h) < length e"
    using assms(3) by (simp add: heads_entry_def)
  then show "kv_head config h e = Some (e ! nat (kv_head_idx config h))"
    "length (e ! nat (kv_head_idx config h)) = head_dim config"
    using pos nonneg assms(3) by (simp_all add: kv_head_def idx_def heads_entry_def)
qed

lemma llama_logits_Some:
  assumes ok: "llama_config_ok config" and h: "h < n_head config"
    and q: "length q_h = head_dim config"
    and ks: "\<And>e. e \<in> set ks \<Longrightarrow> heads_entry config e"
  shows "\<exists>logits. llama_logits config q_h (map (kv_head config h) ks) = Some logits
    \<and> length logits = length ks
    \<and> (\<forall>t < length ks.
          scaled_dot (head_dim config) q_h (ks ! t ! nat (kv_head_idx config h)) = Some (logits ! t)
          \<and> data (logits ! t) =
              (\<Sum>j\<leftarrow>[0..<head_dim config]. data (q_h ! j) * data (ks ! t ! nat (kv_head_idx config h) ! j))
              / sqrt (real (head_dim config)))"
proof -
  let ?all = "map (kv_head config h) ks"
  let ?e = "\<lambda>t. do {
       kt \<leftarrow> idx ?all t;
       k \<leftarrow> kt;
       scaled_dot (head_dim config) q_h k
     }"
  let ?P = "\<lambda>t l. scaled_dot (head_dim config) q_h (ks ! t ! nat (kv_head_idx config h)) = Some l
    \<and> data l = (\<Sum>j\<leftarrow>[0..<head_dim config]. data (q_h ! j)
        * data (ks ! t ! nat (kv_head_idx config h) ! j)) / sqrt (real (head_dim config))"
  have each: "\<exists>l. ?e t = Some l \<and> ?P t l" if "t \<in> set [0..<length ?all]" for t
  proof -
    have t: "t < length ks" using that by simp
    then have ent: "heads_entry config (ks ! t)" using ks by simp
    have kv: "kv_head config h (ks ! t) = Some (ks ! t ! nat (kv_head_idx config h))"
      "length (ks ! t ! nat (kv_head_idx config h)) = head_dim config"
      using kv_head_Some [OF ok h ent] by simp_all
    obtain l where "scaled_dot (head_dim config) q_h (ks ! t ! nat (kv_head_idx config h)) = Some l"
      "data l = (\<Sum>j\<leftarrow>[0..<head_dim config]. data (q_h ! j)
        * data (ks ! t ! nat (kv_head_idx config h) ! j)) / sqrt (real (head_dim config))"
      using scaled_dot_Some [of "head_dim config" q_h "ks ! t ! nat (kv_head_idx config h)"] ok q kv(2)
      by (auto simp: llama_config_ok_def)
    then show ?thesis
      using t kv(1) by (simp add: idx_def)
  qed
  obtain logits where l: "those (map ?e [0..<length ?all]) = Some logits"
    "length logits = length [0..<length ?all]"
    "\<forall>i < length [0..<length ?all]. ?e ([0..<length ?all] ! i) = Some (logits ! i)
      \<and> ?P ([0..<length ?all] ! i) (logits ! i)"
    using those_map_exists [of "[0..<length ?all]" ?e ?P, OF each] by blast
  have "llama_logits config q_h ?all = map_option (\<lambda>ys. [] @ ys) (those (map ?e [0..<length ?all]))"
    unfolding llama_logits_def by (rule foldlM_push) (auto split: bind_splits)
  then have "llama_logits config q_h ?all = Some logits"
    using l(1) by simp
  then show ?thesis
    using l(2,3) by auto
qed

lemma llama_head_out_Some:
  assumes ok: "llama_config_ok config" and h: "h < n_head config"
    and w: "length weights = length vs"
    and vs: "\<And>e. e \<in> set vs \<Longrightarrow> heads_entry config e"
  shows "\<exists>ho. llama_head_out config weights (map (kv_head config h) vs) = Some ho
    \<and> length ho = head_dim config
    \<and> (\<forall>j < head_dim config. data (ho ! j) =
          (\<Sum>t\<leftarrow>[0..<length vs]. data (weights ! t) * data (vs ! t ! nat (kv_head_idx config h) ! j)))"
proof -
  let ?all = "map (kv_head config h) vs"
  let ?e = "\<lambda>j. foldlM (\<lambda>sum t. do {
         w \<leftarrow> idx weights t;
         vt \<leftarrow> idx ?all t;
         v \<leftarrow> vt;
         vj \<leftarrow> idx v j;
         Some (add sum (V (mul w (V vj))))
       }) (Value 0 [] []) [0..<length ?all]"
  let ?P = "\<lambda>j s. data s =
    (\<Sum>t\<leftarrow>[0..<length vs]. data (weights ! t) * data (vs ! t ! nat (kv_head_idx config h) ! j))"
  have each: "\<exists>s. ?e j = Some s \<and> ?P j s" if "j \<in> set [0..<head_dim config]" for j
  proof -
    have j: "j < head_dim config" using that by simp
    have "?e j = Some (foldl (\<lambda>s t. add s (V (mul (weights ! t)
        (V (vs ! t ! nat (kv_head_idx config h) ! j))))) (Value 0 [] []) [0..<length ?all])"
    proof (rule foldlM_foldl)
      fix s t assume "t \<in> set [0..<length ?all]"
      then have t: "t < length vs" by simp
      then have ent: "heads_entry config (vs ! t)" using vs by simp
      have "kv_head config h (vs ! t) = Some (vs ! t ! nat (kv_head_idx config h))"
        "length (vs ! t ! nat (kv_head_idx config h)) = head_dim config"
        using kv_head_Some [OF ok h ent] by simp_all
      then show "do {
         w \<leftarrow> idx weights t;
         vt \<leftarrow> idx ?all t;
         v \<leftarrow> vt;
         vj \<leftarrow> idx v j;
         Some (add s (V (mul w (V vj))))
       } = Some (add s (V (mul (weights ! t) (V (vs ! t ! nat (kv_head_idx config h) ! j)))))"
        using t w j by (simp add: idx_def)
    qed
    then show ?thesis
      by (simp add: data_foldl_weighted)
  qed
  obtain ho where ho: "those (map ?e [0..<head_dim config]) = Some ho"
    "length ho = length [0..<head_dim config]"
    "\<forall>i < length [0..<head_dim config]. ?e ([0..<head_dim config] ! i) = Some (ho ! i)
      \<and> ?P ([0..<head_dim config] ! i) (ho ! i)"
    using those_map_exists [of "[0..<head_dim config]" ?e ?P, OF each] by blast
  have "llama_head_out config weights ?all =
      map_option (\<lambda>ys. [] @ ys) (those (map ?e [0..<head_dim config]))"
    unfolding llama_head_out_def by (rule foldlM_push) (auto split: bind_splits)
  then have "llama_head_out config weights ?all = Some ho"
    using ho(1) by simp
  then show ?thesis
    using ho(2,3) by auto
qed

lemma llama_head_Some:
  assumes ok: "llama_config_ok config" and h: "h < n_head config"
    and q: "length q_heads = n_head config" "length (q_heads ! h) = head_dim config"
    and ks: "ks \<noteq> []" "\<And>e. e \<in> set ks \<Longrightarrow> heads_entry config e"
    and vs: "length vs = length ks" "\<And>e. e \<in> set vs \<Longrightarrow> heads_entry config e"
  shows "\<exists>logits weights ho.
      llama_logits config (q_heads ! h) (map (kv_head config h) ks) = Some logits
    \<and> length logits = length ks
    \<and> (\<forall>t < length ks.
          scaled_dot (head_dim config) (q_heads ! h) (ks ! t ! nat (kv_head_idx config h))
            = Some (logits ! t))
    \<and> softmax logits = Some weights
    \<and> llama_head config q_heads ks vs x_attn h = Some (x_attn @ ho)
    \<and> length ho = head_dim config
    \<and> (\<forall>j < head_dim config. data (ho ! j) =
          (\<Sum>t\<leftarrow>[0..<length ks]. data (weights ! t) * data (vs ! t ! nat (kv_head_idx config h) ! j)))"
proof -
  obtain logits where lg: "llama_logits config (q_heads ! h) (map (kv_head config h) ks) = Some logits"
    "length logits = length ks"
    "\<forall>t < length ks.
      scaled_dot (head_dim config) (q_heads ! h) (ks ! t ! nat (kv_head_idx config h)) = Some (logits ! t)"
    using llama_logits_Some [OF ok h q(2) ks(2)] by blast
  have "logits \<noteq> []" using lg(2) ks(1) by auto
  then obtain weights where w: "softmax logits = Some weights" "length weights = length logits"
    using softmax_Some by blast
  have wl: "length weights = length vs"
    using w(2) lg(2) vs(1) by simp
  obtain ho where ho: "llama_head_out config weights (map (kv_head config h) vs) = Some ho"
    "length ho = head_dim config"
    "\<forall>j < head_dim config. data (ho ! j) =
      (\<Sum>t\<leftarrow>[0..<length vs]. data (weights ! t) * data (vs ! t ! nat (kv_head_idx config h) ! j))"
    using llama_head_out_Some [OF ok h wl vs(2)] by blast
  have "llama_head config q_heads ks vs x_attn h = Some (x_attn @ ho)"
    using h q(1) lg(1) w(1) ho(1) by (simp add: llama_head_def idx_def)
  then show ?thesis
    using lg w(1) ho(2,3) vs(1) by auto
qed

lemma slice_head_length:
  assumes "h < n" "n * d \<le> length x"
  shows "length (slice x (h * d) (h * d + d)) = d"
proof -
  have "Suc h * d \<le> n * d"
    using assms(1) by (intro mult_le_mono1) simp
  then have "h * d + d \<le> length x"
    using assms(2) by simp
  then show ?thesis
    by (simp add: length_slice)
qed

lemma split_heads_rope:
  assumes "0 < d" "even d" "n * d \<le> length x"
  shows "\<exists>heads. split_heads n d (\<lambda>v. apply_rope v pos d) x = Some heads \<and> length heads = n
    \<and> (\<forall>h < n. apply_rope (slice x (h * d) (h * d + d)) pos d = Some (heads ! h)
          \<and> length (heads ! h) = d)"
proof (rule split_heads_Some)
  fix h assume h: "h < n"
  have "length (slice x (h * d) (h * d + d)) = d"
    using h assms(3) by (rule slice_head_length)
  moreover have "2 * (d div 2) = d"
    using assms(2) by simp
  ultimately show "\<exists>r. apply_rope (slice x (h * d) (h * d + d)) pos d = Some r \<and> length r = d"
    using apply_rope_Some [of d "slice x (h * d) (h * d + d)" pos] by simp
qed

lemma split_heads_plain:
  assumes "n * d \<le> length x"
  shows "\<exists>heads. split_heads n d Some x = Some heads \<and> length heads = n
    \<and> (\<forall>h < n. heads ! h = slice x (h * d) (h * d + d) \<and> length (heads ! h) = d)"
proof -
  have "\<exists>heads. split_heads n d Some x = Some heads \<and> length heads = n
    \<and> (\<forall>h < n. Some (slice x (h * d) (h * d + d)) = Some (heads ! h) \<and> length (heads ! h) = d)"
  proof (rule split_heads_Some)
    fix h assume "h < n"
    then show "\<exists>r. Some (slice x (h * d) (h * d + d)) = Some r \<and> length r = d"
      using assms by (simp add: slice_head_length)
  qed
  then show ?thesis by auto
qed

lemma heads_entryI:
  assumes "length e = n_kv_head config" "\<forall>h < n_kv_head config. length (e ! h) = head_dim config"
  shows "heads_entry config e"
  using assms by (auto simp: heads_entry_def in_set_conv_nth)

lemma llama_layer_Some:
  assumes ok: "llama_config_ok config" and st: "llama_state_ok config vocab state"
    and li: "li < n_layer config" and x: "length x = n_embd config"
    and keys: "li < length keys" "\<And>e. e \<in> set (keys ! li) \<Longrightarrow> heads_entry config e"
    and vals: "li < length values" "\<And>e. e \<in> set (values ! li) \<Longrightarrow> heads_entry config e"
      "length (values ! li) = length (keys ! li)"
  shows "\<exists>x' k_heads v_heads. llama_layer config state posId (x, keys, values) li =
        Some (x', keys[li := keys ! li @ [k_heads]], values[li := values ! li @ [v_heads]])
    \<and> length x' = n_embd config \<and> heads_entry config k_heads \<and> heads_entry config v_heads"
proof -
  let ?n = "n_embd config" and ?d = "head_dim config"
  have cfg: "0 < ?d" "even ?d" "n_head config * ?d = ?n"
    using ok by (auto simp: llama_config_ok_def)
  have "0 < n_head config"
    using ok by (auto simp: llama_config_ok_def)
  then have "0 < n_head config * ?d"
    using cfg(1) by simp
  then have npos: "0 < ?n"
    using cfg(3) by simp
  have mats: "has_mat state (layer_key li ''attn_wq'') ?n ?n"
    "has_mat state (layer_key li ''attn_wk'') (n_kv_head config * ?d) ?n"
    "has_mat state (layer_key li ''attn_wv'') (n_kv_head config * ?d) ?n"
    "has_mat state (layer_key li ''attn_wo'') ?n ?n"
    "has_mat state (layer_key li ''ffn_gate'') (4 * ?n) ?n"
    "has_mat state (layer_key li ''ffn_up'') (4 * ?n) ?n"
    "has_mat state (layer_key li ''ffn_down'') ?n (4 * ?n)"
    using st li by (simp_all add: llama_state_ok_def)
  have "x \<noteq> []" using x npos by auto
  then obtain xn where xn: "rmsnorm x = Some xn" "length xn = ?n"
    using rmsnorm_Some x by metis
  obtain wq q where q: "state (layer_key li ''attn_wq'') = Some wq" "linear_v xn wq = Some q"
      "length q = ?n"
    using linear_has_mat [OF mats(1), of xn] xn(2) by auto
  obtain wk k where k: "state (layer_key li ''attn_wk'') = Some wk" "linear_v xn wk = Some k"
      "length k = n_kv_head config * ?d"
    using linear_has_mat [OF mats(2), of xn] xn(2) by auto
  obtain wv v where v: "state (layer_key li ''attn_wv'') = Some wv" "linear_v xn wv = Some v"
      "length v = n_kv_head config * ?d"
    using linear_has_mat [OF mats(3), of xn] xn(2) by auto
  obtain q_heads where qh: "split_heads (n_head config) ?d (\<lambda>q_h. apply_rope q_h posId ?d) q
      = Some q_heads" "length q_heads = n_head config"
      "\<forall>h < n_head config. length (q_heads ! h) = ?d"
    using split_heads_rope [OF cfg(1,2), of "n_head config" q posId] q(3) cfg(3) by auto
  obtain k_heads where kh: "split_heads (n_kv_head config) ?d (\<lambda>k_h. apply_rope k_h posId ?d) k
      = Some k_heads" "length k_heads = n_kv_head config"
      "\<forall>h < n_kv_head config. length (k_heads ! h) = ?d"
    using split_heads_rope [OF cfg(1,2), of "n_kv_head config" k posId] k(3) by auto
  obtain v_heads where vh: "split_heads (n_kv_head config) ?d Some v = Some v_heads"
      "length v_heads = n_kv_head config" "\<forall>h < n_kv_head config. length (v_heads ! h) = ?d"
    using split_heads_plain [of "n_kv_head config" ?d v] v(3) by auto
  have ke: "heads_entry config k_heads" and ve: "heads_entry config v_heads"
    using kh(2,3) vh(2,3) by (auto intro: heads_entryI)
  let ?keys = "keys[li := keys ! li @ [k_heads]]"
  let ?vals = "values[li := values ! li @ [v_heads]]"
  let ?ks = "keys ! li @ [k_heads]"
  let ?vs = "values ! li @ [v_heads]"
  have push: "push_at keys li k_heads = Some ?keys" "push_at values li v_heads = Some ?vals"
    "idx ?keys li = Some ?ks" "idx ?vals li = Some ?vs"
    using keys(1) vals(1) by (simp_all add: push_at_def idx_def)
  have ksok: "heads_entry config e" if "e \<in> set ?ks" for e
    using that ke keys(2) by auto
  have vsok: "heads_entry config e" if "e \<in> set ?vs" for e
    using that ve vals(2) by auto
  have heads: "\<exists>acc'. llama_head config q_heads ?ks ?vs acc h = Some acc'
      \<and> length acc' = Suc h * ?d"
    if h: "h < n_head config" and acc: "length acc = h * ?d" for h acc
  proof -
    have "?ks \<noteq> []" "length ?vs = length ?ks"
      using vals(3) by simp_all
    moreover have "length (q_heads ! h) = ?d"
      using qh(3) h by simp
    ultimately obtain ho where "llama_head config q_heads ?ks ?vs acc h = Some (acc @ ho)"
      "length ho = ?d"
      using llama_head_Some [OF ok h qh(2) _ _ ksok _ vsok, where x_attn = acc] by blast
    then show ?thesis using acc by simp
  qed
  obtain x_attn where xa: "foldlM (llama_head config q_heads ?ks ?vs) [] [0..<n_head config]
      = Some x_attn" "length x_attn = n_head config * ?d"
    using foldlM_upt_inv [of "\<lambda>i acc. length acc = i * ?d" "[]" "n_head config"
      "llama_head config q_heads ?ks ?vs"] heads by auto
  obtain wo x1 where x1: "state (layer_key li ''attn_wo'') = Some wo" "linear_v x_attn wo = Some x1"
      "length x1 = ?n"
    using linear_has_mat [OF mats(4), of x_attn] xa(2) cfg(3) by auto
  obtain x2 where x2: "add_residual x1 x = Some x2" "length x2 = ?n"
    using add_residual_Some [of x1 x] x1(3) x by simp
  have "x2 \<noteq> []" using x2(2) npos by auto
  then obtain x3 where x3: "rmsnorm x2 = Some x3" "length x3 = ?n"
    using rmsnorm_Some x2(2) by metis
  obtain w_gate gate where g: "state (layer_key li ''ffn_gate'') = Some w_gate"
      "linear_v x3 w_gate = Some gate" "length gate = 4 * ?n"
    using linear_has_mat [OF mats(5), of x3] x3(2) by auto
  obtain w_up up where u: "state (layer_key li ''ffn_up'') = Some w_up"
      "linear_v x3 w_up = Some up" "length up = 4 * ?n"
    using linear_has_mat [OF mats(6), of x3] x3(2) by auto
  obtain swiglu where sw: "swiglu_of gate up = Some swiglu" "length swiglu = 4 * ?n"
    using swiglu_of_Some [of gate up] g(3) u(3) by simp
  obtain w_down x4 where x4: "state (layer_key li ''ffn_down'') = Some w_down"
      "linear_v swiglu w_down = Some x4" "length x4 = ?n"
    using linear_has_mat [OF mats(7), of swiglu] sw(2) by auto
  obtain x5 where x5: "add_residual x4 x2 = Some x5" "length x5 = ?n"
    using add_residual_Some [of x4 x2] x4(3) x2(2) by simp
  have "llama_layer config state posId (x, keys, values) li = Some (x5, ?keys, ?vals)"
    using xn(1) q(1,2) k(1,2) v(1,2) qh(1) kh(1) vh(1) push xa(1) x1(1,2) x2(1) x3(1)
      g(1,2) u(1,2) sw(1) x4(1,2) x5(1)
    by (simp add: llama_layer_def)
  then show ?thesis
    using x5(2) ke ve by blast
qed


lemma llama_forward_Some:
  assumes ok: "llama_config_ok config" and st: "llama_state_ok config vocab state"
    and tok: "tokenId < vocab"
    and keys: "cache_ok (heads_entry config) (n_layer config) k keys"
    and vals: "cache_ok (heads_entry config) (n_layer config) k values"
  shows "\<exists>logits keys' values'.
      llama_forward config state tokenId posId keys values = Some (logits, keys', values')
    \<and> length logits = vocab
    \<and> appended_below (heads_entry config) (n_layer config) keys keys'
    \<and> appended_below (heads_entry config) (n_layer config) values values'"
proof -
  let ?n = "n_embd config" and ?L = "n_layer config"
  have "0 < n_head config" "0 < head_dim config" "n_head config * head_dim config = ?n"
    using ok by (auto simp: llama_config_ok_def)
  then have npos: "0 < ?n"
    by (metis mult_pos_pos)
  obtain wte where wte: "state ''wte'' = Some wte" "mat vocab ?n wte"
    using st by (auto simp: llama_state_ok_def elim: has_matD)
  have row: "idx wte tokenId = Some (wte ! tokenId)" "length (wte ! tokenId) = ?n"
    using wte(2) tok by (simp_all add: mat_def idx_def)
  have "wte ! tokenId \<noteq> []" using row(2) npos by auto
  then obtain x1 where x1: "rmsnorm (wte ! tokenId) = Some x1" "length x1 = ?n"
    using rmsnorm_Some row(2) by metis
  let ?P = "heads_entry config"
  let ?I = "\<lambda>i (x, ks, vs). length x = ?n \<and> appended_below ?P i keys ks
    \<and> appended_below ?P i values vs"
  have lk: "length keys = ?L" "length values = ?L"
    using keys vals by (simp_all add: cache_ok_def)
  have step: "\<exists>s'. llama_layer config state posId s i = Some s' \<and> ?I (Suc i) s'"
    if i: "i < ?L" and inv: "?I i s" for i s
  proof -
    obtain x ks vs where s: "s = (x, ks, vs)" by (cases s)
    with inv have x: "length x = ?n" and ab: "appended_below ?P i keys ks"
      "appended_below ?P i values vs" by auto
    have same: "ks ! i = keys ! i" "vs ! i = values ! i" "i < length ks" "i < length vs"
      using ab i lk by (auto simp: appended_below_def)
    have okc: "\<And>e. e \<in> set (ks ! i) \<Longrightarrow> ?P e" "\<And>e. e \<in> set (vs ! i) \<Longrightarrow> ?P e"
      "length (vs ! i) = length (ks ! i)"
      using keys vals i same by (auto simp: cache_ok_def)
    obtain x' k' v' where "llama_layer config state posId (x, ks, vs) i =
        Some (x', ks[i := ks ! i @ [k']], vs[i := vs ! i @ [v']])"
      "length x' = ?n" "?P k'" "?P v'"
      using llama_layer_Some [OF ok st i x same(3) okc(1) same(4) okc(2) okc(3)] by blast
    moreover have "appended_below ?P (Suc i) keys (ks[i := ks ! i @ [k']])"
      using ab(1) i lk \<open>?P k'\<close> by (intro appended_below_push) simp_all
    moreover have "appended_below ?P (Suc i) values (vs[i := vs ! i @ [v']])"
      using ab(2) i lk \<open>?P v'\<close> by (intro appended_below_push) simp_all
    ultimately show ?thesis
      by (simp add: s)
  qed
  have "?I 0 (x1, keys, values)"
    using x1(2) by (simp add: appended_below_0)
  then obtain s' where s': "foldlM (llama_layer config state posId) (x1, keys, values) [0..<?L]
      = Some s'" "?I ?L s'"
    using foldlM_upt_inv [of ?I "(x1, keys, values)" ?L "llama_layer config state posId"] step
    by blast
  obtain x2 keys' values' where s'eq: "s' = (x2, keys', values')" by (cases s')
  have "x2 \<noteq> []" using s'(2) npos by (auto simp: s'eq)
  then obtain x3 where x3: "rmsnorm x2 = Some x3" "length x3 = ?n"
    using rmsnorm_Some [of x2] s'(2) by (auto simp: s'eq)
  obtain lm where lm: "state ''lm_head'' = Some lm" "mat vocab ?n lm"
    using st by (auto simp: llama_state_ok_def elim: has_matD)
  have "linear_v x3 lm = Some (lin x3 lm)"
    using lm(2) x3(2) by (intro linear_v_mat [of vocab ?n]) simp_all
  then have "llama_forward config state tokenId posId keys values = Some (lin x3 lm, keys', values')"
    using wte(1) row(1) x1(1) s'(1) x3(1) lm(1) by (simp add: llama_forward_def s'eq)
  moreover have "length (lin x3 lm) = vocab"
    using lm(2) by (simp add: mat_def)
  ultimately show ?thesis
    using s'(2) by (auto simp: s'eq)
qed

section \<open>The forward pass of Variant C returns\<close>

lemma data_sub [simp]: "data (sub a b) = data a - data (wrap b)"
  by (cases b) (simp_all add: sub_def neg_def)

lemma take_two_more:
  assumes "2 * m + 1 < length xs"
  shows "take (2 * Suc m) xs = take (2 * m) xs @ [xs ! (2 * m), xs ! (2 * m + 1)]"
proof -
  have "take (Suc (Suc (2 * m))) xs = take (Suc (2 * m)) xs @ [xs ! Suc (2 * m)]"
    using assms by (intro take_Suc_conv_app_nth) simp
  also have "take (Suc (2 * m)) xs = take (2 * m) xs @ [xs ! (2 * m)]"
    using assms by (intro take_Suc_conv_app_nth) simp
  finally show ?thesis by simp
qed

lemma apply_rope_zero:
  assumes "2 * (d div 2) \<le> length x"
  shows "\<exists>y. apply_rope x 0 d = Some y \<and> length y = 2 * (d div 2)
    \<and> map data y = map data (take (2 * (d div 2)) x)"
proof -
  let ?pair = "\<lambda>i. [sub (mul (x ! (2 * i)) (N (cos (10000 powr (- (2 * real i) / real d) * real 0))))
        (V (mul (x ! (2 * i + 1)) (N (sin (10000 powr (- (2 * real i) / real d) * real 0))))),
      add (mul (x ! (2 * i)) (N (sin (10000 powr (- (2 * real i) / real d) * real 0))))
        (V (mul (x ! (2 * i + 1)) (N (cos (10000 powr (- (2 * real i) / real d) * real 0)))))]"
  have "those (map (\<lambda>i. do {
       a \<leftarrow> idx x (2 * i);
       b \<leftarrow> idx x (2 * i + 1);
       let theta = 10000 powr (- (2 * real i) / real d);
       let c = cos (theta * real 0);
       let s = sin (theta * real 0);
       Some [sub (mul a (N c)) (V (mul b (N s))), add (mul a (N s)) (V (mul b (N c)))]
     }) [0..<d div 2]) = Some (map ?pair [0..<d div 2])"
  proof (rule those_map_Some)
    fix i assume "i \<in> set [0..<d div 2]"
    then have "2 * i + 1 < length x"
      using assms by simp
    then show "do {
       a \<leftarrow> idx x (2 * i);
       b \<leftarrow> idx x (2 * i + 1);
       let theta = 10000 powr (- (2 * real i) / real d);
       let c = cos (theta * real 0);
       let s = sin (theta * real 0);
       Some [sub (mul a (N c)) (V (mul b (N s))), add (mul a (N s)) (V (mul b (N c)))]
     } = Some (?pair i)"
      by (simp add: idx_def Let_def)
  qed
  then have y: "apply_rope x 0 d = Some (concat (map ?pair [0..<d div 2]))"
    by (simp add: apply_rope_def)
  have "2 * n \<le> length x \<Longrightarrow> length (concat (map ?pair [0..<n])) = 2 * n
      \<and> map data (concat (map ?pair [0..<n])) = map data (take (2 * n) x)" for n
  proof (induction n)
    case 0
    then show ?case by simp
  next
    case (Suc n)
    then have "2 * n + 1 < length x" by simp
    then have "take (2 * Suc n) x = take (2 * n) x @ [x ! (2 * n), x ! (2 * n + 1)]"
      by (rule take_two_more)
    then show ?case
      using Suc by simp
  qed
  then show ?thesis
    using y assms by simp
qed

lemma sum_list_cong_nth:
  assumes "\<And>j. j < n \<Longrightarrow> f j = g j"
  shows "(\<Sum>j\<leftarrow>[0..<n]. f j) = (\<Sum>j\<leftarrow>[0..<n]. g j)"
  by (intro arg_cong [where f = sum_list] map_cong refl) (use assms in simp)

lemma deepseek_logits_Some:
  assumes ok: "deepseek_config_ok config"
    and wkv: "state (layer_key li ''attn_wkv'') = Some wkv" "mat (n_embd config) (latent_dim config) wkv"
    and q: "length q_h = head_dim config"
    and cache: "\<And>e. e \<in> set cache \<Longrightarrow> length e = latent_dim config"
  shows "\<exists>logits. deepseek_logits config state li q_h cache = Some logits
    \<and> length logits = length cache
    \<and> (\<forall>t < length cache. \<exists>k_rope.
          linear_v (cache ! t) wkv = Some (lin (cache ! t) wkv)
          \<and> apply_rope (slice (lin (cache ! t) wkv) 0 (head_dim config)) 0 (head_dim config)
              = Some k_rope
          \<and> map data k_rope = map data (take (head_dim config) (lin (cache ! t) wkv))
          \<and> scaled_dot (head_dim config) q_h k_rope = Some (logits ! t)
          \<and> data (logits ! t) =
              (\<Sum>j\<leftarrow>[0..<head_dim config]. data (q_h ! j) * data (lin (cache ! t) wkv ! j))
              / sqrt (real (head_dim config)))"
proof -
  let ?d = "head_dim config"
  have cfg: "0 < ?d" "even ?d" "?d \<le> n_embd config"
    using ok by (auto simp: deepseek_config_ok_def)
  let ?e = "\<lambda>t. do {
       latent \<leftarrow> idx cache t;
       wkv \<leftarrow> state (layer_key li ''attn_wkv'');
       kv_full \<leftarrow> linear_v latent wkv;
       let k = slice kv_full 0 ?d;
       k_rope \<leftarrow> apply_rope k 0 ?d;
       scaled_dot ?d q_h k_rope
     }"
  let ?P = "\<lambda>t l. \<exists>k_rope.
      linear_v (cache ! t) wkv = Some (lin (cache ! t) wkv)
    \<and> apply_rope (slice (lin (cache ! t) wkv) 0 ?d) 0 ?d = Some k_rope
    \<and> map data k_rope = map data (take ?d (lin (cache ! t) wkv))
    \<and> scaled_dot ?d q_h k_rope = Some l
    \<and> data l = (\<Sum>j\<leftarrow>[0..<?d]. data (q_h ! j) * data (lin (cache ! t) wkv ! j)) / sqrt (real ?d)"
  have each: "\<exists>l. ?e t = Some l \<and> ?P t l" if "t \<in> set [0..<length cache]" for t
  proof -
    have t: "t < length cache" using that by simp
    then have "length (cache ! t) = latent_dim config" using cache by simp
    then have kv: "linear_v (cache ! t) wkv = Some (lin (cache ! t) wkv)"
      using wkv(2) by (intro linear_v_mat [of "n_embd config" "latent_dim config"]) simp_all
    let ?kv = "lin (cache ! t) wkv"
    have lkv: "length ?kv = n_embd config"
      using wkv(2) by (simp add: mat_def)
    have sl: "slice ?kv 0 ?d = take ?d ?kv"
      by (simp add: slice_def)
    have lk: "length (take ?d ?kv) = ?d"
      using lkv cfg(3) by simp
    have two: "2 * (?d div 2) = ?d"
      using cfg(2) by simp
    have pre: "2 * (?d div 2) \<le> length (take ?d ?kv)"
      using lk two by simp
    obtain k_rope where kr0: "apply_rope (take ?d ?kv) 0 ?d = Some k_rope"
      "length k_rope = 2 * (?d div 2)"
      "map data k_rope = map data (take (2 * (?d div 2)) (take ?d ?kv))"
      using apply_rope_zero [OF pre] by blast
    have kr: "apply_rope (take ?d ?kv) 0 ?d = Some k_rope" "length k_rope = ?d"
      "map data k_rope = map data (take ?d ?kv)"
      using kr0 two by simp_all
    obtain l where l: "scaled_dot ?d q_h k_rope = Some l"
      "data l = (\<Sum>j\<leftarrow>[0..<?d]. data (q_h ! j) * data (k_rope ! j)) / sqrt (real ?d)"
      using scaled_dot_Some [of ?d q_h k_rope] cfg(1) q kr(2) by auto
    have "data (k_rope ! j) = data (?kv ! j)" if "j < ?d" for j
    proof -
      have "data (k_rope ! j) = map data k_rope ! j"
        using that kr(2) by simp
      also have "\<dots> = data (?kv ! j)"
        using that lk by (simp add: kr(3))
      finally show ?thesis .
    qed
    then have "(\<Sum>j\<leftarrow>[0..<?d]. data (q_h ! j) * data (k_rope ! j)) =
        (\<Sum>j\<leftarrow>[0..<?d]. data (q_h ! j) * data (?kv ! j))"
      by (intro sum_list_cong_nth) simp
    then have "?P t l"
      using kv kr(1,3) l by (auto simp: sl)
    moreover have "?e t = Some l"
      using t wkv(1) kv kr(1) l(1) by (simp add: idx_def sl)
    ultimately show ?thesis by blast
  qed
  obtain logits where l: "those (map ?e [0..<length cache]) = Some logits"
    "length logits = length [0..<length cache]"
    "\<forall>i < length [0..<length cache]. ?e ([0..<length cache] ! i) = Some (logits ! i)
      \<and> ?P ([0..<length cache] ! i) (logits ! i)"
    using those_map_exists [of "[0..<length cache]" ?e ?P, OF each] by blast
  have "deepseek_logits config state li q_h cache =
      map_option (\<lambda>ys. [] @ ys) (those (map ?e [0..<length cache]))"
    unfolding deepseek_logits_def by (rule foldlM_push) (auto simp: Let_def split: bind_splits)
  then have "deepseek_logits config state li q_h cache = Some logits"
    using l(1) by simp
  then show ?thesis
    using l(2,3) by auto
qed

lemma accumulate_row:
  assumes len: "length out = n"
    and step: "\<And>ov j. j < n \<Longrightarrow> length ov = n \<Longrightarrow>
      f ov j = Some (ov[j := add (ov ! j) (V (mul w (V (c j))))])"
  shows "\<exists>out'. foldlM f out [0..<n] = Some out' \<and> length out' = n
    \<and> (\<forall>j < n. data (out' ! j) = data (out ! j) + data w * data (c j))"
proof -
  let ?I = "\<lambda>i ov. length ov = n
    \<and> (\<forall>j < n. data (ov ! j) = data (out ! j) + (if j < i then data w * data (c j) else 0))"
  have "?I 0 out" using len by simp
  moreover have "\<exists>ov'. f ov i = Some ov' \<and> ?I (Suc i) ov'" if "i < n" "?I i ov" for i ov
  proof -
    have "f ov i = Some (ov[i := add (ov ! i) (V (mul w (V (c i))))])"
      using step that by simp
    moreover have "?I (Suc i) (ov[i := add (ov ! i) (V (mul w (V (c i))))])"
      using that by (auto simp: nth_list_update less_Suc_eq)
    ultimately show ?thesis by blast
  qed
  ultimately obtain out' where "foldlM f out [0..<n] = Some out'" "?I n out'"
    using foldlM_upt_inv [of ?I out n f] by blast
  then show ?thesis by auto
qed

lemma accumulate_rows:
  assumes rows: "\<And>ov a. a < m \<Longrightarrow> length ov = n \<Longrightarrow>
      \<exists>ov'. f ov a = Some ov' \<and> length ov' = n
        \<and> (\<forall>j < n. data (ov' ! j) = data (ov ! j) + data (w a) * data (c a j))"
  shows "\<exists>out. foldlM f (replicate n (Value 0 [] [])) [0..<m] = Some out \<and> length out = n
    \<and> (\<forall>j < n. data (out ! j) = (\<Sum>a\<leftarrow>[0..<m]. data (w a) * data (c a j)))"
proof -
  let ?I = "\<lambda>i ov. length ov = n
    \<and> (\<forall>j < n. data (ov ! j) = (\<Sum>a\<leftarrow>[0..<i]. data (w a) * data (c a j)))"
  have "?I 0 (replicate n (Value 0 [] []))" by simp
  moreover have "\<exists>ov'. f ov i = Some ov' \<and> ?I (Suc i) ov'"
    if i: "i < m" and inv: "?I i ov" for i ov
  proof -
    obtain ov' where "f ov i = Some ov'" "length ov' = n"
      "\<forall>j < n. data (ov' ! j) = data (ov ! j) + data (w i) * data (c i j)"
      using rows [of i ov] i inv by blast
    then show ?thesis using inv by auto
  qed
  ultimately obtain out where "foldlM f (replicate n (Value 0 [] [])) [0..<m] = Some out" "?I m out"
    using foldlM_upt_inv [of ?I "replicate n (Value 0 [] [])" m f] by blast
  then show ?thesis by auto
qed

lemma deepseek_head_out_Some:
  assumes ok: "deepseek_config_ok config"
    and wkv: "state (layer_key li ''attn_wkv'') = Some wkv" "mat (n_embd config) (latent_dim config) wkv"
    and w: "length weights = length cache"
    and cache: "\<And>e. e \<in> set cache \<Longrightarrow> length e = latent_dim config"
  shows "\<exists>ho. deepseek_head_out config state li weights cache = Some ho
    \<and> length ho = head_dim config
    \<and> (\<forall>j < head_dim config. data (ho ! j) =
          (\<Sum>t\<leftarrow>[0..<length cache]. data (weights ! t)
             * data (slice (lin (cache ! t) wkv) (head_dim config) (head_dim config * 2) ! j)))"
proof -
  let ?d = "head_dim config"
  let ?v = "\<lambda>t. slice (lin (cache ! t) wkv) ?d (?d * 2)"
  have cfg: "2 * ?d \<le> n_embd config"
    using ok by (auto simp: deepseek_config_ok_def)
  have row: "\<exists>ov'. (do {
       latent \<leftarrow> idx cache t;
       wkv \<leftarrow> state (layer_key li ''attn_wkv'');
       kv_full \<leftarrow> linear_v latent wkv;
       let v = slice kv_full ?d (?d * 2);
       foldlM (\<lambda>head_out j. do {
         acc \<leftarrow> idx head_out j;
         w \<leftarrow> idx weights t;
         vj \<leftarrow> idx v j;
         Some (head_out[j := add acc (V (mul w (V vj)))])
       }) head_out [0..<?d]
     }) = Some ov' \<and> length ov' = ?d
     \<and> (\<forall>j < ?d. data (ov' ! j) = data (head_out ! j) + data (weights ! t) * data (?v t ! j))"
    if t: "t < length weights" and ho: "length head_out = ?d" for head_out t
  proof -
    have tc: "t < length cache" using t w by simp
    then have ic: "idx cache t = Some (cache ! t)" by (simp add: idx_def)
    have "length (cache ! t) = latent_dim config" using tc cache by simp
    then have kv: "linear_v (cache ! t) wkv = Some (lin (cache ! t) wkv)"
      using wkv(2) by (intro linear_v_mat [of "n_embd config" "latent_dim config"]) simp_all
    have "length (lin (cache ! t) wkv) = n_embd config"
      using wkv(2) by (simp add: mat_def)
    then have lv: "length (?v t) = ?d"
      using cfg by (simp add: length_slice)
    have "\<exists>out'. foldlM (\<lambda>head_out j. do {
         acc \<leftarrow> idx head_out j;
         w \<leftarrow> idx weights t;
         vj \<leftarrow> idx (?v t) j;
         Some (head_out[j := add acc (V (mul w (V vj)))])
       }) head_out [0..<?d] = Some out' \<and> length out' = ?d
       \<and> (\<forall>j < ?d. data (out' ! j) = data (head_out ! j) + data (weights ! t) * data (?v t ! j))"
      using ho t lv by (intro accumulate_row) (simp_all add: idx_def)
    then show ?thesis
      using ic wkv(1) kv by (simp add: Let_def)
  qed
  show ?thesis
    unfolding deepseek_head_out_def w [symmetric]
    by (rule accumulate_rows [where w = "\<lambda>t. weights ! t" and c = "\<lambda>t j. ?v t ! j"]) (rule row)
qed

lemma deepseek_head_Some:
  assumes ok: "deepseek_config_ok config"
    and wkv: "state (layer_key li ''attn_wkv'') = Some wkv" "mat (n_embd config) (latent_dim config) wkv"
    and h: "h < length q_heads" and q: "length (q_heads ! h) = head_dim config"
    and cache: "cache \<noteq> []" "\<And>e. e \<in> set cache \<Longrightarrow> length e = latent_dim config"
  shows "\<exists>logits weights ho.
      deepseek_logits config state li (q_heads ! h) cache = Some logits
    \<and> softmax logits = Some weights \<and> length weights = length cache
    \<and> deepseek_head_out config state li weights cache = Some ho
    \<and> deepseek_head config state li q_heads cache x_attn h = Some (x_attn @ ho)
    \<and> length ho = head_dim config"
proof -
  obtain logits where lg: "deepseek_logits config state li (q_heads ! h) cache = Some logits"
    "length logits = length cache"
    using deepseek_logits_Some [of config state li wkv "q_heads ! h" cache, OF ok wkv q cache(2)]
    by blast
  have "logits \<noteq> []" using lg(2) cache(1) by auto
  then obtain weights where w: "softmax logits = Some weights" "length weights = length logits"
    using softmax_Some by blast
  have wl: "length weights = length cache" using w(2) lg(2) by simp
  obtain ho where ho: "deepseek_head_out config state li weights cache = Some ho"
    "length ho = head_dim config"
    using deepseek_head_out_Some [of config state li wkv weights cache, OF ok wkv wl cache(2)]
    by blast
  have "deepseek_head config state li q_heads cache x_attn h = Some (x_attn @ ho)"
    using h lg(1) w(1) ho(1) by (simp add: deepseek_head_def idx_def)
  then show ?thesis
    using lg(1) w(1) wl ho by blast
qed

lemma deepseek_experts_Some:
  assumes ok: "deepseek_layer_ok config state li" and x: "length x = n_embd config"
  shows "\<exists>outs. deepseek_experts config state li x = Some outs
    \<and> length outs = n_experts config
    \<and> (\<forall>e < n_experts config. length (outs ! e) = n_embd config
          \<and> (\<exists>w_gate w_up w_down.
                state (expert_key li e ''gate'') = Some w_gate
              \<and> state (expert_key li e ''up'') = Some w_up
              \<and> state (expert_key li e ''down'') = Some w_down
              \<and> outs ! e =
                  lin (map (\<lambda>i. mul (silu (lin x w_gate ! i)) (V (lin x w_up ! i)))
                    [0..<4 * n_embd config]) w_down))"
proof -
  let ?n = "n_embd config"
  let ?f = "\<lambda>e. do {
       w_gate \<leftarrow> state (expert_key li e ''gate'');
       gate \<leftarrow> linear_v x w_gate;
       w_up \<leftarrow> state (expert_key li e ''up'');
       up \<leftarrow> linear_v x w_up;
       swiglu \<leftarrow> swiglu_of gate up;
       w_down \<leftarrow> state (expert_key li e ''down'');
       linear_v swiglu w_down
     }"
  let ?P = "\<lambda>e out. length out = ?n
    \<and> (\<exists>w_gate w_up w_down.
          state (expert_key li e ''gate'') = Some w_gate
        \<and> state (expert_key li e ''up'') = Some w_up
        \<and> state (expert_key li e ''down'') = Some w_down
        \<and> out = lin (map (\<lambda>i. mul (silu (lin x w_gate ! i)) (V (lin x w_up ! i)))
            [0..<4 * ?n]) w_down)"
  have each: "\<exists>out. ?f e = Some out \<and> ?P e out" if "e \<in> set [0..<n_experts config]" for e
  proof -
    have e: "e < n_experts config" using that by simp
    obtain wg where wg: "state (expert_key li e ''gate'') = Some wg" "mat (4 * ?n) ?n wg"
      using ok e by (auto simp: deepseek_layer_ok_def elim: has_matD)
    obtain wu where wu: "state (expert_key li e ''up'') = Some wu" "mat (4 * ?n) ?n wu"
      using ok e by (auto simp: deepseek_layer_ok_def elim: has_matD)
    obtain wd where wd: "state (expert_key li e ''down'') = Some wd" "mat ?n (4 * ?n) wd"
      using ok e by (auto simp: deepseek_layer_ok_def elim: has_matD)
    have g: "linear_v x wg = Some (lin x wg)" and u: "linear_v x wu = Some (lin x wu)"
      using wg(2) wu(2) x by (auto intro: linear_v_mat)
    have lg: "length (lin x wg) = 4 * ?n" and lu: "length (lin x wu) = 4 * ?n"
      using wg(2) wu(2) by (simp_all add: mat_def)
    let ?sw = "map (\<lambda>i. mul (silu (lin x wg ! i)) (V (lin x wu ! i))) [0..<4 * ?n]"
    have sw: "swiglu_of (lin x wg) (lin x wu) = Some ?sw"
      using swiglu_of_Some [of "lin x wg" "lin x wu"] lg lu by simp
    have d: "linear_v ?sw wd = Some (lin ?sw wd)"
      using wd(2) by (intro linear_v_mat [of ?n "4 * ?n"]) simp_all
    have "?f e = Some (lin ?sw wd)"
      using wg(1) wu(1) wd(1) g u sw d by simp
    moreover have "length (lin ?sw wd) = ?n"
      using wd(2) by (simp add: mat_def)
    ultimately show ?thesis
      using wg(1) wu(1) wd(1) by blast
  qed
  obtain outs where o: "those (map ?f [0..<n_experts config]) = Some outs"
    "length outs = length [0..<n_experts config]"
    "\<forall>i < length [0..<n_experts config]. ?f ([0..<n_experts config] ! i) = Some (outs ! i)
      \<and> ?P ([0..<n_experts config] ! i) (outs ! i)"
    using those_map_exists [of "[0..<n_experts config]" ?f ?P, OF each] by blast
  have "deepseek_experts config state li x =
      map_option (\<lambda>ys. [] @ ys) (those (map ?f [0..<n_experts config]))"
    unfolding deepseek_experts_def by (rule foldlM_push) (auto split: bind_splits)
  then have "deepseek_experts config state li x = Some outs"
    using o(1) by simp
  then show ?thesis
    using o(2,3) by auto
qed

lemma deepseek_mix_Some:
  assumes p: "length router_probs = n_experts config"
    and outs: "length expert_outputs = n_experts config"
      "\<And>e. e < n_experts config \<Longrightarrow> length (expert_outputs ! e) = n_embd config"
  shows "\<exists>output. deepseek_mix config router_probs expert_outputs = Some output
    \<and> length output = n_embd config
    \<and> (\<forall>j < n_embd config. data (output ! j) =
          (\<Sum>e\<leftarrow>[0..<n_experts config]. data (router_probs ! e) * data (expert_outputs ! e ! j)))"
  unfolding deepseek_mix_def
proof (rule accumulate_rows [where w = "\<lambda>e. router_probs ! e" and c = "\<lambda>e j. expert_outputs ! e ! j"])
  fix ov :: "Value list" and e
  assume e: "e < n_experts config" and ov: "length ov = n_embd config"
  show "\<exists>ov'. foldlM (\<lambda>output j. do {
         acc \<leftarrow> idx output j;
         p \<leftarrow> idx router_probs e;
         out \<leftarrow> idx expert_outputs e;
         oj \<leftarrow> idx out j;
         Some (output[j := add acc (V (mul p (V oj)))])
       }) ov [0..<n_embd config] = Some ov' \<and> length ov' = n_embd config
     \<and> (\<forall>j < n_embd config. data (ov' ! j) =
          data (ov ! j) + data (router_probs ! e) * data (expert_outputs ! e ! j))"
    using ov e p outs by (intro accumulate_row) (simp_all add: idx_def)
qed

lemma data_add_residual:
  assumes "add_residual x r = Some y" "i < length x"
  shows "data (y ! i) = data (x ! i) + data (r ! i)"
proof -
  from assms(1) have t: "those (imap (\<lambda>xi i. map_option (\<lambda>ri. add xi (V ri)) (idx r i)) x) = Some y"
    by (simp add: add_residual_def)
  have "imap (\<lambda>xi i. map_option (\<lambda>ri. add xi (V ri)) (idx r i)) x ! i = Some (y ! i)"
    using those_eq_Some_nth [OF t] assms(2) by simp
  then have "y ! i = add (x ! i) (V (r ! i))"
    using assms(2) by (auto simp: idx_def split: if_splits)
  then show ?thesis by simp
qed

lemma deepseek_moe_Some:
  assumes cfg: "deepseek_config_ok config" and ok: "deepseek_layer_ok config state li"
    and x: "length x = n_embd config"
  shows "\<exists>xn router probs outs y.
      rmsnorm x = Some xn
    \<and> state (layer_key li ''router'') = Some router
    \<and> softmax (lin xn router) = Some probs \<and> length probs = n_experts config
    \<and> deepseek_experts config state li xn = Some outs \<and> length outs = n_experts config
    \<and> deepseek_moe config state li x = Some y \<and> length y = n_embd config
    \<and> (\<forall>j < n_embd config. data (y ! j) =
          (\<Sum>e\<leftarrow>[0..<n_experts config]. data (probs ! e) * data (outs ! e ! j)) + data (x ! j))"
proof -
  let ?n = "n_embd config"
  have "0 < n_head config" "0 < head_dim config" "n_head config * head_dim config = ?n"
      and ne: "0 < n_experts config"
    using cfg by (auto simp: deepseek_config_ok_def)
  then have npos: "0 < ?n"
    by (metis mult_pos_pos)
  have "x \<noteq> []" using x npos by auto
  then obtain xn where xn: "rmsnorm x = Some xn" "length xn = ?n"
    using rmsnorm_Some x by metis
  obtain router where r: "state (layer_key li ''router'') = Some router"
      "mat (n_experts config) ?n router"
    using ok by (auto simp: deepseek_layer_ok_def elim: has_matD)
  have rl: "linear_v xn router = Some (lin xn router)"
    using r(2) xn(2) by (intro linear_v_mat [of "n_experts config" ?n]) simp_all
  have lrl: "length (lin xn router) = n_experts config"
    using r(2) by (simp add: mat_def)
  have "lin xn router \<noteq> []"
    using lrl ne by (metis less_nat_zero_code list.size(3))
  then obtain probs where pr: "softmax (lin xn router) = Some probs"
    "length probs = length (lin xn router)"
    using softmax_Some by blast
  obtain outs where o: "deepseek_experts config state li xn = Some outs"
    "length outs = n_experts config"
    "\<forall>e < n_experts config. length (outs ! e) = ?n"
    using deepseek_experts_Some [OF ok xn(2)] by blast
  obtain outp where m: "deepseek_mix config probs outs = Some outp" "length outp = ?n"
    "\<forall>j < ?n. data (outp ! j) =
      (\<Sum>e\<leftarrow>[0..<n_experts config]. data (probs ! e) * data (outs ! e ! j))"
    using deepseek_mix_Some [of probs config outs] pr(2) lrl o(2,3) by auto
  obtain y where y: "add_residual outp x = Some y" "length y = ?n"
    using add_residual_Some [of outp x] m(2) x by simp
  have "deepseek_moe config state li x = Some y"
    using xn(1) r(1) rl pr(1) o(1) m(1) y(1) by (simp add: deepseek_moe_def)
  moreover have "\<forall>j < ?n. data (y ! j) =
      (\<Sum>e\<leftarrow>[0..<n_experts config]. data (probs ! e) * data (outs ! e ! j)) + data (x ! j)"
    using data_add_residual [OF y(1)] m(2,3) by simp
  ultimately show ?thesis
    using xn(1) r(1) pr lrl o(1,2) y(2) by auto
qed

lemma deepseek_layer_Some:
  assumes cfg: "deepseek_config_ok config" and ok: "deepseek_layer_ok config state li"
    and x: "length x = n_embd config"
    and cache: "li < length keysLatentCache"
      "\<And>e. e \<in> set (keysLatentCache ! li) \<Longrightarrow> length e = latent_dim config"
  shows "\<exists>x' xn w_compress. rmsnorm x = Some xn
    \<and> state (layer_key li ''attn_compress_kv'') = Some w_compress
    \<and> deepseek_layer config state posId (x, keysLatentCache) li =
        Some (x', keysLatentCache[li := keysLatentCache ! li @ [lin xn w_compress]])
    \<and> length x' = n_embd config \<and> length (lin xn w_compress) = latent_dim config"
proof -
  let ?n = "n_embd config" and ?d = "head_dim config"
  have c: "0 < ?d" "even ?d" "n_head config * ?d = ?n" "0 < n_head config"
    using cfg by (auto simp: deepseek_config_ok_def)
  then have npos: "0 < ?n"
    by (metis mult_pos_pos)
  have mats: "has_mat state (layer_key li ''attn_wq'') ?n ?n"
    "has_mat state (layer_key li ''attn_compress_kv'') (latent_dim config) ?n"
    "has_mat state (layer_key li ''attn_wkv'') ?n (latent_dim config)"
    "has_mat state (layer_key li ''attn_wo'') ?n ?n"
    using ok by (simp_all add: deepseek_layer_ok_def)
  have "x \<noteq> []" using x npos by auto
  then obtain xn where xn: "rmsnorm x = Some xn" "length xn = ?n"
    using rmsnorm_Some x by metis
  obtain wq q where q: "state (layer_key li ''attn_wq'') = Some wq" "linear_v xn wq = Some q"
      "length q = ?n"
    using linear_has_mat [OF mats(1), of xn] xn(2) by auto
  obtain wc where wc: "state (layer_key li ''attn_compress_kv'') = Some wc"
      "mat (latent_dim config) ?n wc"
    using mats(2) by (rule has_matD)
  define kv_latent where "kv_latent = lin xn wc"
  have kv: "state (layer_key li ''attn_compress_kv'') = Some wc"
      "linear_v xn wc = Some kv_latent" "length kv_latent = latent_dim config"
    using wc linear_v_mat [OF wc(2), of xn] xn(2) by (simp_all add: kv_latent_def mat_def)
  obtain wkv where wkv: "state (layer_key li ''attn_wkv'') = Some wkv"
      "mat ?n (latent_dim config) wkv"
    using mats(3) by (rule has_matD)
  let ?cache' = "keysLatentCache[li := keysLatentCache ! li @ [kv_latent]]"
  let ?c = "keysLatentCache ! li @ [kv_latent]"
  have push: "push_at keysLatentCache li kv_latent = Some ?cache'" "idx ?cache' li = Some ?c"
    using cache(1) by (simp_all add: push_at_def idx_def)
  obtain q_heads where qh: "split_heads (n_head config) ?d (\<lambda>q_h. apply_rope q_h posId ?d) q
      = Some q_heads" "length q_heads = n_head config"
      "\<forall>h < n_head config. length (q_heads ! h) = ?d"
    using split_heads_rope [OF c(1,2), of "n_head config" q posId] q(3) c(3) by auto
  have cok: "length e = latent_dim config" if "e \<in> set ?c" for e
    using that kv(3) cache(2) by auto
  have heads: "\<exists>acc'. deepseek_head config state li q_heads ?c acc h = Some acc'
      \<and> length acc' = Suc h * ?d"
    if h: "h < n_head config" and acc: "length acc = h * ?d" for h acc
  proof -
    have hl: "h < length q_heads" and ql: "length (q_heads ! h) = ?d"
      using h qh(2,3) by simp_all
    have ne: "?c \<noteq> []" by simp
    obtain ho where "deepseek_head config state li q_heads ?c acc h = Some (acc @ ho)"
      "length ho = ?d"
      using deepseek_head_Some [of config state li wkv h q_heads ?c acc,
          OF cfg wkv hl ql ne cok] by blast
    then show ?thesis using acc by simp
  qed
  obtain x_attn where xa: "foldlM (deepseek_head config state li q_heads ?c) [] [0..<n_head config]
      = Some x_attn" "length x_attn = n_head config * ?d"
    using foldlM_upt_inv [of "\<lambda>i acc. length acc = i * ?d" "[]" "n_head config"
      "deepseek_head config state li q_heads ?c"] heads by auto
  obtain wo x1 where x1: "state (layer_key li ''attn_wo'') = Some wo" "linear_v x_attn wo = Some x1"
      "length x1 = ?n"
    using linear_has_mat [OF mats(4), of x_attn] xa(2) c(3) by auto
  obtain x2 where x2: "add_residual x1 x = Some x2" "length x2 = ?n"
    using add_residual_Some [of x1 x] x1(3) x by simp
  obtain x3 where x3: "deepseek_moe config state li x2 = Some x3" "length x3 = ?n"
    using deepseek_moe_Some [OF cfg ok x2(2)] by blast
  have "deepseek_layer config state posId (x, keysLatentCache) li = Some (x3, ?cache')"
    using xn(1) q(1,2) kv(1,2) push qh(1) xa(1) x1(1,2) x2(1) x3(1)
    by (simp add: deepseek_layer_def)
  then show ?thesis
    using xn(1) kv(1) x3(2) kv(3) unfolding kv_latent_def by blast
qed

lemma deepseek_forward_Some:
  assumes cfg: "deepseek_config_ok config" and st: "deepseek_state_ok config vocab state"
    and tok: "tokenId < vocab"
    and cache: "cache_ok (\<lambda>e. length e = latent_dim config) (n_layer config) k keysLatentCache"
  shows "\<exists>logits cache'.
      deepseek_forward config state tokenId posId keysLatentCache = Some (logits, cache')
    \<and> length logits = vocab
    \<and> appended_below (\<lambda>e. length e = latent_dim config) (n_layer config) keysLatentCache cache'"
proof -
  let ?n = "n_embd config" and ?L = "n_layer config"
  have "0 < n_head config" "0 < head_dim config" "n_head config * head_dim config = ?n"
    using cfg by (auto simp: deepseek_config_ok_def)
  then have npos: "0 < ?n"
    by (metis mult_pos_pos)
  obtain wte where wte: "state ''wte'' = Some wte" "mat vocab ?n wte"
    using st by (auto simp: deepseek_state_ok_def elim: has_matD)
  have row: "idx wte tokenId = Some (wte ! tokenId)" "length (wte ! tokenId) = ?n"
    using wte(2) tok by (simp_all add: mat_def idx_def)
  have "wte ! tokenId \<noteq> []" using row(2) npos by auto
  then obtain x1 where x1: "rmsnorm (wte ! tokenId) = Some x1" "length x1 = ?n"
    using rmsnorm_Some row(2) by metis
  let ?P = "\<lambda>e::Value list. length e = latent_dim config"
  let ?I = "\<lambda>i (x, c). length x = ?n \<and> appended_below ?P i keysLatentCache c"
  have lk: "length keysLatentCache = ?L"
    using cache by (simp add: cache_ok_def)
  have step: "\<exists>s'. deepseek_layer config state posId s i = Some s' \<and> ?I (Suc i) s'"
    if i: "i < ?L" and inv: "?I i s" for i s
  proof -
    obtain x c where s: "s = (x, c)" by (cases s)
    with inv have x: "length x = ?n" and ab: "appended_below ?P i keysLatentCache c" by auto
    have same: "c ! i = keysLatentCache ! i" "i < length c"
      using ab i lk by (auto simp: appended_below_def)
    have okc: "\<And>e. e \<in> set (c ! i) \<Longrightarrow> ?P e"
      using cache i same by (auto simp: cache_ok_def)
    have lok: "deepseek_layer_ok config state i"
      using st i by (simp add: deepseek_state_ok_def)
    obtain x' e' where "deepseek_layer config state posId (x, c) i = Some (x', c[i := c ! i @ [e']])"
      "length x' = ?n" "?P e'"
      using deepseek_layer_Some [OF cfg lok x same(2) okc] by blast
    moreover have "appended_below ?P (Suc i) keysLatentCache (c[i := c ! i @ [e']])"
      using ab i lk \<open>?P e'\<close> by (intro appended_below_push) simp_all
    ultimately show ?thesis
      by (simp add: s)
  qed
  have "?I 0 (x1, keysLatentCache)"
    using x1(2) by (simp add: appended_below_0)
  then obtain s' where s': "foldlM (deepseek_layer config state posId) (x1, keysLatentCache) [0..<?L]
      = Some s'" "?I ?L s'"
    using foldlM_upt_inv [of ?I "(x1, keysLatentCache)" ?L "deepseek_layer config state posId"] step
    by blast
  obtain x2 cache' where s'eq: "s' = (x2, cache')" by (cases s')
  have "x2 \<noteq> []" using s'(2) npos by (auto simp: s'eq)
  then obtain x3 where x3: "rmsnorm x2 = Some x3" "length x3 = ?n"
    using rmsnorm_Some [of x2] s'(2) by (auto simp: s'eq)
  obtain lm where lm: "state ''lm_head'' = Some lm" "mat vocab ?n lm"
    using st by (auto simp: deepseek_state_ok_def elim: has_matD)
  have "linear_v x3 lm = Some (lin x3 lm)"
    using lm(2) x3(2) by (intro linear_v_mat [of vocab ?n]) simp_all
  then have "deepseek_forward config state tokenId posId keysLatentCache = Some (lin x3 lm, cache')"
    using wte(1) row(1) x1(1) s'(1) x3(1) lm(1) by (simp add: deepseek_forward_def s'eq)
  moreover have "length (lin x3 lm) = vocab"
    using lm(2) by (simp add: mat_def)
  ultimately show ?thesis
    using s'(2) by (auto simp: s'eq)
qed

lemma n_active_unused:
  "deepseek_forward (config\<lparr>n_active := a\<rparr>) = deepseek_forward config"
proof -
  let ?c = "config\<lparr>n_active := a\<rparr>"
  have lg: "deepseek_logits ?c = deepseek_logits config"
    by (intro ext) (simp add: deepseek_logits_def)
  have ho: "deepseek_head_out ?c = deepseek_head_out config"
    by (intro ext) (simp add: deepseek_head_out_def)
  have hd: "deepseek_head ?c = deepseek_head config"
    by (intro ext) (simp add: deepseek_head_def lg ho)
  have ex: "deepseek_experts ?c = deepseek_experts config"
    by (intro ext) (simp add: deepseek_experts_def)
  have mx: "deepseek_mix ?c = deepseek_mix config"
    by (intro ext) (simp add: deepseek_mix_def)
  have moe: "deepseek_moe ?c = deepseek_moe config"
    by (intro ext) (simp add: deepseek_moe_def ex mx)
  have ly: "deepseek_layer ?c = deepseek_layer config"
    by (intro ext) (simp add: deepseek_layer_def hd moe)
  show ?thesis
    by (intro ext) (simp add: deepseek_forward_def ly)
qed

section \<open>The example stores have the shapes of the constructors\<close>

lemma mat_filled [simp]: "mat r c (filled r c d)"
  by (simp add: mat_def filled_def)

lemma layer_key_0 [simp]: "layer_key 0 name = ''layer0.'' @ name"
  by (simp add: layer_key_def)

lemma expert_key_0:
  "expert_key 0 0 name = ''layer0.expert0_'' @ name"
  "expert_key 0 (Suc 0) name = ''layer0.expert1_'' @ name"
  by (simp_all add: expert_key_def)

lemma ex_gpt_state_ok: "gpt_state_ok 3 ex_gpt_state"
  by (simp add: gpt_state_ok_def has_mat_def ex_gpt_state_def)

lemma default_llama_config_ok: "llama_config_ok llama_config"
  by (simp add: llama_config_ok_def llama_config_def)

lemma ex_llama_state_ok: "llama_state_ok llama_config 3 ex_llama_state"
  by (simp add: llama_state_ok_def has_mat_def ex_llama_state_def llama_config_def)

lemma ex_deepseek_config_ok: "deepseek_config_ok ex_deepseek_config"
  by (simp add: deepseek_config_ok_def ex_deepseek_config_def)

lemma all_less_two: "(\<forall>e<2::nat. P e) \<longleftrightarrow> P 0 \<and> P (Suc 0)"
  by (auto simp: less_2_cases_iff)

lemma ex_deepseek_layer_ok: "deepseek_layer_ok ex_deepseek_config ex_deepseek_state 0"
  by (simp add: deepseek_layer_ok_def has_mat_def ex_deepseek_state_def ex_deepseek_config_def
      all_less_two expert_key_0)

lemma ex_deepseek_state_ok: "deepseek_state_ok ex_deepseek_config 3 ex_deepseek_state"
  using ex_deepseek_layer_ok
  by (simp add: deepseek_state_ok_def has_mat_def ex_deepseek_state_def ex_deepseek_config_def)

section \<open>Runs of forward calls\<close>

lemma foldlM_push_length:
  assumes "foldlM f acc [0..<n] = Some acc'"
    and "\<And>acc i acc'. f acc i = Some acc' \<Longrightarrow> length acc' = Suc (length acc)"
  shows "length acc' = length acc + n"
  using assms(1)
  by (rule foldlM_upt_result [where I = "\<lambda>i a. length a = length acc + i"])
    (use assms(2) in auto)

lemma gpt_logits_length: "gpt_logits qh kh = Some logits \<Longrightarrow> length logits = length kh"
  unfolding gpt_logits_def by (drule those_eq_Some_length) simp

lemma llama_logits_length:
  assumes "llama_logits config q_h k_h_all = Some logits"
  shows "length logits = length k_h_all"
proof -
  have "length logits = length ([]::Value list) + length k_h_all"
    using assms unfolding llama_logits_def
    by (rule foldlM_push_length) (auto split: bind_splits)
  then show ?thesis by simp
qed

lemma deepseek_logits_length:
  assumes "deepseek_logits config state li q_h cache = Some logits"
  shows "length logits = length cache"
proof -
  have "length logits = length ([]::Value list) + length cache"
    using assms unfolding deepseek_logits_def
    by (rule foldlM_push_length) (auto simp: Let_def split: bind_splits)
  then show ?thesis by simp
qed

lemma gpt_call:
  assumes "gpt_state_ok vocab state" and "tok < vocab" and "pos < block_size gpt_config"
    and "cache_ok (\<lambda>e. length e = n_embd gpt_config) (n_layer gpt_config) k keys"
    and "cache_ok (\<lambda>e. length e = n_embd gpt_config) (n_layer gpt_config) k vals"
  shows "\<exists>logits keys' vals'. gpt state tok pos keys vals = Some (logits, keys', vals')
    \<and> length logits = vocab
    \<and> appended_below (\<lambda>e. length e = n_embd gpt_config) (n_layer gpt_config) keys keys'
    \<and> appended_below (\<lambda>e. length e = n_embd gpt_config) (n_layer gpt_config) vals vals'
    \<and> cache_ok (\<lambda>e. length e = n_embd gpt_config) (n_layer gpt_config) (Suc k) keys'
    \<and> cache_ok (\<lambda>e. length e = n_embd gpt_config) (n_layer gpt_config) (Suc k) vals'"
proof -
  obtain logits keys' vals' where r: "gpt state tok pos keys vals = Some (logits, keys', vals')"
    "length logits = vocab"
    "appended_below (\<lambda>e. length e = 16) 1 keys keys'"
    "appended_below (\<lambda>e. length e = 16) 1 vals vals'"
    using gpt_Some [of vocab state tok pos k keys vals] assms by auto
  have "cache_ok (\<lambda>e. length e = 16) 1 (Suc k) keys'" "cache_ok (\<lambda>e. length e = 16) 1 (Suc k) vals'"
    using assms(4,5) r(3,4) by (simp_all add: cache_ok_appended)
  then show ?thesis
    using r by simp
qed

lemma gpt_run:
  assumes "gpt_state_ok vocab state" and "\<forall>tok \<in> set tokens. tok < vocab"
    and "length tokens \<le> block_size gpt_config"
  shows "\<exists>keys vals.
      forward_calls (gpt state) tokens
        (fresh_cache (n_layer gpt_config), fresh_cache (n_layer gpt_config)) = Some (keys, vals)
    \<and> cache_ok (\<lambda>e. length e = n_embd gpt_config) (n_layer gpt_config) (length tokens) keys
    \<and> cache_ok (\<lambda>e. length e = n_embd gpt_config) (n_layer gpt_config) (length tokens) vals"
proof -
  let ?P = "\<lambda>e::Value list. length e = n_embd gpt_config"
  let ?L = "n_layer gpt_config"
  let ?I = "\<lambda>i (ks, vs). cache_ok ?P ?L i ks \<and> cache_ok ?P ?L i vs"
  have "?I 0 (fresh_cache ?L, fresh_cache ?L)"
    by (simp add: cache_ok_fresh)
  moreover have "\<exists>l ks' vs'. gpt state (tokens ! i) i ks vs = Some (l, ks', vs') \<and> ?I (Suc i) (ks', vs')"
    if "i < length tokens" "?I i (ks, vs)" for i ks vs
    using gpt_call [of vocab state "tokens ! i" i i ks vs] assms that by auto
  ultimately obtain s' where "forward_calls (gpt state) tokens (fresh_cache ?L, fresh_cache ?L) = Some s'"
    "?I (length tokens) s'"
    using forward_calls_inv [of ?I "(fresh_cache ?L, fresh_cache ?L)" tokens "gpt state"] by blast
  then show ?thesis
    by (cases s') auto
qed

lemma llama_call:
  assumes "llama_config_ok config" and "llama_state_ok config vocab state" and "tok < vocab"
    and "cache_ok (heads_entry config) (n_layer config) k keys"
    and "cache_ok (heads_entry config) (n_layer config) k vals"
  shows "\<exists>logits keys' vals'.
      llama_forward config state tok pos keys vals = Some (logits, keys', vals')
    \<and> length logits = vocab
    \<and> appended_below (heads_entry config) (n_layer config) keys keys'
    \<and> appended_below (heads_entry config) (n_layer config) vals vals'
    \<and> cache_ok (heads_entry config) (n_layer config) (Suc k) keys'
    \<and> cache_ok (heads_entry config) (n_layer config) (Suc k) vals'"
proof -
  obtain logits keys' vals' where r:
    "llama_forward config state tok pos keys vals = Some (logits, keys', vals')"
    "length logits = vocab"
    "appended_below (heads_entry config) (n_layer config) keys keys'"
    "appended_below (heads_entry config) (n_layer config) vals vals'"
    using llama_forward_Some [OF assms] by blast
  then show ?thesis
    using assms(4,5) by (auto simp: cache_ok_appended)
qed

lemma llama_run:
  assumes "llama_config_ok config" and "llama_state_ok config vocab state"
    and "\<forall>tok \<in> set tokens. tok < vocab"
  shows "\<exists>keys vals.
      forward_calls (llama_forward config state) tokens
        (fresh_cache (n_layer config), fresh_cache (n_layer config)) = Some (keys, vals)
    \<and> cache_ok (heads_entry config) (n_layer config) (length tokens) keys
    \<and> cache_ok (heads_entry config) (n_layer config) (length tokens) vals"
proof -
  let ?L = "n_layer config"
  let ?I = "\<lambda>i (ks, vs). cache_ok (heads_entry config) ?L i ks \<and> cache_ok (heads_entry config) ?L i vs"
  have "?I 0 (fresh_cache ?L, fresh_cache ?L)"
    by (simp add: cache_ok_fresh)
  moreover have "\<exists>l ks' vs'. llama_forward config state (tokens ! i) i ks vs = Some (l, ks', vs')
      \<and> ?I (Suc i) (ks', vs')"
    if "i < length tokens" "?I i (ks, vs)" for i ks vs
    using llama_call [of config vocab state "tokens ! i" i ks vs i] assms that by auto
  ultimately obtain s' where
    "forward_calls (llama_forward config state) tokens (fresh_cache ?L, fresh_cache ?L) = Some s'"
    "?I (length tokens) s'"
    using forward_calls_inv [of ?I "(fresh_cache ?L, fresh_cache ?L)" tokens
      "llama_forward config state"] by blast
  then show ?thesis
    by (cases s') auto
qed

lemma deepseek_call_Some:
  assumes "deepseek_config_ok config" and "deepseek_state_ok config vocab state" and "tok < vocab"
    and "cache_ok (\<lambda>e. length e = latent_dim config) (n_layer config) k keys"
  shows "\<exists>logits keys'.
      deepseek_call config state tok pos keys vals = Some (logits, keys', vals)
    \<and> length logits = vocab
    \<and> appended_below (\<lambda>e. length e = latent_dim config) (n_layer config) keys keys'
    \<and> cache_ok (\<lambda>e. length e = latent_dim config) (n_layer config) (Suc k) keys'"
proof -
  obtain logits keys' where r:
    "deepseek_forward config state tok pos keys = Some (logits, keys')"
    "length logits = vocab"
    "appended_below (\<lambda>e. length e = latent_dim config) (n_layer config) keys keys'"
    using deepseek_forward_Some [OF assms] by blast
  then show ?thesis
    using assms(4) by (auto simp: cache_ok_appended deepseek_call_def)
qed

lemma deepseek_run:
  assumes "deepseek_config_ok config" and "deepseek_state_ok config vocab state"
    and "\<forall>tok \<in> set tokens. tok < vocab"
  shows "\<exists>keys.
      forward_calls (deepseek_call config state) tokens (fresh_cache (n_layer config), vals)
        = Some (keys, vals)
    \<and> cache_ok (\<lambda>e. length e = latent_dim config) (n_layer config) (length tokens) keys"
proof -
  let ?L = "n_layer config"
  let ?I = "\<lambda>i (ks, vs). cache_ok (\<lambda>e. length e = latent_dim config) ?L i ks \<and> vs = vals"
  have "?I 0 (fresh_cache ?L, vals)"
    by (simp add: cache_ok_fresh)
  moreover have "\<exists>l ks' vs'. deepseek_call config state (tokens ! i) i ks vs = Some (l, ks', vs')
      \<and> ?I (Suc i) (ks', vs')"
    if "i < length tokens" "?I i (ks, vs)" for i ks vs
    using deepseek_call_Some [of config vocab state "tokens ! i" i ks i vals] assms that by auto
  ultimately obtain s' where
    "forward_calls (deepseek_call config state) tokens (fresh_cache ?L, vals) = Some s'"
    "?I (length tokens) s'"
    using forward_calls_inv [of ?I "(fresh_cache ?L, vals)" tokens
      "deepseek_call config state"] by blast
  then show ?thesis
    by (cases s') auto
qed

section \<open>The drivers on Variant C\<close>

lemma deepseek_call_frame:
  assumes "deepseek_call config state tok pos keys vals = Some (logits, keys', vals')"
  shows "vals' = vals" and "deepseek_forward config state tok pos keys = Some (logits, keys')"
  using assms by (auto simp: deepseek_call_def)

lemma train_positions_frame:
  assumes "train_positions (deepseek_call config state) tokens n (losses0, keys0, vals0)
      = Some (losses, keys, vals)"
  shows "vals = vals0"
proof -
  have "(\<lambda>(l, k, v). v = vals0) (losses, keys, vals)"
    using assms unfolding train_positions_def
    by (rule foldlM_upt_result [where I = "\<lambda>i (l, k, v). v = vals0"])
      (auto simp: deepseek_call_def split: bind_splits)
  then show ?thesis by simp
qed

lemma infere_positions_frame:
  assumes "infere_positions (deepseek_call config state) pick bos fuel pos
      (sample0, tok0, keys0, vals0) = Some (sample, tok, keys, vals)"
  shows "vals = vals0"
  using assms
proof (induction fuel arbitrary: pos sample0 tok0 keys0)
  case 0
  then show ?case by simp
next
  case (Suc fuel)
  from Suc.prems obtain logits k' v' probs where
    c: "deepseek_call config state tok0 pos keys0 vals0 = Some (logits, k', v')"
    and r: "(if pick pos (map data probs) = bos then Some (sample0, tok0, k', v')
        else infere_positions (deepseek_call config state) pick bos fuel (Suc pos)
          (sample0 @ [pick pos (map data probs)], pick pos (map data probs), k', v'))
        = Some (sample, tok, keys, vals)"
    by (auto simp: bind_eq_Some_conv Let_def)
  have v': "v' = vals0"
    using c by (rule deepseek_call_frame)
  show ?case
  proof (cases "pick pos (map data probs) = bos")
    case True
    then show ?thesis using r v' by simp
  next
    case False
    then show ?thesis
      using r Suc.IH [of "Suc pos" "sample0 @ [pick pos (map data probs)]"
        "pick pos (map data probs)" k'] by (simp add: v')
  qed
qed

lemma train_positions_Some:
  assumes cfg: "deepseek_config_ok config" and st: "deepseek_state_ok config vocab state"
    and toks: "\<forall>tok \<in> set tokens. tok < vocab" and n: "n < length tokens"
  shows "\<exists>losses keys.
      train_positions (deepseek_call config state) tokens n ([], fresh_cache (n_layer config), vals0)
        = Some (losses, keys, vals0)
    \<and> length losses = n
    \<and> cache_ok (\<lambda>e. length e = latent_dim config) (n_layer config) n keys"
proof -
  let ?P = "\<lambda>e::Value list. length e = latent_dim config"
  let ?L = "n_layer config"
  let ?I = "\<lambda>i (l, k, v). length l = i \<and> cache_ok ?P ?L i k \<and> v = vals0"
  let ?f = "\<lambda>(losses, keys, vals) pos. do {
       tok \<leftarrow> idx tokens pos;
       (logits, keys, vals) \<leftarrow> deepseek_call config state tok pos keys vals;
       probs \<leftarrow> softmax logits;
       target \<leftarrow> idx tokens (pos + 1);
       p \<leftarrow> idx probs target;
       l \<leftarrow> log_v p;
       Some (losses @ [neg l], keys, vals)
     }"
  have step: "\<exists>s'. ?f s i = Some s' \<and> ?I (Suc i) s'" if i: "i < n" and inv: "?I i s" for i s
  proof -
    obtain l k v where s: "s = (l, k, v)" by (cases s)
    have inv': "length l = i" "cache_ok ?P ?L i k" "v = vals0"
      using inv by (simp_all add: s)
    have ti: "tokens ! i < vocab" "tokens ! Suc i < vocab"
      using toks i n by simp_all
    obtain logits k' where c: "deepseek_call config state (tokens ! i) i k vals0 = Some (logits, k', vals0)"
        "length logits = vocab" "cache_ok ?P ?L (Suc i) k'"
      using deepseek_call_Some [OF cfg st ti(1) inv'(2), of i vals0] by blast
    have "logits \<noteq> []"
      using c(2) ti(1) by auto
    then obtain probs where p: "softmax logits = Some probs" "length probs = length logits"
        "\<forall>p \<in> set probs. 0 < data p"
      using softmax_Some by blast
    have "0 < data (probs ! (tokens ! Suc i))"
      using p(2,3) c(2) ti(2) by simp
    then obtain lg where lg: "log_v (probs ! (tokens ! Suc i)) = Some lg"
      by (simp add: log_v_def)
    have "?f s i = Some (l @ [neg lg], k', vals0)"
      using i n c(1) p(1,2) c(2) ti(2) lg by (simp add: s inv'(3) idx_def)
    then show ?thesis
      using inv'(1) c(3) by simp
  qed
  have "\<exists>s'. foldlM ?f ([], fresh_cache ?L, vals0) [0..<n] = Some s' \<and> ?I n s'"
  proof (rule foldlM_upt_inv [where I = ?I])
    show "?I 0 ([], fresh_cache ?L, vals0)"
      by (simp add: cache_ok_fresh)
  qed (rule step)
  then obtain s' where "foldlM ?f ([], fresh_cache ?L, vals0) [0..<n] = Some s'" "?I n s'"
    by (elim exE conjE)
  then show ?thesis
    unfolding train_positions_def by (cases s') auto
qed

lemma infere_positions_Some:
  assumes cfg: "deepseek_config_ok config" and st: "deepseek_state_ok config vocab state"
    and pick: "\<forall>pos ps. pick pos ps < vocab"
  shows "tok0 < vocab \<Longrightarrow>
    cache_ok (\<lambda>e. length e = latent_dim config) (n_layer config) k keys0 \<Longrightarrow>
    \<exists>sample tok keys. infere_positions (deepseek_call config state) pick bos fuel pos
      (sample0, tok0, keys0, vals0) = Some (sample, tok, keys, vals0)"
proof (induction fuel arbitrary: pos sample0 tok0 keys0 k)
  case 0
  then show ?case by simp
next
  case (Suc fuel)
  obtain logits k' where c: "deepseek_call config state tok0 pos keys0 vals0 = Some (logits, k', vals0)"
      "length logits = vocab"
      "cache_ok (\<lambda>e. length e = latent_dim config) (n_layer config) (Suc k) k'"
    using deepseek_call_Some [OF cfg st Suc.prems(1,2), of pos vals0] by blast
  have half: "div_v l (N (1 / 2)) = Some (mul l (V (Value (1 / (1 / 2)) [wrap (N (1 / 2))]
      [- (1 / (1 / 2)\<^sup>2)])))" for l
    using div_v_eq [of "N (1 / 2)" l] by simp
  then have sc: "those (map (\<lambda>l. div_v l (N (1 / 2))) logits) =
      Some (map (\<lambda>l. mul l (V (Value (1 / (1 / 2)) [wrap (N (1 / 2))] [- (1 / (1 / 2)\<^sup>2)]))) logits)"
    by (intro those_map_Some)
  let ?scaled = "map (\<lambda>l. mul l (V (Value (1 / (1 / 2)) [wrap (N (1 / 2))] [- (1 / (1 / 2)\<^sup>2)]))) logits"
  have "?scaled \<noteq> []"
    using c(2) Suc.prems(1) by auto
  then obtain probs where p: "softmax ?scaled = Some probs"
    using softmax_Some by blast
  let ?i = "pick pos (map data probs)"
  show ?case
  proof (cases "?i = bos")
    case True
    then show ?thesis
      using c(1) sc p by (simp add: Let_def)
  next
    case False
    have "?i < vocab" using pick by simp
    from Suc.IH [OF this c(3), of "Suc pos" "sample0 @ [?i]"] False
    show ?thesis
      using c(1) sc p by (simp add: Let_def)
  qed
qed

section \<open>The steps of a forward pass\<close>

subsection \<open>Variant C\<close>

lemma foldlM_concat_inv:
  assumes "\<And>i acc. i < n \<Longrightarrow> \<exists>ho. f acc i = Some (acc @ ho) \<and> P i ho"
  shows "\<exists>hs. length hs = n \<and> foldlM f [] [0..<n] = Some (concat hs) \<and> (\<forall>i < n. P i (hs ! i))"
  using assms
proof (induction n)
  case 0
  then show ?case by simp
next
  case (Suc n)
  obtain hs where hs: "length hs = n" "foldlM f [] [0..<n] = Some (concat hs)"
    "\<forall>i < n. P i (hs ! i)"
    using Suc.IH Suc.prems by (metis less_Suc_eq)
  obtain ho where ho: "f (concat hs) n = Some (concat hs @ ho)" "P n ho"
    using Suc.prems [of n "concat hs"] by auto
  have "foldlM f [] [0..<Suc n] = Some (concat (hs @ [ho]))"
    using hs(2) ho(1) by (simp add: foldlM_append)
  moreover have "\<forall>i < Suc n. P i ((hs @ [ho]) ! i)"
    using hs(1,3) ho(2) by (auto simp: nth_append less_Suc_eq)
  ultimately show ?case
    using hs(1) by (intro exI [of _ "hs @ [ho]"]) simp
qed

lemma foldlM_upt_trace:
  assumes "I 0 s"
    and "\<And>i s. i < n \<Longrightarrow> I i s \<Longrightarrow> \<exists>s'. f s i = Some s' \<and> I (Suc i) s'"
  shows "\<exists>tr. length tr = Suc n \<and> tr ! 0 = s
    \<and> (\<forall>i < n. f (tr ! i) i = Some (tr ! Suc i))
    \<and> (\<forall>i \<le> n. I i (tr ! i))
    \<and> foldlM f s [0..<n] = Some (tr ! n)"
  using assms(2)
proof (induction n)
  case 0
  show ?case
    using assms(1) by (intro exI [of _ "[s]"]) simp
next
  case (Suc n)
  obtain tr where tr: "length tr = Suc n" "tr ! 0 = s"
    "\<forall>i < n. f (tr ! i) i = Some (tr ! Suc i)" "\<forall>i \<le> n. I i (tr ! i)"
    "foldlM f s [0..<n] = Some (tr ! n)"
    using Suc.IH Suc.prems by (metis less_Suc_eq)
  obtain s' where s': "f (tr ! n) n = Some s'" "I (Suc n) s'"
    using Suc.prems [of n "tr ! n"] tr(4) by auto
  let ?tr = "tr @ [s']"
  have "\<forall>i < Suc n. f (?tr ! i) i = Some (?tr ! Suc i)"
    using tr(1,3) s'(1) by (auto simp: nth_append less_Suc_eq)
  moreover have "\<forall>i \<le> Suc n. I i (?tr ! i)"
    using tr(1,4) s'(2) by (auto simp: nth_append le_Suc_eq)
  moreover have "foldlM f s [0..<Suc n] = Some (?tr ! Suc n)"
    using tr(1,5) s'(1) by (simp add: foldlM_append nth_append)
  moreover have "?tr ! 0 = s" "length ?tr = Suc (Suc n)"
    using tr(1,2) by (simp_all add: nth_append)
  ultimately show ?case
    by (intro exI [of _ ?tr]) blast
qed

lemma deepseek_layer_steps:
  assumes cfg: "deepseek_config_ok config" and ok: "deepseek_layer_ok config state li"
    and x: "length x = n_embd config"
    and cache: "li < length keysLatentCache"
      "\<forall>e \<in> set (keysLatentCache ! li). length e = latent_dim config"
  shows "\<exists>xn wq w_compress wkv wo q_heads heads x2 y.
      rmsnorm x = Some xn \<and> length xn = n_embd config
    \<and> state (layer_key li ''attn_wq'') = Some wq
    \<and> state (layer_key li ''attn_compress_kv'') = Some w_compress
    \<and> state (layer_key li ''attn_wkv'') = Some wkv
    \<and> mat (n_embd config) (latent_dim config) wkv
    \<and> state (layer_key li ''attn_wo'') = Some wo
    \<and> length (lin xn w_compress) = latent_dim config
    \<and> split_heads (n_head config) (head_dim config)
          (\<lambda>q_h. apply_rope q_h posId (head_dim config)) (lin xn wq) = Some q_heads
    \<and> length q_heads = n_head config
    \<and> (\<forall>h < n_head config. length (q_heads ! h) = head_dim config)
    \<and> length heads = n_head config
    \<and> (\<forall>h < n_head config. \<exists>logits weights.
          deepseek_logits config state li (q_heads ! h)
            (keysLatentCache ! li @ [lin xn w_compress]) = Some logits
        \<and> softmax logits = Some weights
        \<and> deepseek_head_out config state li weights
            (keysLatentCache ! li @ [lin xn w_compress]) = Some (heads ! h))
    \<and> foldlM (deepseek_head config state li q_heads (keysLatentCache ! li @ [lin xn w_compress]))
          [] [0..<n_head config] = Some (concat heads)
    \<and> add_residual (lin (concat heads) wo) x = Some x2 \<and> length x2 = n_embd config
    \<and> deepseek_moe config state li x2 = Some y \<and> length y = n_embd config
    \<and> deepseek_layer config state posId (x, keysLatentCache) li =
        Some (y, keysLatentCache[li := keysLatentCache ! li @ [lin xn w_compress]])"
proof -
  let ?n = "n_embd config" and ?d = "head_dim config"
  have c: "0 < ?d" "even ?d" "n_head config * ?d = ?n" "0 < n_head config"
    using cfg by (auto simp: deepseek_config_ok_def)
  then have npos: "0 < ?n"
    by (metis mult_pos_pos)
  have mats: "has_mat state (layer_key li ''attn_wq'') ?n ?n"
    "has_mat state (layer_key li ''attn_compress_kv'') (latent_dim config) ?n"
    "has_mat state (layer_key li ''attn_wkv'') ?n (latent_dim config)"
    "has_mat state (layer_key li ''attn_wo'') ?n ?n"
    using ok by (simp_all add: deepseek_layer_ok_def)
  have "x \<noteq> []" using x npos by auto
  then obtain xn where xn: "rmsnorm x = Some xn" "length xn = ?n"
    using rmsnorm_Some x by metis
  obtain wq where wq: "state (layer_key li ''attn_wq'') = Some wq" "mat ?n ?n wq"
    using mats(1) by (rule has_matD)
  have q: "linear_v xn wq = Some (lin xn wq)" "length (lin xn wq) = ?n"
    using linear_v_mat [OF wq(2), of xn] xn(2) wq(2) by (simp_all add: mat_def)
  obtain wc where wc: "state (layer_key li ''attn_compress_kv'') = Some wc"
      "mat (latent_dim config) ?n wc"
    using mats(2) by (rule has_matD)
  have kv: "linear_v xn wc = Some (lin xn wc)" "length (lin xn wc) = latent_dim config"
    using linear_v_mat [OF wc(2), of xn] xn(2) wc(2) by (simp_all add: mat_def)
  obtain wkv where wkv: "state (layer_key li ''attn_wkv'') = Some wkv"
      "mat ?n (latent_dim config) wkv"
    using mats(3) by (rule has_matD)
  obtain wo where wo: "state (layer_key li ''attn_wo'') = Some wo" "mat ?n ?n wo"
    using mats(4) by (rule has_matD)
  let ?c = "keysLatentCache ! li @ [lin xn wc]"
  let ?cache' = "keysLatentCache[li := ?c]"
  have push: "push_at keysLatentCache li (lin xn wc) = Some ?cache'" "idx ?cache' li = Some ?c"
    using cache(1) by (simp_all add: push_at_def idx_def)
  obtain q_heads where qh: "split_heads (n_head config) ?d (\<lambda>q_h. apply_rope q_h posId ?d)
      (lin xn wq) = Some q_heads" "length q_heads = n_head config"
      "\<forall>h < n_head config. length (q_heads ! h) = ?d"
    using split_heads_rope [OF c(1,2), of "n_head config" "lin xn wq" posId] q(2) c(3) by auto
  have cok: "length e = latent_dim config" if "e \<in> set ?c" for e
    using that kv(2) cache(2) by auto
  have ne: "?c \<noteq> []" by simp
  have step: "\<exists>ho. deepseek_head config state li q_heads ?c acc h = Some (acc @ ho)
      \<and> (\<exists>logits weights.
            deepseek_logits config state li (q_heads ! h) ?c = Some logits
          \<and> softmax logits = Some weights
          \<and> deepseek_head_out config state li weights ?c = Some ho)"
    if h: "h < n_head config" for h acc
  proof -
    have hl: "h < length q_heads" and ql: "length (q_heads ! h) = ?d"
      using h qh(2,3) by simp_all
    obtain logits weights ho where
      "deepseek_logits config state li (q_heads ! h) ?c = Some logits"
      "softmax logits = Some weights"
      "deepseek_head_out config state li weights ?c = Some ho"
      "deepseek_head config state li q_heads ?c acc h = Some (acc @ ho)"
      using deepseek_head_Some [of config state li wkv h q_heads ?c acc,
          OF cfg wkv hl ql ne cok] by blast
    then show ?thesis by blast
  qed
  obtain heads where hs: "length heads = n_head config"
    "foldlM (deepseek_head config state li q_heads ?c) [] [0..<n_head config] = Some (concat heads)"
    "\<forall>h < n_head config. \<exists>logits weights.
          deepseek_logits config state li (q_heads ! h) ?c = Some logits
        \<and> softmax logits = Some weights
        \<and> deepseek_head_out config state li weights ?c = Some (heads ! h)"
    using foldlM_concat_inv [of "n_head config" "deepseek_head config state li q_heads ?c"
      "\<lambda>h ho. \<exists>logits weights.
          deepseek_logits config state li (q_heads ! h) ?c = Some logits
        \<and> softmax logits = Some weights
        \<and> deepseek_head_out config state li weights ?c = Some ho", OF step]
    by blast
  have hlen: "length (heads ! h) = ?d" if h: "h < n_head config" for h
  proof -
    obtain logits weights where l: "deepseek_logits config state li (q_heads ! h) ?c = Some logits"
      "softmax logits = Some weights"
      "deepseek_head_out config state li weights ?c = Some (heads ! h)"
      using hs(3) h by blast
    have ll: "length logits = length ?c"
      using l(1) by (rule deepseek_logits_length)
    then have "logits \<noteq> []"
      by auto
    then have "length weights = length ?c"
      using softmax_Some [of logits] l(2) ll by auto
    then show ?thesis
      using deepseek_head_out_Some [of config state li wkv weights ?c, OF cfg wkv _ cok] l(3)
      by auto
  qed
  have "length (concat heads) = n_head config * ?d"
  proof -
    have "map length heads = replicate (n_head config) ?d"
      using hs(1) hlen by (intro nth_equalityI) simp_all
    then show ?thesis
      by (simp add: length_concat sum_list_replicate)
  qed
  then have xa: "length (concat heads) = ?n"
    using c(3) by simp
  have x1: "linear_v (concat heads) wo = Some (lin (concat heads) wo)"
    "length (lin (concat heads) wo) = ?n"
    using linear_v_mat [OF wo(2), of "concat heads"] xa wo(2) by (simp_all add: mat_def)
  obtain x2 where x2: "add_residual (lin (concat heads) wo) x = Some x2" "length x2 = ?n"
    using add_residual_Some [of "lin (concat heads) wo" x] x1(2) x by simp
  obtain y where y: "deepseek_moe config state li x2 = Some y" "length y = ?n"
    using deepseek_moe_Some [OF cfg ok x2(2)] by blast
  have layer: "deepseek_layer config state posId (x, keysLatentCache) li = Some (y, ?cache')"
    using xn(1) wq(1) q(1) wc(1) kv(1) push qh(1) hs(2) wo(1) x1(1) x2(1) y(1)
    by (simp add: deepseek_layer_def)
  show ?thesis
    by (intro exI [of _ xn] exI [of _ wq] exI [of _ wc] exI [of _ wkv] exI [of _ wo]
        exI [of _ q_heads] exI [of _ heads] exI [of _ x2] exI [of _ y] conjI
        xn wq(1) wc(1) wkv wo(1) kv(2) qh hs(1) hs(3) hs(2) x2 y layer)
qed

lemma deepseek_forward_trace:
  assumes cfg: "deepseek_config_ok config" and st: "deepseek_state_ok config vocab state"
    and tok: "tokenId < vocab"
    and cache: "cache_ok (\<lambda>e. length e = latent_dim config) (n_layer config) k keysLatentCache"
  shows "\<exists>wte lm_head tr xf.
      state ''wte'' = Some wte \<and> state ''lm_head'' = Some lm_head
    \<and> length tr = Suc (n_layer config)
    \<and> rmsnorm (wte ! tokenId) = Some (fst (tr ! 0)) \<and> snd (tr ! 0) = keysLatentCache
    \<and> (\<forall>li < n_layer config.
          deepseek_layer config state posId (tr ! li) li = Some (tr ! Suc li))
    \<and> (\<forall>li \<le> n_layer config. length (fst (tr ! li)) = n_embd config
          \<and> appended_below (\<lambda>e. length e = latent_dim config) li keysLatentCache (snd (tr ! li)))
    \<and> rmsnorm (fst (tr ! n_layer config)) = Some xf
    \<and> length (lin xf lm_head) = vocab
    \<and> deepseek_forward config state tokenId posId keysLatentCache =
        Some (lin xf lm_head, snd (tr ! n_layer config))"
proof -
  let ?n = "n_embd config" and ?L = "n_layer config"
  have "0 < n_head config" "0 < head_dim config" "n_head config * head_dim config = ?n"
    using cfg by (auto simp: deepseek_config_ok_def)
  then have npos: "0 < ?n"
    by (metis mult_pos_pos)
  obtain wte where wte: "state ''wte'' = Some wte" "mat vocab ?n wte"
    using st by (auto simp: deepseek_state_ok_def elim: has_matD)
  have row: "idx wte tokenId = Some (wte ! tokenId)" "length (wte ! tokenId) = ?n"
    using wte(2) tok by (simp_all add: mat_def idx_def)
  have "wte ! tokenId \<noteq> []" using row(2) npos by auto
  then obtain x1 where x1: "rmsnorm (wte ! tokenId) = Some x1" "length x1 = ?n"
    using rmsnorm_Some row(2) by metis
  let ?P = "\<lambda>e::Value list. length e = latent_dim config"
  let ?I = "\<lambda>i s. length (fst s) = ?n \<and> appended_below ?P i keysLatentCache (snd s)"
  have lk: "length keysLatentCache = ?L"
    using cache by (simp add: cache_ok_def)
  have step: "\<exists>s'. deepseek_layer config state posId s i = Some s' \<and> ?I (Suc i) s'"
    if i: "i < ?L" and inv: "?I i s" for i s
  proof -
    obtain x c where s: "s = (x, c)" by (cases s)
    with inv have x: "length x = ?n" and ab: "appended_below ?P i keysLatentCache c" by auto
    have same: "c ! i = keysLatentCache ! i" "i < length c"
      using ab i lk by (auto simp: appended_below_def)
    have okc: "\<And>e. e \<in> set (c ! i) \<Longrightarrow> ?P e"
      using cache i same by (auto simp: cache_ok_def)
    have lok: "deepseek_layer_ok config state i"
      using st i by (simp add: deepseek_state_ok_def)
    obtain x' xn wc where "deepseek_layer config state posId (x, c) i
        = Some (x', c[i := c ! i @ [lin xn wc]])"
      "length x' = ?n" "?P (lin xn wc)"
      using deepseek_layer_Some [OF cfg lok x same(2) okc] by blast
    moreover have "appended_below ?P (Suc i) keysLatentCache (c[i := c ! i @ [lin xn wc]])"
      using ab i lk \<open>?P (lin xn wc)\<close> by (intro appended_below_push) simp_all
    ultimately show ?thesis
      by (simp add: s)
  qed
  have "?I 0 (x1, keysLatentCache)"
    using x1(2) by (simp add: appended_below_0)
  then obtain tr where tr: "length tr = Suc ?L" "tr ! 0 = (x1, keysLatentCache)"
    "\<forall>li < ?L. deepseek_layer config state posId (tr ! li) li = Some (tr ! Suc li)"
    "\<forall>li \<le> ?L. ?I li (tr ! li)"
    "foldlM (deepseek_layer config state posId) (x1, keysLatentCache) [0..<?L] = Some (tr ! ?L)"
    using foldlM_upt_trace [of ?I "(x1, keysLatentCache)" ?L "deepseek_layer config state posId",
      OF _ step] by blast
  have "length (fst (tr ! ?L)) = ?n"
    using tr(4) by simp
  then have "fst (tr ! ?L) \<noteq> []" using npos by auto
  then obtain xf where xf: "rmsnorm (fst (tr ! ?L)) = Some xf" "length xf = ?n"
    using rmsnorm_Some [of "fst (tr ! ?L)"] \<open>length (fst (tr ! ?L)) = ?n\<close> by auto
  obtain lm where lm: "state ''lm_head'' = Some lm" "mat vocab ?n lm"
    using st by (auto simp: deepseek_state_ok_def elim: has_matD)
  have l: "linear_v xf lm = Some (lin xf lm)"
    using lm(2) xf(2) by (intro linear_v_mat [of vocab ?n]) simp_all
  have ll: "length (lin xf lm) = vocab"
    using lm(2) by (simp add: mat_def)
  have fw: "deepseek_forward config state tokenId posId keysLatentCache
      = Some (lin xf lm, snd (tr ! ?L))"
    using wte(1) row(1) x1(1) tr(5) xf(1) lm(1) l
    by (simp add: deepseek_forward_def split_beta)
  have t0: "rmsnorm (wte ! tokenId) = Some (fst (tr ! 0))" "snd (tr ! 0) = keysLatentCache"
    using x1(1) tr(2) by simp_all
  show ?thesis
    by (intro exI [of _ wte] exI [of _ lm] exI [of _ tr] exI [of _ xf] conjI
        wte(1) lm(1) tr(1) t0 tr(3) tr(4) xf(1) ll fw)
qed

section \<open>\<^verbatim>\<open>backward\<close> computes the chain rule\<close>

lemma post_order_Nil: "post_order st []"
  by (simp add: post_order_def)

lemma post_order_snoc:
  "post_order st (topo @ [v]) \<longleftrightarrow>
     post_order st topo \<and> v \<notin> set topo \<and> set (children_n (st v)) \<subseteq> set topo"
proof -
  have "(\<forall>i < Suc (length topo). P i) \<longleftrightarrow> (\<forall>i < length topo. P i) \<and> P (length topo)" for P
    by (auto simp: less_Suc_eq)
  then show ?thesis
    by (auto simp: post_order_def nth_append)
qed

lemma reachable_refl: "v \<in> reachable st v"
  by (simp add: reachable_def)

lemma reachable_child:
  "c \<in> set (children_n (st v)) \<Longrightarrow> w \<in> reachable st c \<Longrightarrow> w \<in> reachable st v"
  unfolding reachable_def by (auto intro: converse_rtrancl_into_rtrancl)

lemma build_spec:
  assumes acyc: "\<And>u c. c \<in> set (children_n (st u)) \<Longrightarrow> c < u"
  shows "dfs_pre st {v} s \<Longrightarrow> dfs_post st {v} s (build st v s)"
proof (induction v arbitrary: s rule: less_induct)
  case (less v)
  note pre = less.prems
  show ?case
  proof (cases "v \<in> fst s")
    case True
    with pre have "v \<in> set (snd s)"
      by (auto simp: dfs_pre_def)
    with True pre show ?thesis
      by (subst build.simps) (auto simp: dfs_post_def dfs_pre_def intro!: exI [of _ "[]"])
  next
    case False
    have fold: "dfs_pre st (set cs) s0 \<Longrightarrow>
        dfs_post st (set cs) s0 (foldlM (\<lambda>s' c. build st c s') s0 cs)"
      if "\<forall>c \<in> set cs. c < v" for cs s0
      using that
    proof (induction cs arbitrary: s0)
      case Nil
      then show ?case
        by (auto simp: dfs_post_def dfs_pre_def intro!: exI [of _ "[]"])
    next
      case (Cons c cs)
      have "dfs_pre st {c} s0"
        using Cons.prems(1) by (auto simp: dfs_pre_def)
      with Cons.prems(2) have "dfs_post st {c} s0 (build st c s0)"
        by (intro less.IH) simp
      then obtain n1 where b: "build st c s0 = Some (fst s0 \<union> set n1, snd s0 @ n1)"
        and po1: "post_order st (snd s0 @ n1)" and d1: "set n1 \<inter> fst s0 = {}"
        and c1: "c \<in> set (snd s0 @ n1)" and r1: "set n1 \<subseteq> reachable st c"
        by (auto simp: dfs_post_def)
      let ?s1 = "(fst s0 \<union> set n1, snd s0 @ n1)"
      have "dfs_pre st (set cs) ?s1"
        using Cons.prems(1) po1 by (auto simp: dfs_pre_def)
      with Cons.prems(2) have "dfs_post st (set cs) ?s1 (foldlM (\<lambda>s' c. build st c s') ?s1 cs)"
        by (intro Cons.IH) simp_all
      then obtain n2 where
        f: "foldlM (\<lambda>s' c. build st c s') ?s1 cs = Some (fst ?s1 \<union> set n2, snd ?s1 @ n2)"
        and po2: "post_order st (snd ?s1 @ n2)" and d2: "set n2 \<inter> fst ?s1 = {}"
        and c2: "set cs \<subseteq> set (snd ?s1 @ n2)"
        and r2: "set n2 \<subseteq> (\<Union>v \<in> set cs. reachable st v)"
        by (auto simp: dfs_post_def)
      show ?case
        unfolding dfs_post_def
      proof (intro exI [of _ "n1 @ n2"] conjI)
        show "foldlM (\<lambda>s' c. build st c s') s0 (c # cs) =
            Some (fst s0 \<union> set (n1 @ n2), snd s0 @ n1 @ n2)"
          using b f by (simp add: Un_assoc)
        show "post_order st (snd s0 @ n1 @ n2)"
          using po2 by simp
        show "set (n1 @ n2) \<inter> fst s0 = {}"
          using d1 d2 by auto
        show "set (c # cs) \<subseteq> set (snd s0 @ n1 @ n2)"
          using c1 c2 by auto
        show "set (n1 @ n2) \<subseteq> (\<Union>v \<in> set (c # cs). reachable st v)"
          using r1 r2 by auto
      qed
    qed
    let ?s0 = "(insert v (fst s), snd s)"
    let ?cs = "children_n (st v)"
    have "c < w" if "c \<in> set ?cs" "w \<in> fst ?s0 - set (snd ?s0)" for c w
    proof (cases "w = v")
      case True
      with that acyc show ?thesis by simp
    next
      case False
      with that pre have "v < w"
        by (auto simp: dfs_pre_def)
      moreover have "c < v"
        using that acyc by simp
      ultimately show ?thesis by simp
    qed
    then have "dfs_pre st (set ?cs) ?s0"
      using pre by (auto simp: dfs_pre_def)
    moreover have "\<forall>c \<in> set ?cs. c < v"
      using acyc by blast
    ultimately have "dfs_post st (set ?cs) ?s0 (foldlM (\<lambda>s' c. build st c s') ?s0 ?cs)"
      by (intro fold)
    then obtain new where
      f: "foldlM (\<lambda>s' c. build st c s') ?s0 ?cs = Some (fst ?s0 \<union> set new, snd ?s0 @ new)"
      and po: "post_order st (snd ?s0 @ new)" and d: "set new \<inter> fst ?s0 = {}"
      and c: "set ?cs \<subseteq> set (snd ?s0 @ new)"
      and r: "set new \<subseteq> (\<Union>c \<in> set ?cs. reachable st c)"
      by (auto simp: dfs_post_def)
    have vtopo: "v \<notin> set (snd s)"
      using False pre by (auto simp: dfs_pre_def)
    show ?thesis
      unfolding dfs_post_def
    proof (intro exI [of _ "new @ [v]"] conjI)
      show "build st v s = Some (fst s \<union> set (new @ [v]), snd s @ new @ [v])"
        using False f by (subst build.simps) (simp add: Un_commute insert_commute)
      show "post_order st (snd s @ new @ [v])"
        using po c d vtopo post_order_snoc [of st "snd s @ new" v] by auto
      show "set (new @ [v]) \<inter> fst s = {}"
        using d False by auto
      show "{v} \<subseteq> set (snd s @ new @ [v])"
        by simp
      show "set (new @ [v]) \<subseteq> (\<Union>v \<in> {v}. reachable st v)"
        using r by (auto intro: reachable_refl reachable_child)
    qed
  qed
qed

lemma pairs_sum_expand:
  fixes f :: "nat \<Rightarrow> real"
  assumes "finite A" "fst ` set es \<subseteq> A"
  shows "(\<Sum>(c, g)\<leftarrow>es. g * f c) = (\<Sum>x\<in>A. (\<Sum>(c, g)\<leftarrow>es. if c = x then g else 0) * f x)"
  using assms(2)
proof (induction es)
  case Nil
  then show ?case by simp
next
  case (Cons e es)
  obtain c g where e: "e = (c, g)" by (cases e)
  have cA: "c \<in> A" using Cons.prems e by simp
  have "(\<Sum>x\<in>A. (\<Sum>(c, g)\<leftarrow>e # es. if c = x then g else 0) * f x) =
      (\<Sum>x\<in>A. (if c = x then g else 0) * f x) + (\<Sum>x\<in>A. (\<Sum>(c, g)\<leftarrow>es. if c = x then g else 0) * f x)"
    by (simp add: e algebra_simps sum.distrib)
  also have "(\<Sum>x\<in>A. (if c = x then g else 0) * f x) = g * f c"
    using assms(1) cA by (simp add: if_distrib [of "\<lambda>y. y * _"] sum.delta' cong: if_cong)
  also have "(\<Sum>x\<in>A. (\<Sum>(c, g)\<leftarrow>es. if c = x then g else 0) * f x) = (\<Sum>(c, g)\<leftarrow>es. g * f c)"
    using Cons by simp
  finally show ?case by (simp add: e)
qed

lemma edges_sum_expand:
  assumes "acyclic_store st"
  shows "(\<Sum>(c, g)\<leftarrow>zip (children_n (st u)) (localGrads_n (st u)). g * f c) =
    (\<Sum>x<u. edge_sum st u x * f x)"
  unfolding edge_sum_def
proof (rule pairs_sum_expand)
  show "finite {..<u}" by simp
  show "fst ` set (zip (children_n (st u)) (localGrads_n (st u))) \<subseteq> {..<u}"
    using assms by (auto simp: acyclic_store_def dest!: set_zip_leftD)
qed

lemma edge_sum_zero:
  assumes "acyclic_store st" "u \<le> w"
  shows "edge_sum st u w = 0"
proof -
  have ne: "c \<noteq> w" if "c \<in> set (children_n (st u))" for c
    using assms that by (force simp: acyclic_store_def)
  have "(\<Sum>e\<leftarrow>zip (children_n (st u)) (localGrads_n (st u)).
        case e of (c, g) \<Rightarrow> if c = w then g else 0) =
      (\<Sum>e\<leftarrow>zip (children_n (st u)) (localGrads_n (st u)). 0)"
  proof (rule arg_cong [where f = sum_list], rule map_cong [OF refl])
    fix e assume "e \<in> set (zip (children_n (st u)) (localGrads_n (st u)))"
    then have "fst e \<in> set (children_n (st u))"
      by (metis prod.collapse set_zip_leftD)
    then have "fst e \<noteq> w"
      using ne by blast
    then show "(case e of (c, g) \<Rightarrow> if c = w then g else 0) = (0::real)"
      by (simp add: case_prod_beta)
  qed
  then show ?thesis
    by (simp add: edge_sum_def)
qed

lemma chain_rule_fuel:
  assumes "acyclic_store st"
  shows "u \<le> n \<Longrightarrow> chain_rule st n u v =
    (if u = v then 1 else (\<Sum>x<u. edge_sum st u x * chain_rule_derivative st x v))"
proof (induction u arbitrary: n rule: less_induct)
  case (less u)
  have kids: "c < u" if "c \<in> set (children_n (st u))" for c
    using assms that by (auto simp: acyclic_store_def)
  show ?case
  proof (cases n)
    case 0
    with less.prems have "u = 0" by simp
    then show ?thesis using 0 by simp
  next
    case (Suc m)
    have "(\<Sum>(c, g)\<leftarrow>zip (children_n (st u)) (localGrads_n (st u)). g * chain_rule st m c v) =
        (\<Sum>(c, g)\<leftarrow>zip (children_n (st u)) (localGrads_n (st u)). g * chain_rule_derivative st c v)"
    proof (rule arg_cong [where f = sum_list], rule map_cong [OF refl])
      fix e assume e: "e \<in> set (zip (children_n (st u)) (localGrads_n (st u)))"
      obtain c g where cg: "e = (c, g)" by (cases e)
      with e have "c < u" by (auto dest!: set_zip_leftD kids)
      then have "chain_rule st m c v = chain_rule st c c v"
        using less.prems Suc less.IH [of c m] less.IH [of c c] by simp
      then show "(case e of (c, g) \<Rightarrow> g * chain_rule st m c v) =
          (case e of (c, g) \<Rightarrow> g * chain_rule_derivative st c v)"
        by (simp add: cg chain_rule_derivative_def)
    qed
    then show ?thesis
      by (simp add: Suc edges_sum_expand [OF assms])
  qed
qed

lemma chain_rule_derivative_unfold:
  assumes "acyclic_store st"
  shows "chain_rule_derivative st u v =
    (if u = v then 1 else (\<Sum>x<u. edge_sum st u x * chain_rule_derivative st x v))"
  unfolding chain_rule_derivative_def [of st u v]
  by (rule chain_rule_fuel [OF assms]) simp

lemma chain_rule_derivative_above:
  assumes "acyclic_store st"
  shows "u < w \<Longrightarrow> chain_rule_derivative st u w = 0"
proof (induction u rule: less_induct)
  case (less u)
  have "chain_rule_derivative st x w = 0" if "x < u" for x
    using that less by simp
  then show ?case
    using less.prems by (subst chain_rule_derivative_unfold [OF assms]) simp
qed

lemma chain_rule_derivative_outside:
  assumes ac: "acyclic_store st"
    and closed: "\<And>x. x \<in> S \<Longrightarrow> set (children_n (st x)) \<subseteq> S"
    and w: "w \<notin> S"
  shows "u \<in> S \<Longrightarrow> chain_rule_derivative st u w = 0"
proof (induction u rule: less_induct)
  case (less u)
  have ne: "u \<noteq> w" using less.prems w by blast
  have term0: "edge_sum st u x * chain_rule_derivative st x w = 0" if "x < u" for x
  proof (cases "x \<in> set (children_n (st u))")
    case True
    then have "x \<in> S" using closed less.prems by blast
    then show ?thesis using less.IH that by simp
  next
    case False
    have "(\<Sum>e\<leftarrow>zip (children_n (st u)) (localGrads_n (st u)).
          case e of (c, g) \<Rightarrow> if c = x then g else 0) =
        (\<Sum>e\<leftarrow>zip (children_n (st u)) (localGrads_n (st u)). 0)"
    proof (rule arg_cong [where f = sum_list], rule map_cong [OF refl])
      fix e assume "e \<in> set (zip (children_n (st u)) (localGrads_n (st u)))"
      then have "fst e \<in> set (children_n (st u))"
        by (metis prod.collapse set_zip_leftD)
      then have "fst e \<noteq> x"
        using False by blast
      then show "(case e of (c, g) \<Rightarrow> if c = x then g else 0) = (0::real)"
        by (simp add: case_prod_beta)
    qed
    then show ?thesis by (simp add: edge_sum_def)
  qed
  have "(\<Sum>x<u. edge_sum st u x * chain_rule_derivative st x w) = 0"
    by (intro sum.neutral ballI term0) simp
  then show ?case
    using ne by (subst chain_rule_derivative_unfold [OF ac]) simp
qed

text \<open>The adjoint form of the chain rule: the derivative summed over the nodes that use \<open>w\<close>.\<close>

lemma chain_rule_adjoint:
  assumes ac: "acyclic_store st"
  shows "chain_rule_derivative st out w =
    (if w = out then 1 else 0)
      + (\<Sum>u\<le>out. edge_sum st u w * chain_rule_derivative st out u)"
proof (induction out arbitrary: w rule: less_induct)
  case (less out)
  let ?D = "chain_rule_derivative st"
  let ?E = "edge_sum st"
  have unfold_lt: "?D out u = (\<Sum>c<out. ?E out c * ?D c u)" if "u < out" for u
    using that by (subst chain_rule_derivative_unfold [OF ac]) simp
  have inner: "(\<Sum>u<out. ?E u w * ?D c u) = ?D c w - (if w = c then 1 else 0)"
    if c: "c < out" for c
  proof -
    have "(\<Sum>u<out. ?E u w * ?D c u) = (\<Sum>u\<le>c. ?E u w * ?D c u)"
    proof (rule sum.mono_neutral_right)
      show "finite {..<out}" by simp
      show "{..c} \<subseteq> {..<out}" using c by auto
      show "\<forall>u \<in> {..<out} - {..c}. ?E u w * ?D c u = 0"
        using chain_rule_derivative_above [OF ac] by auto
    qed
    then show ?thesis
      using less.IH [OF c, of w] by simp
  qed
  have "(\<Sum>u\<le>out. ?E u w * ?D out u) = ?E out w * ?D out out + (\<Sum>u<out. ?E u w * ?D out u)"
    by (simp add: lessThan_Suc_atMost [symmetric] add.commute)
  also have "?D out out = 1"
    by (subst chain_rule_derivative_unfold [OF ac]) simp
  also have "(\<Sum>u<out. ?E u w * ?D out u) = (\<Sum>u<out. ?E u w * (\<Sum>c<out. ?E out c * ?D c u))"
    by (intro sum.cong refl) (simp add: unfold_lt)
  also have "\<dots> = (\<Sum>u<out. \<Sum>c<out. ?E out c * (?E u w * ?D c u))"
    by (simp add: sum_distrib_left mult_ac)
  also have "\<dots> = (\<Sum>c<out. \<Sum>u<out. ?E out c * (?E u w * ?D c u))"
    by (rule sum.swap)
  also have "\<dots> = (\<Sum>c<out. ?E out c * (\<Sum>u<out. ?E u w * ?D c u))"
    by (simp add: sum_distrib_left)
  also have "\<dots> = (\<Sum>c<out. ?E out c * (?D c w - (if w = c then 1 else 0)))"
    by (intro sum.cong refl) (simp add: inner)
  also have "\<dots> = (\<Sum>c<out. ?E out c * ?D c w) - (\<Sum>c<out. ?E out c * (if w = c then 1 else 0))"
    by (simp add: right_diff_distrib sum_subtractf)
  also have "(\<Sum>c<out. ?E out c * (if w = c then 1 else 0)) = (if w < out then ?E out w else 0)"
    by (simp add: if_distrib [of "\<lambda>y. _ * y"] sum.delta cong: if_cong)
  also have "\<dots> = ?E out w"
    using edge_sum_zero [OF ac, of out w] by simp
  finally have sum_eq: "(\<Sum>u\<le>out. ?E u w * ?D out u) = (\<Sum>c<out. ?E out c * ?D c w)"
    by simp
  show ?case
  proof (cases "w = out")
    case True
    have "(\<Sum>c<out. ?E out c * ?D c out) = 0"
      using chain_rule_derivative_above [OF ac] by simp
    then show ?thesis
      using True sum_eq by (subst chain_rule_derivative_unfold [OF ac]) simp
  next
    case False
    then show ?thesis
      unfolding sum_eq by (subst chain_rule_derivative_unfold [OF ac]) auto
  qed
qed

lemma edge_sum_not_child:
  assumes "w \<notin> set (children_n (st u))"
  shows "edge_sum st u w = 0"
proof -
  have "(\<Sum>e\<leftarrow>zip (children_n (st u)) (localGrads_n (st u)).
        case e of (c, g) \<Rightarrow> if c = w then g else 0) =
      (\<Sum>e\<leftarrow>zip (children_n (st u)) (localGrads_n (st u)). 0)"
  proof (rule arg_cong [where f = sum_list], rule map_cong [OF refl])
    fix e assume "e \<in> set (zip (children_n (st u)) (localGrads_n (st u)))"
    then have "fst e \<in> set (children_n (st u))"
      by (metis prod.collapse set_zip_leftD)
    then have "fst e \<noteq> w"
      using assms by blast
    then show "(case e of (c, g) \<Rightarrow> if c = w then g else 0) = (0::real)"
      by (simp add: case_prod_beta)
  qed
  then show ?thesis
    by (simp add: edge_sum_def)
qed

lemma distribute_fold:
  assumes "\<forall>(c, j) \<in> set ps. c \<noteq> v \<and> j < length lgs"
    and "localGrads_n (s v) = lgs" and "grad (s v) = G"
  shows "foldlM (\<lambda>s (child, j). do {
         lg \<leftarrow> idx (localGrads_n (s v)) j;
         Some (s(child := (s child)\<lparr>grad := grad (s child) + lg * grad (s v)\<rparr>))
       }) s ps =
     Some (\<lambda>w. (s w)\<lparr>grad := grad (s w) + (\<Sum>(c, j)\<leftarrow>ps. if c = w then lgs ! j else 0) * G\<rparr>)"
  using assms
proof (induction ps arbitrary: s)
  case Nil
  then show ?case by simp
next
  case (Cons p ps)
  obtain c j where p: "p = (c, j)" by (cases p)
  with Cons.prems have c: "c \<noteq> v" and j: "j < length lgs" by auto
  let ?s1 = "s(c := (s c)\<lparr>grad := grad (s c) + lgs ! j * G\<rparr>)"
  have s1v: "?s1 v = s v" using c by simp
  have IH: "foldlM (\<lambda>s (child, j). do {
         lg \<leftarrow> idx (localGrads_n (s v)) j;
         Some (s(child := (s child)\<lparr>grad := grad (s child) + lg * grad (s v)\<rparr>))
       }) ?s1 ps =
     Some (\<lambda>w. (?s1 w)\<lparr>grad := grad (?s1 w) + (\<Sum>(c, j)\<leftarrow>ps. if c = w then lgs ! j else 0) * G\<rparr>)"
  proof (rule Cons.IH)
    show "\<forall>(c, j) \<in> set ps. c \<noteq> v \<and> j < length lgs"
      using Cons.prems(1) by simp
    show "localGrads_n (?s1 v) = lgs"
      using Cons.prems(2) by (simp add: s1v del: fun_upd_apply)
    show "grad (?s1 v) = G"
      using Cons.prems(3) by (simp add: s1v del: fun_upd_apply)
  qed
  have eq: "(\<lambda>w. (?s1 w)\<lparr>grad := grad (?s1 w) + (\<Sum>(c, j)\<leftarrow>ps. if c = w then lgs ! j else 0) * G\<rparr>) =
      (\<lambda>w. (s w)\<lparr>grad := grad (s w) + (\<Sum>(c, j)\<leftarrow>p # ps. if c = w then lgs ! j else 0) * G\<rparr>)"
    by (rule ext) (simp add: p algebra_simps)
  have "idx (localGrads_n (s v)) j = Some (lgs ! j)"
    using Cons.prems(2) j by (simp add: idx_def)
  then have "foldlM (\<lambda>s (child, j). do {
         lg \<leftarrow> idx (localGrads_n (s v)) j;
         Some (s(child := (s child)\<lparr>grad := grad (s child) + lg * grad (s v)\<rparr>))
       }) s (p # ps) =
     foldlM (\<lambda>s (child, j). do {
         lg \<leftarrow> idx (localGrads_n (s v)) j;
         Some (s(child := (s child)\<lparr>grad := grad (s child) + lg * grad (s v)\<rparr>))
       }) ?s1 ps"
    by (simp add: p Cons.prems(3))
  also note IH
  also note eq
  finally show ?case .
qed

lemma enum_nth_sum:
  assumes "length lgs = length cs"
  shows "(\<Sum>(c, j)\<leftarrow>enum cs. F c (lgs ! j)) = (\<Sum>(c, g)\<leftarrow>zip cs lgs. F c g)"
proof -
  have "zip cs lgs = zip cs (map (nth lgs) [0..<length cs])"
    by (simp add: assms [symmetric] map_nth)
  also have "\<dots> = map (\<lambda>(c, j). (c, lgs ! j)) (enum cs)"
    by (simp add: enum_def zip_map2)
  finally have "map (\<lambda>(c, g). F c g) (zip cs lgs) = map (\<lambda>(c, j). F c (lgs ! j)) (enum cs)"
    by (simp add: case_prod_beta)
  then show ?thesis by simp
qed

lemma distribute_spec:
  assumes "v \<notin> set (children_n (s v))"
    and "length (localGrads_n (s v)) = length (children_n (s v))"
  shows "distribute v s =
    Some (\<lambda>w. (s w)\<lparr>grad := grad (s w) + edge_sum s v w * grad (s v)\<rparr>)"
proof -
  have "\<forall>(c, j) \<in> set (enum (children_n (s v))). c \<noteq> v \<and> j < length (localGrads_n (s v))"
    using assms by (auto simp: enum_def dest: set_zip_leftD set_zip_rightD)
  then have "distribute v s =
      Some (\<lambda>w. (s w)\<lparr>grad := grad (s w)
        + (\<Sum>(c, j)\<leftarrow>enum (children_n (s v)). if c = w then localGrads_n (s v) ! j else 0)
          * grad (s v)\<rparr>)"
    unfolding distribute_def by (intro distribute_fold) simp_all
  moreover have "(\<Sum>(c, j)\<leftarrow>enum (children_n (s v)). if c = w then localGrads_n (s v) ! j else 0)
      = edge_sum s v w" for w
    unfolding edge_sum_def using assms(2) by (rule enum_nth_sum)
  ultimately show ?thesis by simp
qed

lemma post_order_closed:
  assumes "post_order st topo" "x \<in> set topo"
  shows "set (children_n (st x)) \<subseteq> set topo"
proof -
  from assms(2) obtain i where "i < length topo" "topo ! i = x"
    by (auto simp: in_set_conv_nth)
  with assms(1) show ?thesis
    by (auto simp: post_order_def dest: in_set_takeD)
qed

lemma post_order_not_child:
  assumes po: "post_order st (f @ u # bk)" and x: "x \<in> set (f @ [u])"
  shows "u \<notin> set (children_n (st x))"
proof
  assume ch: "u \<in> set (children_n (st x))"
  from x obtain i where i: "i < length (f @ [u])" "(f @ [u]) ! i = x"
    by (metis in_set_conv_nth)
  then have xi: "(f @ u # bk) ! i = x"
    by (auto simp: nth_append less_Suc_eq)
  have "i < length (f @ u # bk)" using i by simp
  with po ch xi have "u \<in> set (take i (f @ u # bk))"
    by (auto simp: post_order_def)
  moreover have "i \<le> length f" using i by simp
  ultimately have "u \<in> set f"
    by (auto simp: take_append dest: in_set_takeD)
  with po show False
    by (simp add: post_order_def)
qed

lemma accumulate:
  fixes D :: "nat \<Rightarrow> real"
  assumes len: "\<And>u. length (localGrads_n (st u)) = length (children_n (st u))"
    and adj: "\<And>w. D w = (if w = out then 1 else 0)
        + (\<Sum>u \<in> set (fr @ bk). edge_sum st u w * D u)"
  shows "post_order st (fr @ bk) \<Longrightarrow>
    foldlM (\<lambda>s v. distribute v s)
      (\<lambda>w. (st w)\<lparr>grad := (if w = out then 1 else 0)
          + (\<Sum>u \<in> set bk. edge_sum st u w * D u)\<rparr>) (rev fr) =
    Some (\<lambda>w. (st w)\<lparr>grad := D w\<rparr>)"
  using adj
proof (induction fr arbitrary: bk rule: rev_induct)
  case Nil
  have "(if w = out then 1 else 0) + (\<Sum>u \<in> set bk. edge_sum st u w * D u) = D w" for w
    using Nil.prems(2) [of w] by (simp only: append_Nil)
  then show ?case
    by (simp only: rev.simps foldlM.simps)
next
  case (snoc u f)
  let ?F = "\<lambda>B w. (if w = out then 1 else 0) + (\<Sum>x \<in> set B. edge_sum st x w * D x)"
  let ?s = "\<lambda>w. (st w)\<lparr>grad := ?F bk w\<rparr>"
  have po: "post_order st (f @ u # bk)"
    using snoc.prems(1) by simp
  have adj': "D w = ?F (f @ u # bk) w" for w
    using snoc.prems(2) [of w] by simp
  have zero: "edge_sum st x u = 0" if "x \<in> set (f @ [u])" for x
    using post_order_not_child [OF po that] by (rule edge_sum_not_child)
  have "(\<Sum>x \<in> set (f @ u # bk). edge_sum st x u * D x) = (\<Sum>x \<in> set bk. edge_sum st x u * D x)"
  proof (rule sum.mono_neutral_right)
    show "\<forall>x \<in> set (f @ u # bk) - set bk. edge_sum st x u * D x = 0"
      using zero by auto
  qed auto
  then have "?F bk u = ?F (f @ u # bk) u"
    by (simp only:)
  then have gu: "grad (?s u) = D u"
    by (simp only: adj' [of u, symmetric]) simp
  have "u \<notin> set (children_n (st u))"
    using post_order_not_child [OF po, of u] by simp
  then have "distribute u ?s =
      Some (\<lambda>w. (?s w)\<lparr>grad := grad (?s w) + edge_sum ?s u w * grad (?s u)\<rparr>)"
    by (intro distribute_spec) (simp_all add: len)
  moreover have "edge_sum ?s u w = edge_sum st u w" for w
    by (simp add: edge_sum_def)
  moreover have "u \<notin> set bk"
    using po by (simp add: post_order_def)
  ultimately have step: "distribute u ?s = Some (\<lambda>w. (st w)\<lparr>grad := ?F (u # bk) w\<rparr>)"
    unfolding gu by (simp add: algebra_simps)
  have "foldlM (\<lambda>s v. distribute v s) (\<lambda>w. (st w)\<lparr>grad := ?F (u # bk) w\<rparr>) (rev f) =
      Some (\<lambda>w. (st w)\<lparr>grad := D w\<rparr>)"
  proof (rule snoc.IH)
    show "post_order st (f @ u # bk)" by (rule po)
    show "D w = (if w = out then 1 else 0)
        + (\<Sum>x \<in> set (f @ u # bk). edge_sum st x w * D x)" for w
      by (rule adj')
  qed
  then show ?case
    using step by simp
qed

lemma constructed_acyclic: "constructed st \<Longrightarrow> acyclic_store st"
  by (simp add: constructed_def acyclic_store_def)

lemma reachable_closed_subset:
  assumes closed: "\<And>x. x \<in> S \<Longrightarrow> set (children_n (st x)) \<subseteq> S" and "out \<in> S"
  shows "reachable st out \<subseteq> S"
proof
  fix v assume "v \<in> reachable st out"
  then have "(out, v) \<in> {(u, c). c \<in> set (children_n (st u))}\<^sup>*"
    by (simp add: reachable_def)
  then show "v \<in> S"
    by (induction rule: rtrancl_induct) (use assms in auto)
qed

text \<open>
  Claim C1. On the store of a constructed graph in which every \<^verbatim>\<open>grad\<close> is \<open>0\<close>,
  \<^verbatim>\<open>backward\<close> on \<open>out\<close> returns. Its traversal lists the nodes reachable from \<open>out\<close>, each
  once, in post-order. Afterwards the \<^verbatim>\<open>grad\<close> of every node is the derivative of \<open>out\<close> in
  that node by the chain rule over the recorded local gradients (the sum over all paths,
  so a node used twice receives both contributions), nothing else in the store has
  changed, and a node that is not reachable keeps the \<^verbatim>\<open>grad\<close> \<open>0\<close>.
\<close>

theorem backward_computes_chain_rule:
  assumes "constructed st" and "\<forall>v. grad (st v) = 0"
  shows "\<exists>topo st'. build st out ({}, []) = Some (set topo, topo)
    \<and> post_order st topo \<and> set topo = reachable st out
    \<and> backward st out = Some st'
    \<and> (\<forall>v. st' v = (st v)\<lparr>grad := chain_rule_derivative st out v\<rparr>)
    \<and> (\<forall>v. v \<notin> reachable st out \<longrightarrow> grad (st' v) = 0)"
proof -
  have ac: "acyclic_store st"
    using assms(1) by (rule constructed_acyclic)
  have len: "length (localGrads_n (st u)) = length (children_n (st u))" for u
    using assms(1) by (simp add: constructed_def)
  let ?D = "chain_rule_derivative st out"
  have "dfs_pre st {out} ({}, [])"
    by (simp add: dfs_pre_def post_order_Nil)
  then have "dfs_post st {out} ({}, []) (build st out ({}, []))"
    using ac by (intro build_spec) (auto simp: acyclic_store_def)
  then obtain topo where b: "build st out ({}, []) = Some (set topo, topo)"
    and po: "post_order st topo" and mem: "out \<in> set topo"
    and sub: "set topo \<subseteq> reachable st out"
    by (auto simp: dfs_post_def)
  have closed: "set (children_n (st x)) \<subseteq> set topo" if "x \<in> set topo" for x
    using po that by (rule post_order_closed)
  have reach: "set topo = reachable st out"
    using sub reachable_closed_subset [of "set topo" st out] closed mem by blast
  have adj: "?D w = (if w = out then 1 else 0) + (\<Sum>u \<in> set (topo @ []). edge_sum st u w * ?D u)"
    for w
  proof -
    have "(\<Sum>u\<le>out. edge_sum st u w * ?D u) = (\<Sum>u \<in> set topo. edge_sum st u w * ?D u)"
    proof (rule sum.mono_neutral_cong)
      show "finite (set topo)" "finite {..out}" by simp_all
      show "edge_sum st u w * ?D u = 0" if "u \<in> set topo - {..out}" for u
        using that chain_rule_derivative_above [OF ac, of out u] by simp
      show "edge_sum st u w * ?D u = 0" if "u \<in> {..out} - set topo" for u
        using that chain_rule_derivative_outside [OF ac, of "set topo" u out] closed mem
        by simp
    qed simp
    then show ?thesis
      using chain_rule_adjoint [OF ac, of out w] by simp
  qed
  have "foldlM (\<lambda>s v. distribute v s)
      (\<lambda>w. (st w)\<lparr>grad := (if w = out then 1 else 0)
          + (\<Sum>u \<in> set []. edge_sum st u w * ?D u)\<rparr>) (rev topo) =
      Some (\<lambda>w. (st w)\<lparr>grad := ?D w\<rparr>)"
    using len adj by (rule accumulate [where bk = "[]" and fr = topo]) (simp add: po)
  moreover have "(\<lambda>w. (st w)\<lparr>grad := (if w = out then 1 else 0)
          + (\<Sum>u \<in> set []. edge_sum st u w * ?D u)\<rparr>) = st(out := (st out)\<lparr>grad := 1\<rparr>)"
    using assms(2) by (auto simp: fun_eq_iff)
  ultimately have bw: "backward st out = Some (\<lambda>w. (st w)\<lparr>grad := ?D w\<rparr>)"
    using b by (simp add: backward_def)
  have "?D v = 0" if "v \<notin> reachable st out" for v
    using that chain_rule_derivative_outside [OF ac, of "set topo" v out] closed mem reach
    by simp
  then show ?thesis
    using b po reach bw by auto
qed

lemma ex_store_constructed: "constructed ex_store"
  by (simp add: constructed_def ex_store_def)

theorem backward_computes_chain_rule_witness:
  "\<exists>st'. backward ex_store 3 = Some st' \<and> grad (st' 0) = 4 \<and> grad (st' 1) = 2
     \<and> grad (st' 2) = 1 \<and> grad (st' 3) = 1 \<and> grad (st' 4) = 0"
proof -
  have "\<forall>v. grad (ex_store v) = 0"
    by (simp add: ex_store_def)
  from backward_computes_chain_rule [OF ex_store_constructed this, of 3]
  obtain st' where "backward ex_store 3 = Some st'"
    and "\<forall>v. st' v = (ex_store v)\<lparr>grad := chain_rule_derivative ex_store 3 v\<rparr>"
    by blast
  moreover have "chain_rule_derivative ex_store 3 0 = 4" "chain_rule_derivative ex_store 3 1 = 2"
    "chain_rule_derivative ex_store 3 2 = 1" "chain_rule_derivative ex_store 3 3 = 1"
    "chain_rule_derivative ex_store 3 4 = 0"
    by (simp_all add: chain_rule_derivative_def ex_store_def eval_nat_numeral)
  ultimately show ?thesis by simp
qed

section \<open>\<^verbatim>\<open>load\<close> checks no length\<close>

lemma imap_index_only: "imap (\<lambda>v i. g i) xs = map g [0..<length xs]"
proof -
  have "imap (\<lambda>v i. g i) xs = map (\<lambda>p. g (snd p)) (zip xs [0..<length xs])"
    by (simp add: imap_def case_prod_unfold)
  also have "\<dots> = map g (map snd (zip xs [0..<length xs]))"
    by (simp only: map_map comp_def)
  also have "map snd (zip xs [0..<length xs]) = [0..<length xs]"
    by (rule map_snd_zip) simp
  finally show ?thesis .
qed

text \<open>
  Claim C9, as amended: \<^verbatim>\<open>load\<close> compares no lengths. It fails only when the byte length
  of the file is no multiple of \<open>8\<close>, with the \<^verbatim>\<open>RangeError\<close> of the typed array. Otherwise
  it succeeds: parameter \<open>i\<close> receives the \<open>i\<close>-th double of the file when the file has
  one and \<^verbatim>\<open>undefined\<close> when it has not, and the doubles past the last parameter are
  never read.
\<close>

theorem load_compares_no_lengths:
  "load decode params bytes =
     (if length bytes mod 8 \<noteq> 0 then Inl RangeError
      else Inr (map (\<lambda>i.
        if i < length bytes div 8
        then (case decode (take 8 (drop (8 * i) bytes)) of None \<Rightarrow> NotReal | Some d \<Rightarrow> Number d)
        else Undefined) [0..<length params]))"
proof (cases "length bytes mod 8 = 0")
  case False
  then show ?thesis
    by (simp add: load_def Float64Array_def)
next
  case True
  have "(case idx (map (\<lambda>i. decode (take 8 (drop (8 * i) bytes))) [0..<length bytes div 8]) i of
          None \<Rightarrow> Undefined | Some None \<Rightarrow> NotReal | Some (Some d) \<Rightarrow> Number d) =
        (if i < length bytes div 8
         then (case decode (take 8 (drop (8 * i) bytes)) of None \<Rightarrow> NotReal | Some d \<Rightarrow> Number d)
         else Undefined)" for i
    by (simp add: idx_def)
  then show ?thesis
    using True by (simp add: load_def Float64Array_def imap_index_only)
qed

theorem load_compares_no_lengths_witness:
  "load (\<lambda>bs. Some 1) [Value 0 [] [], Value 0 [] [], Value 0 [] []] (replicate 8 0) =
     Inr [Number 1, Undefined, Undefined]"
  by (simp add: load_compares_no_lengths upt_rec)

theorem load_mismatch_counterexample:
  "load (\<lambda>bs. Some 1) [Value 0 [] []] (replicate 16 0) = Inr [Number 1]
   \<and> load (\<lambda>bs. Some 1) [Value 0 [] [], Value 0 [] []] (replicate 8 0) = Inr [Number 1, Undefined]"
  by (simp add: load_def Float64Array_def imap_def idx_def upt_rec)

section \<open>The latent cache of Variant C\<close>



section \<open>Grouped-query attention of Variant B\<close>

lemma softmax_data:
  assumes "logits \<noteq> []"
  shows "\<exists>ps. softmax logits = Some ps
    \<and> map data ps = map (\<lambda>d. exp (d - Max (set (map data logits)))
          * (1 / (\<Sum>d\<leftarrow>map data logits. exp (d - Max (set (map data logits))))))
        (map data logits)"
proof -
  obtain inv where sm: "softmax logits =
      Some (map (\<lambda>v. mul (exp_v (sub v (N (Max (set (map data logits)))))) (V inv)) logits)"
    and inv: "data inv = 1 / (\<Sum>d\<leftarrow>map data logits. exp (d - Max (set (map data logits))))"
    using softmax_shape [OF assms] by blast
  show ?thesis
    unfolding sm using inv by (simp add: exp_v_def Let_def comp_def)
qed

lemma softmax_data_cong:
  assumes "map data a = map data b" and "a \<noteq> []"
    and "softmax a = Some pa" and "softmax b = Some pb"
  shows "map data pa = map data pb"
proof -
  have "b \<noteq> []"
    using assms(1,2) by (metis map_is_Nil_conv)
  then show ?thesis
    using softmax_data [OF assms(2)] softmax_data [of b] assms(1,3,4) by auto
qed

lemma slice_whole: "length xs = n \<Longrightarrow> slice xs 0 n = xs"
  by (simp add: slice_def)

lemma kv_head_idx_whole:
  assumes "n_rep config = real r" and "0 < r"
  shows "kv_head_idx config h = int (h div r)"
  using assms by (simp add: kv_head_idx_def floor_divide_of_nat_eq)

lemma div_eq_iff_block:
  assumes "0 < (r::nat)"
  shows "h div r = g \<longleftrightarrow> g * r \<le> h \<and> h < g * r + r"
proof
  assume "h div r = g"
  then show "g * r \<le> h \<and> h < g * r + r"
    using assms dividend_less_div_times [of r h] div_times_less_eq_dividend [of h r]
    by (auto simp: ac_simps)
next
  assume "g * r \<le> h \<and> h < g * r + r"
  then show "h div r = g"
    by (intro div_nat_eqI) (simp_all add: ac_simps)
qed

text \<open>
  One query head on a cache of entries of \<^verbatim>\<open>n_kv_head\<close> heads each: the key/value head it
  reads, its logits, its weights and its result.
\<close>

lemma llama_head_group:
  assumes "llama_config_ok config" and "h < n_head config"
    and "length q_heads = n_head config" and "length (q_heads ! h) = head_dim config"
    and "ks \<noteq> []" and "\<forall>e \<in> set ks. heads_entry config e"
    and "length vs = length ks" and "\<forall>e \<in> set vs. heads_entry config e"
  shows "\<exists>g logits weights head_out.
      kv_head_idx config h = int g \<and> g < n_kv_head config
    \<and> (n_rep config = real (n_head config) / real (n_kv_head config) \<longrightarrow>
          int g = \<lfloor>real h / (real (n_head config) / real (n_kv_head config))\<rfloor>
        \<and> (\<forall>r. 0 < r \<and> n_head config = r * n_kv_head config \<longrightarrow>
              (\<forall>h'. kv_head_idx config h' = int g \<longleftrightarrow> g * r \<le> h' \<and> h' < g * r + r)))
    \<and> map (kv_head config h) ks = map (\<lambda>k_t. Some (k_t ! g)) ks
    \<and> map (kv_head config h) vs = map (\<lambda>v_t. Some (v_t ! g)) vs
    \<and> llama_logits config (q_heads ! h) (map (kv_head config h) ks) = Some logits
    \<and> length logits = length ks
    \<and> (\<forall>t < length ks.
          scaled_dot (head_dim config) (q_heads ! h) (ks ! t ! g) = Some (logits ! t)
        \<and> data (logits ! t) =
            (\<Sum>j\<leftarrow>[0..<head_dim config]. data (q_heads ! h ! j) * data (ks ! t ! g ! j))
            / sqrt (real (head_dim config)))
    \<and> softmax logits = Some weights
    \<and> llama_head_out config weights (map (kv_head config h) vs) = Some head_out
    \<and> llama_head config q_heads ks vs x_attn h = Some (x_attn @ head_out)
    \<and> length head_out = head_dim config
    \<and> (\<forall>j < head_dim config. data (head_out ! j) =
          (\<Sum>t\<leftarrow>[0..<length ks]. data (weights ! t) * data (vs ! t ! g ! j)))
    \<and> (head_dim config = head_dim gpt_config \<longrightarrow>
          (\<exists>out_a. gpt_head (q_heads ! h) (map (\<lambda>k_t. k_t ! g) ks) (map (\<lambda>v_t. v_t ! g) vs)
                x_attn 0 = Some (x_attn @ out_a)
             \<and> map data out_a = map data head_out))"
proof -
  let ?d = "head_dim config"
  have ksok: "heads_entry config e" if "e \<in> set ks" for e
    using that assms(6) by simp
  have vsok: "heads_entry config e" if "e \<in> set vs" for e
    using that assms(8) by simp
  have pos: "0 < n_rep config"
    using assms(1) by (simp add: llama_config_ok_def)
  then have "0 \<le> kv_head_idx config h"
    by (simp add: kv_head_idx_def)
  then obtain g where g: "kv_head_idx config h = int g"
    using nonneg_int_cases by blast
  have sel: "kv_head config h e = Some (e ! g)" "length (e ! g) = ?d"
    if "heads_entry config e" for e
    using kv_head_Some [OF assms(1,2) that] by (simp_all add: g)
  have kvpos: "0 < n_kv_head config"
  proof (rule ccontr)
    assume "\<not> 0 < n_kv_head config"
    then show False
      using assms(1,2) by (simp add: llama_config_ok_def)
  qed
  obtain e0 where "e0 \<in> set ks" using assms(5) by (cases ks) auto
  then have e0: "heads_entry config e0" by (rule ksok)
  have "nat (kv_head_idx config h) < length e0"
  proof (rule ccontr)
    assume "\<not> nat (kv_head_idx config h) < length e0"
    then have "idx e0 (nat (kv_head_idx config h)) = None"
      by (simp add: idx_def)
    then show False
      using kv_head_Some(1) [OF assms(1,2) e0] pos \<open>0 \<le> kv_head_idx config h\<close>
      by (simp add: kv_head_def)
  qed
  then have glt: "g < n_kv_head config"
    using e0 by (simp add: g heads_entry_def)
  have idx_claim: "int g = \<lfloor>real h / (real (n_head config) / real (n_kv_head config))\<rfloor>
      \<and> (\<forall>r. 0 < r \<and> n_head config = r * n_kv_head config \<longrightarrow>
            (\<forall>h'. kv_head_idx config h' = int g \<longleftrightarrow> g * r \<le> h' \<and> h' < g * r + r))"
    if rep: "n_rep config = real (n_head config) / real (n_kv_head config)"
  proof (intro conjI allI impI)
    show "int g = \<lfloor>real h / (real (n_head config) / real (n_kv_head config))\<rfloor>"
      using g rep by (simp add: kv_head_idx_def)
  next
    fix r h' assume r: "0 < r \<and> n_head config = r * n_kv_head config"
    then have "n_rep config = real r"
      using rep kvpos by simp
    then have "kv_head_idx config h' = int (h' div r)"
      using r by (intro kv_head_idx_whole) simp_all
    then show "kv_head_idx config h' = int g \<longleftrightarrow> g * r \<le> h' \<and> h' < g * r + r"
      using r div_eq_iff_block [of r h' g] by simp
  qed
  have mk: "map (kv_head config h) ks = map (\<lambda>k_t. Some (k_t ! g)) ks"
    using sel(1) ksok by (intro map_cong refl) simp
  have mv: "map (kv_head config h) vs = map (\<lambda>v_t. Some (v_t ! g)) vs"
    using sel(1) vsok by (intro map_cong refl) simp
  obtain logits where lg: "llama_logits config (q_heads ! h) (map (kv_head config h) ks) = Some logits"
      "length logits = length ks"
      "\<forall>t < length ks.
          scaled_dot ?d (q_heads ! h) (ks ! t ! nat (kv_head_idx config h)) = Some (logits ! t)
          \<and> data (logits ! t) =
              (\<Sum>j\<leftarrow>[0..<?d]. data (q_heads ! h ! j) * data (ks ! t ! nat (kv_head_idx config h) ! j))
              / sqrt (real ?d)"
    using llama_logits_Some [of config h "q_heads ! h" ks, OF assms(1,2,4) ksok] by blast
  obtain logits' weights ho where hd:
      "llama_logits config (q_heads ! h) (map (kv_head config h) ks) = Some logits'"
      "softmax logits' = Some weights"
      "llama_head config q_heads ks vs x_attn h = Some (x_attn @ ho)"
      "length ho = ?d"
      "\<forall>j < ?d. data (ho ! j) =
          (\<Sum>t\<leftarrow>[0..<length ks]. data (weights ! t) * data (vs ! t ! nat (kv_head_idx config h) ! j))"
    using llama_head_Some [of config h q_heads ks vs x_attn,
        OF assms(1,2,3,4,5) ksok assms(7) vsok]
    by blast
  have eq: "logits' = logits"
    using lg(1) hd(1) by simp
  have sm: "softmax logits = Some weights"
    using hd(2) eq by simp
  have lne: "logits \<noteq> []"
    using lg(2) assms(5) by auto
  have lw: "length weights = length vs"
    using softmax_Some [OF lne] sm lg(2) assms(7) by auto
  obtain ho' where out: "llama_head_out config weights (map (kv_head config h) vs) = Some ho'"
    using llama_head_out_Some [of config h weights vs, OF assms(1,2) lw vsok] by blast
  have ho_eq: "ho' = ho"
    using hd(3) lg(1) sm out assms(2,3) by (simp add: llama_head_def idx_def)
  have same: "\<exists>out_a. gpt_head (q_heads ! h) (map (\<lambda>k_t. k_t ! g) ks) (map (\<lambda>v_t. v_t ! g) vs)
                x_attn 0 = Some (x_attn @ out_a)
             \<and> map data out_a = map data ho"
    if d4: "?d = head_dim gpt_config"
  proof -
    let ?q = "q_heads ! h" and ?ks = "map (\<lambda>k_t. k_t ! g) ks" and ?vs = "map (\<lambda>v_t. v_t ! g) vs"
    have d: "?d = 4" using d4 by simp
    have lq: "length ?q = 4" using assms(4) d by simp
    have lk: "length k = 4" if "k \<in> set ?ks" for k
      using that sel(2) ksok d by auto
    have lv: "length v = 4" if "v \<in> set ?vs" for v
      using that sel(2) vsok d by auto
    have sq: "slice ?q (0 * 4) (0 * 4 + 4) = ?q"
      using lq by (simp add: slice_whole)
    have sk: "map (\<lambda>kk. slice kk (0 * 4) (0 * 4 + 4)) ?ks = ?ks"
      using lk by (intro map_idI) (simp add: slice_whole)
    obtain logits_a weights_a out_a where a:
        "gpt_logits (slice ?q (0 * 4) (0 * 4 + 4)) (map (\<lambda>kk. slice kk (0 * 4) (0 * 4 + 4)) ?ks)
          = Some logits_a"
        "length logits_a = length ?ks"
        "softmax logits_a = Some weights_a"
        "gpt_head ?q ?ks ?vs x_attn 0 = Some (x_attn @ out_a)" "length out_a = 4"
        "\<forall>j < 4. data (out_a ! j) =
          (\<Sum>t\<leftarrow>[0..<length ?ks]. data (weights_a ! t) * data (?vs ! t ! (0 * 4 + j)))"
      using gpt_head_Some [of 0 ?q ?ks ?vs x_attn] lq lk lv assms(5,7)
      by auto
    have "?q \<noteq> []" using lq by auto
    then obtain ls where ls: "gpt_logits ?q ?ks = Some ls"
        "\<forall>t < length ?ks. data (ls ! t) =
          (\<Sum>j\<leftarrow>[0..<length ?q]. data (?q ! j) * data (?ks ! t ! j)) / 2"
      using gpt_logits_Some [of ?q ?ks] lq lk by auto
    have la: "ls = logits_a"
      using a(1) ls(1) unfolding sq sk by simp
    have "sqrt (real ?d) = 2"
      using real_sqrt_abs [of 2] d by simp
    then have "data (logits_a ! t) = data (logits ! t)" if "t < length ks" for t
      using that ls(2) [rule_format, of t] lg(3) [rule_format, of t] la lq d by (simp add: g)
    then have "map data logits_a = map data logits"
      using a(2) lg(2) by (intro nth_equalityI) simp_all
    moreover have "logits_a \<noteq> []"
      using a(2) assms(5) by auto
    ultimately have w: "map data weights_a = map data weights"
      using a(3) sm by (rule softmax_data_cong)
    then have wt: "data (weights_a ! t) = data (weights ! t)" if "t < length ks" for t
      using that lw assms(7) softmax_Some [of logits_a] a(2,3) assms(5)
      by (metis length_map nth_map)
    have "data (out_a ! j) = data (ho ! j)" if "j < 4" for j
    proof -
      have "(\<Sum>t\<leftarrow>[0..<length ks]. data (weights_a ! t) * data (?vs ! t ! (0 * 4 + j))) =
          (\<Sum>t\<leftarrow>[0..<length ks]. data (weights ! t) * data (vs ! t ! g ! j))"
        using wt assms(7) by (intro sum_list_cong_nth) simp
      then show ?thesis
        using a(6) hd(5) that d by (simp add: g)
    qed
    then have "map data out_a = map data ho"
      using a(5) hd(4) d by (intro nth_equalityI) simp_all
    then show ?thesis
      using a(4) by blast
  qed
  have keys: "\<forall>t < length ks.
          scaled_dot ?d (q_heads ! h) (ks ! t ! g) = Some (logits ! t)
        \<and> data (logits ! t) =
            (\<Sum>j\<leftarrow>[0..<?d]. data (q_heads ! h ! j) * data (ks ! t ! g ! j)) / sqrt (real ?d)"
    using lg(3) by (simp add: g)
  have vals: "\<forall>j < ?d. data (ho ! j) =
          (\<Sum>t\<leftarrow>[0..<length ks]. data (weights ! t) * data (vs ! t ! g ! j))"
    using hd(5) by (simp add: g)
  have out': "llama_head_out config weights (map (kv_head config h) vs) = Some ho"
    using out ho_eq by simp
  have i1: "n_rep config = real (n_head config) / real (n_kv_head config) \<longrightarrow>
          int g = \<lfloor>real h / (real (n_head config) / real (n_kv_head config))\<rfloor>
        \<and> (\<forall>r. 0 < r \<and> n_head config = r * n_kv_head config \<longrightarrow>
              (\<forall>h'. kv_head_idx config h' = int g \<longleftrightarrow> g * r \<le> h' \<and> h' < g * r + r))"
    using idx_claim by (intro impI)
  have i2: "head_dim config = head_dim gpt_config \<longrightarrow>
          (\<exists>out_a. gpt_head (q_heads ! h) (map (\<lambda>k_t. k_t ! g) ks) (map (\<lambda>v_t. v_t ! g) vs)
                x_attn 0 = Some (x_attn @ out_a)
             \<and> map data out_a = map data ho)"
    using same by (intro impI)
  show ?thesis
    by (intro exI [of _ g] exI [of _ logits] exI [of _ weights] exI [of _ ho] conjI
        g glt i1 mk mv lg(1) lg(2) keys sm out' hd(3) hd(4) vals i2)
qed

text \<open>
  The steps of a layer of \<^verbatim>\<open>Llama.forward\<close>, and the states between the layers of a call.
\<close>

lemma llama_layer_steps:
  assumes ok: "llama_config_ok config" and st: "llama_state_ok config vocab state"
    and li: "li < n_layer config" and x: "length x = n_embd config"
    and keys: "li < length keys" "\<forall>e \<in> set (keys ! li). heads_entry config e"
    and vals: "li < length values" "\<forall>e \<in> set (values ! li). heads_entry config e"
      "length (values ! li) = length (keys ! li)"
  shows "\<exists>xn wq wk wv wo q_heads k_heads v_heads heads x2 xn2 w_gate w_up w_down hidden y.
      rmsnorm x = Some xn
    \<and> state (layer_key li ''attn_wq'') = Some wq
    \<and> state (layer_key li ''attn_wk'') = Some wk
    \<and> state (layer_key li ''attn_wv'') = Some wv
    \<and> state (layer_key li ''attn_wo'') = Some wo
    \<and> split_heads (n_head config) (head_dim config)
          (\<lambda>q_h. apply_rope q_h posId (head_dim config)) (lin xn wq) = Some q_heads
    \<and> length q_heads = n_head config
    \<and> (\<forall>h < n_head config. length (q_heads ! h) = head_dim config)
    \<and> split_heads (n_kv_head config) (head_dim config)
          (\<lambda>k_h. apply_rope k_h posId (head_dim config)) (lin xn wk) = Some k_heads
    \<and> heads_entry config k_heads
    \<and> split_heads (n_kv_head config) (head_dim config) Some (lin xn wv) = Some v_heads
    \<and> heads_entry config v_heads
    \<and> length heads = n_head config
    \<and> (\<forall>h < n_head config. \<exists>logits weights.
          llama_logits config (q_heads ! h)
            (map (kv_head config h) (keys ! li @ [k_heads])) = Some logits
        \<and> softmax logits = Some weights
        \<and> llama_head_out config weights
            (map (kv_head config h) (values ! li @ [v_heads])) = Some (heads ! h))
    \<and> foldlM (llama_head config q_heads (keys ! li @ [k_heads]) (values ! li @ [v_heads]))
          [] [0..<n_head config] = Some (concat heads)
    \<and> add_residual (lin (concat heads) wo) x = Some x2 \<and> length x2 = n_embd config
    \<and> rmsnorm x2 = Some xn2
    \<and> state (layer_key li ''ffn_gate'') = Some w_gate
    \<and> state (layer_key li ''ffn_up'') = Some w_up
    \<and> state (layer_key li ''ffn_down'') = Some w_down
    \<and> swiglu_of (lin xn2 w_gate) (lin xn2 w_up) = Some hidden
    \<and> add_residual (lin hidden w_down) x2 = Some y \<and> length y = n_embd config
    \<and> llama_layer config state posId (x, keys, values) li =
        Some (y, keys[li := keys ! li @ [k_heads]], values[li := values ! li @ [v_heads]])"
proof -
  let ?n = "n_embd config" and ?d = "head_dim config"
  have cfg: "0 < ?d" "even ?d" "n_head config * ?d = ?n"
    using ok by (auto simp: llama_config_ok_def)
  have "0 < n_head config"
    using ok by (auto simp: llama_config_ok_def)
  then have "0 < n_head config * ?d"
    using cfg(1) by simp
  then have npos: "0 < ?n"
    using cfg(3) by simp
  have mats: "has_mat state (layer_key li ''attn_wq'') ?n ?n"
    "has_mat state (layer_key li ''attn_wk'') (n_kv_head config * ?d) ?n"
    "has_mat state (layer_key li ''attn_wv'') (n_kv_head config * ?d) ?n"
    "has_mat state (layer_key li ''attn_wo'') ?n ?n"
    "has_mat state (layer_key li ''ffn_gate'') (4 * ?n) ?n"
    "has_mat state (layer_key li ''ffn_up'') (4 * ?n) ?n"
    "has_mat state (layer_key li ''ffn_down'') ?n (4 * ?n)"
    using st li by (simp_all add: llama_state_ok_def)
  have "x \<noteq> []" using x npos by auto
  then obtain xn where xn: "rmsnorm x = Some xn" "length xn = ?n"
    using rmsnorm_Some x by metis
  obtain wq where wq: "state (layer_key li ''attn_wq'') = Some wq" "mat ?n ?n wq"
    using mats(1) by (rule has_matD)
  have q: "linear_v xn wq = Some (lin xn wq)" "length (lin xn wq) = ?n"
    using linear_v_mat [OF wq(2), of xn] xn(2) wq(2) by (simp_all add: mat_def)
  obtain wk where wk: "state (layer_key li ''attn_wk'') = Some wk"
      "mat (n_kv_head config * ?d) ?n wk"
    using mats(2) by (rule has_matD)
  have k: "linear_v xn wk = Some (lin xn wk)" "length (lin xn wk) = n_kv_head config * ?d"
    using linear_v_mat [OF wk(2), of xn] xn(2) wk(2) by (simp_all add: mat_def)
  obtain wv where wv: "state (layer_key li ''attn_wv'') = Some wv"
      "mat (n_kv_head config * ?d) ?n wv"
    using mats(3) by (rule has_matD)
  have v: "linear_v xn wv = Some (lin xn wv)" "length (lin xn wv) = n_kv_head config * ?d"
    using linear_v_mat [OF wv(2), of xn] xn(2) wv(2) by (simp_all add: mat_def)
  obtain wo where wo: "state (layer_key li ''attn_wo'') = Some wo" "mat ?n ?n wo"
    using mats(4) by (rule has_matD)
  obtain q_heads where qh: "split_heads (n_head config) ?d (\<lambda>q_h. apply_rope q_h posId ?d)
      (lin xn wq) = Some q_heads" "length q_heads = n_head config"
      "\<forall>h < n_head config. length (q_heads ! h) = ?d"
    using split_heads_rope [OF cfg(1,2), of "n_head config" "lin xn wq" posId] q(2) cfg(3) by auto
  obtain k_heads where kh: "split_heads (n_kv_head config) ?d (\<lambda>k_h. apply_rope k_h posId ?d)
      (lin xn wk) = Some k_heads" "length k_heads = n_kv_head config"
      "\<forall>h < n_kv_head config. length (k_heads ! h) = ?d"
    using split_heads_rope [OF cfg(1,2), of "n_kv_head config" "lin xn wk" posId] k(2) by auto
  obtain v_heads where vh: "split_heads (n_kv_head config) ?d Some (lin xn wv) = Some v_heads"
      "length v_heads = n_kv_head config" "\<forall>h < n_kv_head config. length (v_heads ! h) = ?d"
    using split_heads_plain [of "n_kv_head config" ?d "lin xn wv"] v(2) by auto
  have ke: "heads_entry config k_heads" and ve: "heads_entry config v_heads"
    using kh(2,3) vh(2,3) by (auto intro: heads_entryI)
  let ?ks = "keys ! li @ [k_heads]"
  let ?vs = "values ! li @ [v_heads]"
  let ?keys = "keys[li := ?ks]"
  let ?vals = "values[li := ?vs]"
  have push: "push_at keys li k_heads = Some ?keys" "push_at values li v_heads = Some ?vals"
    "idx ?keys li = Some ?ks" "idx ?vals li = Some ?vs"
    using keys(1) vals(1) by (simp_all add: push_at_def idx_def)
  have ksok: "\<forall>e \<in> set ?ks. heads_entry config e"
    using ke keys(2) by auto
  have vsok: "\<forall>e \<in> set ?vs. heads_entry config e"
    using ve vals(2) by auto
  have ne: "?ks \<noteq> []" and same_len: "length ?vs = length ?ks"
    using vals(3) by simp_all
  have step: "\<exists>ho. llama_head config q_heads ?ks ?vs acc h = Some (acc @ ho)
      \<and> (length ho = ?d \<and> (\<exists>logits weights.
            llama_logits config (q_heads ! h) (map (kv_head config h) ?ks) = Some logits
          \<and> softmax logits = Some weights
          \<and> llama_head_out config weights (map (kv_head config h) ?vs) = Some ho))"
    if h: "h < n_head config" for h acc
  proof -
    have ql: "length (q_heads ! h) = ?d"
      using h qh(3) by simp
    obtain logits weights ho where
      "llama_logits config (q_heads ! h) (map (kv_head config h) ?ks) = Some logits"
      "softmax logits = Some weights"
      "llama_head_out config weights (map (kv_head config h) ?vs) = Some ho"
      "llama_head config q_heads ?ks ?vs acc h = Some (acc @ ho)"
      "length ho = ?d"
      using llama_head_group [OF ok h qh(2) ql ne ksok same_len vsok, of acc]
      by (elim exE conjE) (rule that; assumption)
    then show ?thesis by blast
  qed
  obtain heads where hs: "length heads = n_head config"
    "foldlM (llama_head config q_heads ?ks ?vs) [] [0..<n_head config] = Some (concat heads)"
    "\<forall>h < n_head config. length (heads ! h) = ?d \<and> (\<exists>logits weights.
          llama_logits config (q_heads ! h) (map (kv_head config h) ?ks) = Some logits
        \<and> softmax logits = Some weights
        \<and> llama_head_out config weights (map (kv_head config h) ?vs) = Some (heads ! h))"
    using foldlM_concat_inv [of "n_head config" "llama_head config q_heads ?ks ?vs"
      "\<lambda>h ho. length ho = ?d \<and> (\<exists>logits weights.
          llama_logits config (q_heads ! h) (map (kv_head config h) ?ks) = Some logits
        \<and> softmax logits = Some weights
        \<and> llama_head_out config weights (map (kv_head config h) ?vs) = Some ho)", OF step]
    by blast
  have hs3: "\<forall>h < n_head config. \<exists>logits weights.
          llama_logits config (q_heads ! h) (map (kv_head config h) ?ks) = Some logits
        \<and> softmax logits = Some weights
        \<and> llama_head_out config weights (map (kv_head config h) ?vs) = Some (heads ! h)"
    using hs(3) by blast
  have "length (concat heads) = n_head config * ?d"
  proof -
    have "map length heads = replicate (n_head config) ?d"
      using hs(1) hs(3) by (intro nth_equalityI) simp_all
    then show ?thesis
      by (simp add: length_concat sum_list_replicate)
  qed
  then have xa: "length (concat heads) = ?n"
    using cfg(3) by simp
  have x1: "linear_v (concat heads) wo = Some (lin (concat heads) wo)"
    "length (lin (concat heads) wo) = ?n"
    using linear_v_mat [OF wo(2), of "concat heads"] xa wo(2) by (simp_all add: mat_def)
  obtain x2 where x2: "add_residual (lin (concat heads) wo) x = Some x2" "length x2 = ?n"
    using add_residual_Some [of "lin (concat heads) wo" x] x1(2) x by simp
  have "x2 \<noteq> []" using x2(2) npos by auto
  then obtain xn2 where xn2: "rmsnorm x2 = Some xn2" "length xn2 = ?n"
    using rmsnorm_Some x2(2) by metis
  obtain w_gate where wg: "state (layer_key li ''ffn_gate'') = Some w_gate" "mat (4 * ?n) ?n w_gate"
    using mats(5) by (rule has_matD)
  have g: "linear_v xn2 w_gate = Some (lin xn2 w_gate)" "length (lin xn2 w_gate) = 4 * ?n"
    using linear_v_mat [OF wg(2), of xn2] xn2(2) wg(2) by (simp_all add: mat_def)
  obtain w_up where wu: "state (layer_key li ''ffn_up'') = Some w_up" "mat (4 * ?n) ?n w_up"
    using mats(6) by (rule has_matD)
  have u: "linear_v xn2 w_up = Some (lin xn2 w_up)" "length (lin xn2 w_up) = 4 * ?n"
    using linear_v_mat [OF wu(2), of xn2] xn2(2) wu(2) by (simp_all add: mat_def)
  obtain hidden where sw: "swiglu_of (lin xn2 w_gate) (lin xn2 w_up) = Some hidden"
      "length hidden = 4 * ?n"
    using swiglu_of_Some [of "lin xn2 w_gate" "lin xn2 w_up"] g(2) u(2) by simp
  obtain w_down where wd: "state (layer_key li ''ffn_down'') = Some w_down" "mat ?n (4 * ?n) w_down"
    using mats(7) by (rule has_matD)
  have x4: "linear_v hidden w_down = Some (lin hidden w_down)" "length (lin hidden w_down) = ?n"
    using linear_v_mat [OF wd(2), of hidden] sw(2) wd(2) by (simp_all add: mat_def)
  obtain y where y: "add_residual (lin hidden w_down) x2 = Some y" "length y = ?n"
    using add_residual_Some [of "lin hidden w_down" x2] x4(2) x2(2) by simp
  have layer: "llama_layer config state posId (x, keys, values) li = Some (y, ?keys, ?vals)"
    using xn(1) wq(1) q(1) wk(1) k(1) wv(1) v(1) qh(1) kh(1) vh(1) push hs(2) wo(1) x1(1) x2(1)
      xn2(1) wg(1) g(1) wu(1) u(1) sw(1) wd(1) x4(1) y(1)
    by (simp add: llama_layer_def)
  show ?thesis
    by (rule exI [of _ xn], rule exI [of _ wq], rule exI [of _ wk], rule exI [of _ wv],
        rule exI [of _ wo], rule exI [of _ q_heads], rule exI [of _ k_heads],
        rule exI [of _ v_heads], rule exI [of _ heads], rule exI [of _ x2], rule exI [of _ xn2],
        rule exI [of _ w_gate], rule exI [of _ w_up], rule exI [of _ w_down],
        rule exI [of _ hidden], rule exI [of _ y])
      (intro conjI xn(1) wq(1) wk(1) wv(1) wo(1) qh kh(1) ke vh(1) ve hs(1) hs3 hs(2) x2
        xn2(1) wg(1) wu(1) wd(1) sw(1) y layer)
qed

lemma llama_forward_trace:
  assumes ok: "llama_config_ok config" and st: "llama_state_ok config vocab state"
    and tok: "tokenId < vocab"
    and keys: "cache_ok (heads_entry config) (n_layer config) k keys"
    and vals: "cache_ok (heads_entry config) (n_layer config) k values"
  shows "\<exists>wte lm_head tr xf.
      state ''wte'' = Some wte \<and> state ''lm_head'' = Some lm_head
    \<and> length tr = Suc (n_layer config)
    \<and> rmsnorm (wte ! tokenId) = Some (fst (tr ! 0)) \<and> snd (tr ! 0) = (keys, values)
    \<and> (\<forall>li < n_layer config. llama_layer config state posId (tr ! li) li = Some (tr ! Suc li))
    \<and> (\<forall>li \<le> n_layer config. length (fst (tr ! li)) = n_embd config
          \<and> appended_below (heads_entry config) li keys (fst (snd (tr ! li)))
          \<and> appended_below (heads_entry config) li values (snd (snd (tr ! li))))
    \<and> rmsnorm (fst (tr ! n_layer config)) = Some xf
    \<and> length (lin xf lm_head) = vocab
    \<and> llama_forward config state tokenId posId keys values =
        Some (lin xf lm_head, snd (tr ! n_layer config))"
proof -
  let ?n = "n_embd config" and ?L = "n_layer config"
  have "0 < n_head config" "0 < head_dim config" "n_head config * head_dim config = ?n"
    using ok by (auto simp: llama_config_ok_def)
  then have npos: "0 < ?n"
    by (metis mult_pos_pos)
  obtain wte where wte: "state ''wte'' = Some wte" "mat vocab ?n wte"
    using st by (auto simp: llama_state_ok_def elim: has_matD)
  have row: "idx wte tokenId = Some (wte ! tokenId)" "length (wte ! tokenId) = ?n"
    using wte(2) tok by (simp_all add: mat_def idx_def)
  have "wte ! tokenId \<noteq> []" using row(2) npos by auto
  then obtain x1 where x1: "rmsnorm (wte ! tokenId) = Some x1" "length x1 = ?n"
    using rmsnorm_Some row(2) by metis
  let ?P = "heads_entry config"
  let ?I = "\<lambda>i s. length (fst s) = ?n \<and> appended_below ?P i keys (fst (snd s))
    \<and> appended_below ?P i values (snd (snd s))"
  have lk: "length keys = ?L" "length values = ?L"
    using keys vals by (simp_all add: cache_ok_def)
  have step: "\<exists>s'. llama_layer config state posId s i = Some s' \<and> ?I (Suc i) s'"
    if i: "i < ?L" and inv: "?I i s" for i s
  proof -
    obtain x ks vs where s: "s = (x, ks, vs)" by (cases s)
    with inv have x: "length x = ?n" and ab: "appended_below ?P i keys ks"
      "appended_below ?P i values vs" by auto
    have same: "ks ! i = keys ! i" "vs ! i = values ! i" "i < length ks" "i < length vs"
      using ab i lk by (auto simp: appended_below_def)
    have okc: "\<And>e. e \<in> set (ks ! i) \<Longrightarrow> ?P e" "\<And>e. e \<in> set (vs ! i) \<Longrightarrow> ?P e"
      "length (vs ! i) = length (ks ! i)"
      using keys vals i same by (auto simp: cache_ok_def)
    obtain x' k' v' where "llama_layer config state posId (x, ks, vs) i =
        Some (x', ks[i := ks ! i @ [k']], vs[i := vs ! i @ [v']])"
      "length x' = ?n" "?P k'" "?P v'"
      using llama_layer_Some [OF ok st i x same(3) okc(1) same(4) okc(2) okc(3)] by blast
    moreover have "appended_below ?P (Suc i) keys (ks[i := ks ! i @ [k']])"
      using ab(1) i lk \<open>?P k'\<close> by (intro appended_below_push) simp_all
    moreover have "appended_below ?P (Suc i) values (vs[i := vs ! i @ [v']])"
      using ab(2) i lk \<open>?P v'\<close> by (intro appended_below_push) simp_all
    ultimately show ?thesis
      by (simp add: s)
  qed
  have "?I 0 (x1, keys, values)"
    using x1(2) by (simp add: appended_below_0)
  then obtain tr where tr: "length tr = Suc ?L" "tr ! 0 = (x1, keys, values)"
    "\<forall>li < ?L. llama_layer config state posId (tr ! li) li = Some (tr ! Suc li)"
    "\<forall>li \<le> ?L. ?I li (tr ! li)"
    "foldlM (llama_layer config state posId) (x1, keys, values) [0..<?L] = Some (tr ! ?L)"
    using foldlM_upt_trace [of ?I "(x1, keys, values)" ?L "llama_layer config state posId",
      OF _ step] by blast
  have "length (fst (tr ! ?L)) = ?n"
    using tr(4) by simp
  then have "fst (tr ! ?L) \<noteq> []" using npos by auto
  then obtain xf where xf: "rmsnorm (fst (tr ! ?L)) = Some xf" "length xf = ?n"
    using rmsnorm_Some [of "fst (tr ! ?L)"] \<open>length (fst (tr ! ?L)) = ?n\<close> by auto
  obtain lm where lm: "state ''lm_head'' = Some lm" "mat vocab ?n lm"
    using st by (auto simp: llama_state_ok_def elim: has_matD)
  have l: "linear_v xf lm = Some (lin xf lm)"
    using lm(2) xf(2) by (intro linear_v_mat [of vocab ?n]) simp_all
  have ll: "length (lin xf lm) = vocab"
    using lm(2) by (simp add: mat_def)
  have fw: "llama_forward config state tokenId posId keys values
      = Some (lin xf lm, snd (tr ! ?L))"
    using wte(1) row(1) x1(1) tr(5) xf(1) lm(1) l
    by (simp add: llama_forward_def split_beta)
  have t0: "rmsnorm (wte ! tokenId) = Some (fst (tr ! 0))" "snd (tr ! 0) = (keys, values)"
    using x1(1) tr(2) by simp_all
  show ?thesis
    by (rule exI [of _ wte], rule exI [of _ lm], rule exI [of _ tr], rule exI [of _ xf])
      (intro conjI wte(1) lm(1) tr(1) t0 tr(3) tr(4) xf(1) ll fw)
qed

text \<open>
  Claim C7. A call of \<^verbatim>\<open>Llama.forward\<close> on a store with the shapes of the constructor, a
  token of the vocabulary and caches of \<open>k\<close> entries per layer returns; \<open>tr\<close> lists the
  triples of \<open>x\<close> and the two caches before the first layer, after it, and so on. Layer
  \<open>li\<close> appends the \<^verbatim>\<open>n_kv_head\<close> key heads and value heads of the call to its caches. The
  query head \<open>h\<close> reads one key/value head \<open>g\<close> of every cached entry, the one with the index
  \<^verbatim>\<open>Math.floor(h / n_rep)\<close>. With \<^verbatim>\<open>n_rep\<close> the quotient \<^verbatim>\<open>n_head / n_kv_head\<close>, as the
  configuration class computes it, \<open>g\<close> is \<open>\<lfloor>h / (n_head / n_kv_head)\<rfloor>\<close>, and when the
  quotient is the whole number \<open>r\<close> the query heads that read \<open>g\<close> are the \<open>r\<close> consecutive
  heads from \<open>g \<cdot> r\<close>. The logits are the scaled dot products of the query with the key
  head \<open>g\<close> of each cached position, the weights their softmax, and the head's result the
  sum of the value heads \<open>g\<close> weighted by them. When \<^verbatim>\<open>head_dim\<close> is that of Variant A, one
  head of \<^verbatim>\<open>gpt\<close> on the same query, keys and values computes the same numbers. The
  results of the heads, one after the other, projected by \<^verbatim>\<open>attn_wo\<close> and added to the
  layer's input, go through the feed-forward block and are the input of the next layer;
  the logits of the call are the projection of the last one, normalized, by \<^verbatim>\<open>lm_head\<close>.
\<close>

theorem forward_shares_key_value_heads:
  assumes "llama_config_ok config" and "llama_state_ok config vocab state"
    and "tokenId < vocab"
    and "cache_ok (heads_entry config) (n_layer config) k keys"
    and "cache_ok (heads_entry config) (n_layer config) k values"
  shows "\<exists>wte lm_head tr xf.
      state ''wte'' = Some wte \<and> state ''lm_head'' = Some lm_head
    \<and> length tr = Suc (n_layer config)
    \<and> rmsnorm (wte ! tokenId) = Some (fst (tr ! 0)) \<and> snd (tr ! 0) = (keys, values)
    \<and> rmsnorm (fst (tr ! n_layer config)) = Some xf
    \<and> llama_forward config state tokenId posId keys values =
        Some (lin xf lm_head, snd (tr ! n_layer config))
    \<and> (\<forall>li < n_layer config. \<exists>xn wq wk wv wo q_heads k_heads v_heads ks vs heads x2 xn2 w_gate w_up w_down hidden.
          rmsnorm (fst (tr ! li)) = Some xn
        \<and> state (layer_key li ''attn_wq'') = Some wq
        \<and> state (layer_key li ''attn_wk'') = Some wk
        \<and> state (layer_key li ''attn_wv'') = Some wv
        \<and> state (layer_key li ''attn_wo'') = Some wo
        \<and> split_heads (n_head config) (head_dim config)
              (\<lambda>q_h. apply_rope q_h posId (head_dim config)) (lin xn wq) = Some q_heads
        \<and> split_heads (n_kv_head config) (head_dim config)
              (\<lambda>k_h. apply_rope k_h posId (head_dim config)) (lin xn wk) = Some k_heads
        \<and> split_heads (n_kv_head config) (head_dim config) Some (lin xn wv) = Some v_heads
        \<and> ks = keys ! li @ [k_heads] \<and> vs = values ! li @ [v_heads]
        \<and> length ks = Suc k \<and> length vs = Suc k
        \<and> snd (tr ! Suc li) = ((fst (snd (tr ! li)))[li := ks], (snd (snd (tr ! li)))[li := vs])
        \<and> length heads = n_head config
        \<and> (\<forall>h < n_head config. \<exists>g logits weights.
              kv_head_idx config h = int g \<and> g < n_kv_head config
            \<and> (n_rep config = real (n_head config) / real (n_kv_head config) \<longrightarrow>
                  int g = \<lfloor>real h / (real (n_head config) / real (n_kv_head config))\<rfloor>
                \<and> (\<forall>r. 0 < r \<and> n_head config = r * n_kv_head config \<longrightarrow>
                      (\<forall>h'. kv_head_idx config h' = int g \<longleftrightarrow> g * r \<le> h' \<and> h' < g * r + r)))
            \<and> map (kv_head config h) ks = map (\<lambda>k_t. Some (k_t ! g)) ks
            \<and> map (kv_head config h) vs = map (\<lambda>v_t. Some (v_t ! g)) vs
            \<and> llama_logits config (q_heads ! h) (map (kv_head config h) ks) = Some logits
            \<and> length logits = length ks
            \<and> (\<forall>t < length ks.
                  scaled_dot (head_dim config) (q_heads ! h) (ks ! t ! g) = Some (logits ! t)
                \<and> data (logits ! t) =
                    (\<Sum>j\<leftarrow>[0..<head_dim config]. data (q_heads ! h ! j) * data (ks ! t ! g ! j))
                    / sqrt (real (head_dim config)))
            \<and> softmax logits = Some weights
            \<and> llama_head_out config weights (map (kv_head config h) vs) = Some (heads ! h)
            \<and> (\<forall>x_attn. llama_head config q_heads ks vs x_attn h = Some (x_attn @ heads ! h))
            \<and> length (heads ! h) = head_dim config
            \<and> (\<forall>j < head_dim config. data (heads ! h ! j) =
                  (\<Sum>t\<leftarrow>[0..<length ks]. data (weights ! t) * data (vs ! t ! g ! j)))
            \<and> (head_dim config = head_dim gpt_config \<longrightarrow>
                  (\<exists>out_a. gpt_head (q_heads ! h) (map (\<lambda>k_t. k_t ! g) ks)
                        (map (\<lambda>v_t. v_t ! g) vs) [] 0 = Some out_a
                     \<and> map data out_a = map data (heads ! h))))
        \<and> foldlM (llama_head config q_heads ks vs) [] [0..<n_head config] = Some (concat heads)
        \<and> add_residual (lin (concat heads) wo) (fst (tr ! li)) = Some x2
        \<and> rmsnorm x2 = Some xn2
        \<and> state (layer_key li ''ffn_gate'') = Some w_gate
        \<and> state (layer_key li ''ffn_up'') = Some w_up
        \<and> state (layer_key li ''ffn_down'') = Some w_down
        \<and> swiglu_of (lin xn2 w_gate) (lin xn2 w_up) = Some hidden
        \<and> add_residual (lin hidden w_down) x2 = Some (fst (tr ! Suc li))
        \<and> llama_layer config state posId (tr ! li) li = Some (tr ! Suc li))"
proof -
  let ?L = "n_layer config" and ?d = "head_dim config"
  let ?P = "heads_entry config"
  obtain wte lm_head tr xf where t:
    "state ''wte'' = Some wte" "state ''lm_head'' = Some lm_head"
    "length tr = Suc ?L"
    "rmsnorm (wte ! tokenId) = Some (fst (tr ! 0))" "snd (tr ! 0) = (keys, values)"
    "\<forall>li < ?L. llama_layer config state posId (tr ! li) li = Some (tr ! Suc li)"
    "\<forall>li \<le> ?L. length (fst (tr ! li)) = n_embd config
        \<and> appended_below ?P li keys (fst (snd (tr ! li)))
        \<and> appended_below ?P li values (snd (snd (tr ! li)))"
    "rmsnorm (fst (tr ! ?L)) = Some xf"
    "llama_forward config state tokenId posId keys values = Some (lin xf lm_head, snd (tr ! ?L))"
    using llama_forward_trace [OF assms, of posId]
    by (elim exE conjE) (rule that; assumption)
  have lk: "length keys = ?L" "length values = ?L"
    using assms(4,5) by (simp_all add: cache_ok_def)
  have layer: "\<exists>xn wq wk wv wo q_heads k_heads v_heads ks vs heads x2 xn2 w_gate w_up w_down hidden.
          rmsnorm (fst (tr ! li)) = Some xn
        \<and> state (layer_key li ''attn_wq'') = Some wq
        \<and> state (layer_key li ''attn_wk'') = Some wk
        \<and> state (layer_key li ''attn_wv'') = Some wv
        \<and> state (layer_key li ''attn_wo'') = Some wo
        \<and> split_heads (n_head config) (head_dim config)
              (\<lambda>q_h. apply_rope q_h posId (head_dim config)) (lin xn wq) = Some q_heads
        \<and> split_heads (n_kv_head config) (head_dim config)
              (\<lambda>k_h. apply_rope k_h posId (head_dim config)) (lin xn wk) = Some k_heads
        \<and> split_heads (n_kv_head config) (head_dim config) Some (lin xn wv) = Some v_heads
        \<and> ks = keys ! li @ [k_heads] \<and> vs = values ! li @ [v_heads]
        \<and> length ks = Suc k \<and> length vs = Suc k
        \<and> snd (tr ! Suc li) = ((fst (snd (tr ! li)))[li := ks], (snd (snd (tr ! li)))[li := vs])
        \<and> length heads = n_head config
        \<and> (\<forall>h < n_head config. \<exists>g logits weights.
              kv_head_idx config h = int g \<and> g < n_kv_head config
            \<and> (n_rep config = real (n_head config) / real (n_kv_head config) \<longrightarrow>
                  int g = \<lfloor>real h / (real (n_head config) / real (n_kv_head config))\<rfloor>
                \<and> (\<forall>r. 0 < r \<and> n_head config = r * n_kv_head config \<longrightarrow>
                      (\<forall>h'. kv_head_idx config h' = int g \<longleftrightarrow> g * r \<le> h' \<and> h' < g * r + r)))
            \<and> map (kv_head config h) ks = map (\<lambda>k_t. Some (k_t ! g)) ks
            \<and> map (kv_head config h) vs = map (\<lambda>v_t. Some (v_t ! g)) vs
            \<and> llama_logits config (q_heads ! h) (map (kv_head config h) ks) = Some logits
            \<and> length logits = length ks
            \<and> (\<forall>t < length ks.
                  scaled_dot (head_dim config) (q_heads ! h) (ks ! t ! g) = Some (logits ! t)
                \<and> data (logits ! t) =
                    (\<Sum>j\<leftarrow>[0..<head_dim config]. data (q_heads ! h ! j) * data (ks ! t ! g ! j))
                    / sqrt (real (head_dim config)))
            \<and> softmax logits = Some weights
            \<and> llama_head_out config weights (map (kv_head config h) vs) = Some (heads ! h)
            \<and> (\<forall>x_attn. llama_head config q_heads ks vs x_attn h = Some (x_attn @ heads ! h))
            \<and> length (heads ! h) = head_dim config
            \<and> (\<forall>j < head_dim config. data (heads ! h ! j) =
                  (\<Sum>t\<leftarrow>[0..<length ks]. data (weights ! t) * data (vs ! t ! g ! j)))
            \<and> (head_dim config = head_dim gpt_config \<longrightarrow>
                  (\<exists>out_a. gpt_head (q_heads ! h) (map (\<lambda>k_t. k_t ! g) ks)
                        (map (\<lambda>v_t. v_t ! g) vs) [] 0 = Some out_a
                     \<and> map data out_a = map data (heads ! h))))
        \<and> foldlM (llama_head config q_heads ks vs) [] [0..<n_head config] = Some (concat heads)
        \<and> add_residual (lin (concat heads) wo) (fst (tr ! li)) = Some x2
        \<and> rmsnorm x2 = Some xn2
        \<and> state (layer_key li ''ffn_gate'') = Some w_gate
        \<and> state (layer_key li ''ffn_up'') = Some w_up
        \<and> state (layer_key li ''ffn_down'') = Some w_down
        \<and> swiglu_of (lin xn2 w_gate) (lin xn2 w_up) = Some hidden
        \<and> add_residual (lin hidden w_down) x2 = Some (fst (tr ! Suc li))
        \<and> llama_layer config state posId (tr ! li) li = Some (tr ! Suc li)"
    if li: "li < ?L" for li
  proof -
    let ?x = "fst (tr ! li)" and ?kc = "fst (snd (tr ! li))" and ?vc = "snd (snd (tr ! li))"
    have x: "length ?x = n_embd config"
      and ab: "appended_below ?P li keys ?kc" "appended_below ?P li values ?vc"
      using t(7) li by simp_all
    have same: "?kc ! li = keys ! li" "?vc ! li = values ! li" "li < length ?kc" "li < length ?vc"
      using ab li lk by (auto simp: appended_below_def)
    have old: "length (keys ! li) = k" "length (values ! li) = k"
      "\<forall>e \<in> set (keys ! li). ?P e" "\<forall>e \<in> set (values ! li). ?P e"
      using assms(4,5) li by (simp_all add: cache_ok_def)
    have okc: "\<forall>e \<in> set (?kc ! li). ?P e" "\<forall>e \<in> set (?vc ! li). ?P e"
      "length (?vc ! li) = length (?kc ! li)"
      using old same(1,2) by simp_all
    obtain xn wq wk wv wo q_heads k_heads v_heads heads x2 xn2 w_gate w_up w_down hidden y
      where s:
      "rmsnorm ?x = Some xn"
      "state (layer_key li ''attn_wq'') = Some wq"
      "state (layer_key li ''attn_wk'') = Some wk"
      "state (layer_key li ''attn_wv'') = Some wv"
      "state (layer_key li ''attn_wo'') = Some wo"
      "split_heads (n_head config) ?d (\<lambda>q_h. apply_rope q_h posId ?d) (lin xn wq) = Some q_heads"
      "length q_heads = n_head config"
      "\<forall>h < n_head config. length (q_heads ! h) = ?d"
      "split_heads (n_kv_head config) ?d (\<lambda>k_h. apply_rope k_h posId ?d) (lin xn wk)
        = Some k_heads"
      "heads_entry config k_heads"
      "split_heads (n_kv_head config) ?d Some (lin xn wv) = Some v_heads"
      "heads_entry config v_heads"
      "length heads = n_head config"
      "\<forall>h < n_head config. \<exists>logits weights.
          llama_logits config (q_heads ! h)
            (map (kv_head config h) (?kc ! li @ [k_heads])) = Some logits
        \<and> softmax logits = Some weights
        \<and> llama_head_out config weights
            (map (kv_head config h) (?vc ! li @ [v_heads])) = Some (heads ! h)"
      "foldlM (llama_head config q_heads (?kc ! li @ [k_heads]) (?vc ! li @ [v_heads]))
          [] [0..<n_head config] = Some (concat heads)"
      "add_residual (lin (concat heads) wo) ?x = Some x2"
      "rmsnorm x2 = Some xn2"
      "state (layer_key li ''ffn_gate'') = Some w_gate"
      "state (layer_key li ''ffn_up'') = Some w_up"
      "state (layer_key li ''ffn_down'') = Some w_down"
      "swiglu_of (lin xn2 w_gate) (lin xn2 w_up) = Some hidden"
      "add_residual (lin hidden w_down) x2 = Some y"
      "llama_layer config state posId (?x, ?kc, ?vc) li =
        Some (y, ?kc[li := ?kc ! li @ [k_heads]], ?vc[li := ?vc ! li @ [v_heads]])"
      using llama_layer_steps [OF assms(1,2) li x same(3) okc(1) same(4) okc(2,3), of posId]
      by (elim exE conjE) (rule that; assumption)
    define ks where "ks = keys ! li @ [k_heads]"
    define vs where "vs = values ! li @ [v_heads]"
    have k_eq: "?kc ! li @ [k_heads] = ks" and v_eq: "?vc ! li @ [v_heads] = vs"
      by (simp_all add: ks_def vs_def same(1,2))
    have lens: "length ks = Suc k" "length vs = Suc k"
      by (simp_all add: ks_def vs_def old(1,2))
    have ne: "ks \<noteq> []" and sl: "length vs = length ks"
      using lens by auto
    have ksok: "\<forall>e \<in> set ks. ?P e" and vsok: "\<forall>e \<in> set vs. ?P e"
      using old(3,4) s(10,12) by (auto simp: ks_def vs_def)
    have f3: "llama_layer config state posId (tr ! li) li = Some (tr ! Suc li)"
      using t(6) li by simp
    have next_eq: "tr ! Suc li = (y, ?kc[li := ks], ?vc[li := vs])"
      using f3 s(23) k_eq v_eq by simp
    have f1: "snd (tr ! Suc li) = (?kc[li := ks], ?vc[li := vs])"
      and f2: "add_residual (lin hidden w_down) x2 = Some (fst (tr ! Suc li))"
      using next_eq s(22) by simp_all
    have fold: "foldlM (llama_head config q_heads ks vs) [] [0..<n_head config]
        = Some (concat heads)"
      using s(15) unfolding k_eq v_eq .
    have head: "\<exists>g logits weights.
              kv_head_idx config h = int g \<and> g < n_kv_head config
            \<and> (n_rep config = real (n_head config) / real (n_kv_head config) \<longrightarrow>
                  int g = \<lfloor>real h / (real (n_head config) / real (n_kv_head config))\<rfloor>
                \<and> (\<forall>r. 0 < r \<and> n_head config = r * n_kv_head config \<longrightarrow>
                      (\<forall>h'. kv_head_idx config h' = int g \<longleftrightarrow> g * r \<le> h' \<and> h' < g * r + r)))
            \<and> map (kv_head config h) ks = map (\<lambda>k_t. Some (k_t ! g)) ks
            \<and> map (kv_head config h) vs = map (\<lambda>v_t. Some (v_t ! g)) vs
            \<and> llama_logits config (q_heads ! h) (map (kv_head config h) ks) = Some logits
            \<and> length logits = length ks
            \<and> (\<forall>t < length ks.
                  scaled_dot (head_dim config) (q_heads ! h) (ks ! t ! g) = Some (logits ! t)
                \<and> data (logits ! t) =
                    (\<Sum>j\<leftarrow>[0..<head_dim config]. data (q_heads ! h ! j) * data (ks ! t ! g ! j))
                    / sqrt (real (head_dim config)))
            \<and> softmax logits = Some weights
            \<and> llama_head_out config weights (map (kv_head config h) vs) = Some (heads ! h)
            \<and> (\<forall>x_attn. llama_head config q_heads ks vs x_attn h = Some (x_attn @ heads ! h))
            \<and> length (heads ! h) = head_dim config
            \<and> (\<forall>j < head_dim config. data (heads ! h ! j) =
                  (\<Sum>t\<leftarrow>[0..<length ks]. data (weights ! t) * data (vs ! t ! g ! j)))
            \<and> (head_dim config = head_dim gpt_config \<longrightarrow>
                  (\<exists>out_a. gpt_head (q_heads ! h) (map (\<lambda>k_t. k_t ! g) ks)
                        (map (\<lambda>v_t. v_t ! g) vs) [] 0 = Some out_a
                     \<and> map data out_a = map data (heads ! h)))"
      if h: "h < n_head config" for h
    proof -
      have ql: "length (q_heads ! h) = ?d"
        using s(8) h by simp
      obtain logits2 weights2 where b:
        "llama_logits config (q_heads ! h) (map (kv_head config h) ks) = Some logits2"
        "softmax logits2 = Some weights2"
        "llama_head_out config weights2 (map (kv_head config h) vs) = Some (heads ! h)"
        using s(14) h unfolding k_eq v_eq by blast
      obtain g logits weights head_out where d:
        "kv_head_idx config h = int g" "g < n_kv_head config"
        "n_rep config = real (n_head config) / real (n_kv_head config) \<longrightarrow>
            int g = \<lfloor>real h / (real (n_head config) / real (n_kv_head config))\<rfloor>
          \<and> (\<forall>r. 0 < r \<and> n_head config = r * n_kv_head config \<longrightarrow>
                (\<forall>h'. kv_head_idx config h' = int g \<longleftrightarrow> g * r \<le> h' \<and> h' < g * r + r))"
        "map (kv_head config h) ks = map (\<lambda>k_t. Some (k_t ! g)) ks"
        "map (kv_head config h) vs = map (\<lambda>v_t. Some (v_t ! g)) vs"
        "llama_logits config (q_heads ! h) (map (kv_head config h) ks) = Some logits"
        "length logits = length ks"
        "\<forall>t < length ks.
            scaled_dot ?d (q_heads ! h) (ks ! t ! g) = Some (logits ! t)
          \<and> data (logits ! t) =
              (\<Sum>j\<leftarrow>[0..<?d]. data (q_heads ! h ! j) * data (ks ! t ! g ! j)) / sqrt (real ?d)"
        "softmax logits = Some weights"
        "llama_head_out config weights (map (kv_head config h) vs) = Some head_out"
        "length head_out = ?d"
        "\<forall>j < ?d. data (head_out ! j) =
            (\<Sum>t\<leftarrow>[0..<length ks]. data (weights ! t) * data (vs ! t ! g ! j))"
        "head_dim config = head_dim gpt_config \<longrightarrow>
            (\<exists>out_a. gpt_head (q_heads ! h) (map (\<lambda>k_t. k_t ! g) ks) (map (\<lambda>v_t. v_t ! g) vs)
                  [] 0 = Some ([] @ out_a)
               \<and> map data out_a = map data head_out)"
        using llama_head_group [OF assms(1) h s(7) ql ne ksok sl vsok, of "[]"]
        by (elim exE conjE) (rule that; assumption)
      have "logits2 = logits"
        using b(1) d(6) by simp
      then have "weights2 = weights"
        using b(2) d(9) by simp
      then have ho: "head_out = heads ! h"
        using b(3) d(10) by simp
      have every: "\<forall>x_attn. llama_head config q_heads ks vs x_attn h = Some (x_attn @ heads ! h)"
        using h s(7) d(6,9,10) by (simp add: llama_head_def idx_def ho)
      have gpt: "head_dim config = head_dim gpt_config \<longrightarrow>
            (\<exists>out_a. gpt_head (q_heads ! h) (map (\<lambda>k_t. k_t ! g) ks) (map (\<lambda>v_t. v_t ! g) vs)
                  [] 0 = Some out_a
               \<and> map data out_a = map data (heads ! h))"
        using d(13) by (simp add: ho)
      have d10: "llama_head_out config weights (map (kv_head config h) vs) = Some (heads ! h)"
        and d11: "length (heads ! h) = ?d"
        and d12: "\<forall>j < ?d. data (heads ! h ! j) =
            (\<Sum>t\<leftarrow>[0..<length ks]. data (weights ! t) * data (vs ! t ! g ! j))"
        using d(10,11,12) by (simp_all add: ho)
      show ?thesis
        by (rule exI [of _ g], rule exI [of _ logits], rule exI [of _ weights])
          (intro conjI d(1,2,3,4,5,6,7,8,9) d10 every d11 d12 gpt)
    qed
    then have heads_all: "\<forall>h < n_head config. \<exists>g logits weights.
              kv_head_idx config h = int g \<and> g < n_kv_head config
            \<and> (n_rep config = real (n_head config) / real (n_kv_head config) \<longrightarrow>
                  int g = \<lfloor>real h / (real (n_head config) / real (n_kv_head config))\<rfloor>
                \<and> (\<forall>r. 0 < r \<and> n_head config = r * n_kv_head config \<longrightarrow>
                      (\<forall>h'. kv_head_idx config h' = int g \<longleftrightarrow> g * r \<le> h' \<and> h' < g * r + r)))
            \<and> map (kv_head config h) ks = map (\<lambda>k_t. Some (k_t ! g)) ks
            \<and> map (kv_head config h) vs = map (\<lambda>v_t. Some (v_t ! g)) vs
            \<and> llama_logits config (q_heads ! h) (map (kv_head config h) ks) = Some logits
            \<and> length logits = length ks
            \<and> (\<forall>t < length ks.
                  scaled_dot (head_dim config) (q_heads ! h) (ks ! t ! g) = Some (logits ! t)
                \<and> data (logits ! t) =
                    (\<Sum>j\<leftarrow>[0..<head_dim config]. data (q_heads ! h ! j) * data (ks ! t ! g ! j))
                    / sqrt (real (head_dim config)))
            \<and> softmax logits = Some weights
            \<and> llama_head_out config weights (map (kv_head config h) vs) = Some (heads ! h)
            \<and> (\<forall>x_attn. llama_head config q_heads ks vs x_attn h = Some (x_attn @ heads ! h))
            \<and> length (heads ! h) = head_dim config
            \<and> (\<forall>j < head_dim config. data (heads ! h ! j) =
                  (\<Sum>t\<leftarrow>[0..<length ks]. data (weights ! t) * data (vs ! t ! g ! j)))
            \<and> (head_dim config = head_dim gpt_config \<longrightarrow>
                  (\<exists>out_a. gpt_head (q_heads ! h) (map (\<lambda>k_t. k_t ! g) ks)
                        (map (\<lambda>v_t. v_t ! g) vs) [] 0 = Some out_a
                     \<and> map data out_a = map data (heads ! h)))"
      by (intro allI impI)
    show ?thesis
      by (rule exI [of _ xn], rule exI [of _ wq], rule exI [of _ wk], rule exI [of _ wv],
          rule exI [of _ wo], rule exI [of _ q_heads], rule exI [of _ k_heads],
          rule exI [of _ v_heads], rule exI [of _ ks], rule exI [of _ vs], rule exI [of _ heads],
          rule exI [of _ x2], rule exI [of _ xn2], rule exI [of _ w_gate], rule exI [of _ w_up],
          rule exI [of _ w_down], rule exI [of _ hidden])
        (intro conjI s(1,2,3,4,5,6) s(9) s(11) ks_def vs_def lens f1 s(13) heads_all fold
          s(16,17,18,19,20,21) f2 f3)
  qed
  then have layers: "\<forall>li < ?L. \<exists>xn wq wk wv wo q_heads k_heads v_heads ks vs heads x2 xn2 w_gate w_up w_down hidden.
          rmsnorm (fst (tr ! li)) = Some xn
        \<and> state (layer_key li ''attn_wq'') = Some wq
        \<and> state (layer_key li ''attn_wk'') = Some wk
        \<and> state (layer_key li ''attn_wv'') = Some wv
        \<and> state (layer_key li ''attn_wo'') = Some wo
        \<and> split_heads (n_head config) (head_dim config)
              (\<lambda>q_h. apply_rope q_h posId (head_dim config)) (lin xn wq) = Some q_heads
        \<and> split_heads (n_kv_head config) (head_dim config)
              (\<lambda>k_h. apply_rope k_h posId (head_dim config)) (lin xn wk) = Some k_heads
        \<and> split_heads (n_kv_head config) (head_dim config) Some (lin xn wv) = Some v_heads
        \<and> ks = keys ! li @ [k_heads] \<and> vs = values ! li @ [v_heads]
        \<and> length ks = Suc k \<and> length vs = Suc k
        \<and> snd (tr ! Suc li) = ((fst (snd (tr ! li)))[li := ks], (snd (snd (tr ! li)))[li := vs])
        \<and> length heads = n_head config
        \<and> (\<forall>h < n_head config. \<exists>g logits weights.
              kv_head_idx config h = int g \<and> g < n_kv_head config
            \<and> (n_rep config = real (n_head config) / real (n_kv_head config) \<longrightarrow>
                  int g = \<lfloor>real h / (real (n_head config) / real (n_kv_head config))\<rfloor>
                \<and> (\<forall>r. 0 < r \<and> n_head config = r * n_kv_head config \<longrightarrow>
                      (\<forall>h'. kv_head_idx config h' = int g \<longleftrightarrow> g * r \<le> h' \<and> h' < g * r + r)))
            \<and> map (kv_head config h) ks = map (\<lambda>k_t. Some (k_t ! g)) ks
            \<and> map (kv_head config h) vs = map (\<lambda>v_t. Some (v_t ! g)) vs
            \<and> llama_logits config (q_heads ! h) (map (kv_head config h) ks) = Some logits
            \<and> length logits = length ks
            \<and> (\<forall>t < length ks.
                  scaled_dot (head_dim config) (q_heads ! h) (ks ! t ! g) = Some (logits ! t)
                \<and> data (logits ! t) =
                    (\<Sum>j\<leftarrow>[0..<head_dim config]. data (q_heads ! h ! j) * data (ks ! t ! g ! j))
                    / sqrt (real (head_dim config)))
            \<and> softmax logits = Some weights
            \<and> llama_head_out config weights (map (kv_head config h) vs) = Some (heads ! h)
            \<and> (\<forall>x_attn. llama_head config q_heads ks vs x_attn h = Some (x_attn @ heads ! h))
            \<and> length (heads ! h) = head_dim config
            \<and> (\<forall>j < head_dim config. data (heads ! h ! j) =
                  (\<Sum>t\<leftarrow>[0..<length ks]. data (weights ! t) * data (vs ! t ! g ! j)))
            \<and> (head_dim config = head_dim gpt_config \<longrightarrow>
                  (\<exists>out_a. gpt_head (q_heads ! h) (map (\<lambda>k_t. k_t ! g) ks)
                        (map (\<lambda>v_t. v_t ! g) vs) [] 0 = Some out_a
                     \<and> map data out_a = map data (heads ! h))))
        \<and> foldlM (llama_head config q_heads ks vs) [] [0..<n_head config] = Some (concat heads)
        \<and> add_residual (lin (concat heads) wo) (fst (tr ! li)) = Some x2
        \<and> rmsnorm x2 = Some xn2
        \<and> state (layer_key li ''ffn_gate'') = Some w_gate
        \<and> state (layer_key li ''ffn_up'') = Some w_up
        \<and> state (layer_key li ''ffn_down'') = Some w_down
        \<and> swiglu_of (lin xn2 w_gate) (lin xn2 w_up) = Some hidden
        \<and> add_residual (lin hidden w_down) x2 = Some (fst (tr ! Suc li))
        \<and> llama_layer config state posId (tr ! li) li = Some (tr ! Suc li)"
    by (intro allI impI)
  show ?thesis
    by (rule exI [of _ wte], rule exI [of _ lm_head], rule exI [of _ tr], rule exI [of _ xf])
      (intro conjI t(1,2,3,4,5) t(8) t(9) layers)
qed

theorem forward_shares_key_value_heads_witness:
  "\<exists>out q_heads ks vs heads logits weights out_a.
      llama_forward llama_config ex_llama_state 0 0 [[]] [[]] = Some (out, [ks], [vs])
    \<and> length ks = 1
    \<and> kv_head_idx llama_config 3 = 1
    \<and> map (kv_head llama_config 3) ks = map (\<lambda>k_t. Some (k_t ! 1)) ks
    \<and> map (kv_head llama_config 3) vs = map (\<lambda>v_t. Some (v_t ! 1)) vs
    \<and> llama_logits llama_config (q_heads ! 3) (map (kv_head llama_config 3) ks) = Some logits
    \<and> softmax logits = Some weights
    \<and> llama_head_out llama_config weights (map (kv_head llama_config 3) vs) = Some (heads ! 3)
    \<and> gpt_head (q_heads ! 3) (map (\<lambda>k_t. k_t ! 1) ks) (map (\<lambda>v_t. v_t ! 1) vs) [] 0
        = Some out_a
    \<and> map data out_a = map data (heads ! 3)"
proof -
  have "(0::nat) < 3"
    "cache_ok (heads_entry llama_config) (n_layer llama_config) 0
       ([[]] :: Value list list list list)"
    by (simp_all add: cache_ok_def llama_config_def)
  from forward_shares_key_value_heads
    [OF default_llama_config_ok ex_llama_state_ok this(1,2,2), of 0]
  obtain lm_head tr xf where
    t0: "snd (tr ! 0) = ([[]], [[]])"
    and fw: "llama_forward llama_config ex_llama_state 0 0 [[]] [[]] =
        Some (lin xf lm_head, snd (tr ! n_layer llama_config))"
    and layers: "\<forall>li < n_layer llama_config. \<exists>xn wq wk wv wo q_heads k_heads v_heads ks vs heads x2 xn2 w_gate w_up w_down hidden.
          rmsnorm (fst (tr ! li)) = Some xn
        \<and> ex_llama_state (layer_key li ''attn_wq'') = Some wq
        \<and> ex_llama_state (layer_key li ''attn_wk'') = Some wk
        \<and> ex_llama_state (layer_key li ''attn_wv'') = Some wv
        \<and> ex_llama_state (layer_key li ''attn_wo'') = Some wo
        \<and> split_heads (n_head llama_config) (head_dim llama_config)
              (\<lambda>q_h. apply_rope q_h 0 (head_dim llama_config)) (lin xn wq) = Some q_heads
        \<and> split_heads (n_kv_head llama_config) (head_dim llama_config)
              (\<lambda>k_h. apply_rope k_h 0 (head_dim llama_config)) (lin xn wk) = Some k_heads
        \<and> split_heads (n_kv_head llama_config) (head_dim llama_config) Some (lin xn wv) = Some v_heads
        \<and> ks = [[]] ! li @ [k_heads] \<and> vs = [[]] ! li @ [v_heads]
        \<and> length ks = Suc 0 \<and> length vs = Suc 0
        \<and> snd (tr ! Suc li) = ((fst (snd (tr ! li)))[li := ks], (snd (snd (tr ! li)))[li := vs])
        \<and> length heads = n_head llama_config
        \<and> (\<forall>h < n_head llama_config. \<exists>g logits weights.
              kv_head_idx llama_config h = int g \<and> g < n_kv_head llama_config
            \<and> (n_rep llama_config = real (n_head llama_config) / real (n_kv_head llama_config) \<longrightarrow>
                  int g = \<lfloor>real h / (real (n_head llama_config) / real (n_kv_head llama_config))\<rfloor>
                \<and> (\<forall>r. 0 < r \<and> n_head llama_config = r * n_kv_head llama_config \<longrightarrow>
                      (\<forall>h'. kv_head_idx llama_config h' = int g \<longleftrightarrow> g * r \<le> h' \<and> h' < g * r + r)))
            \<and> map (kv_head llama_config h) ks = map (\<lambda>k_t. Some (k_t ! g)) ks
            \<and> map (kv_head llama_config h) vs = map (\<lambda>v_t. Some (v_t ! g)) vs
            \<and> llama_logits llama_config (q_heads ! h) (map (kv_head llama_config h) ks) = Some logits
            \<and> length logits = length ks
            \<and> (\<forall>t < length ks.
                  scaled_dot (head_dim llama_config) (q_heads ! h) (ks ! t ! g) = Some (logits ! t)
                \<and> data (logits ! t) =
                    (\<Sum>j\<leftarrow>[0..<head_dim llama_config]. data (q_heads ! h ! j) * data (ks ! t ! g ! j))
                    / sqrt (real (head_dim llama_config)))
            \<and> softmax logits = Some weights
            \<and> llama_head_out llama_config weights (map (kv_head llama_config h) vs) = Some (heads ! h)
            \<and> (\<forall>x_attn. llama_head llama_config q_heads ks vs x_attn h = Some (x_attn @ heads ! h))
            \<and> length (heads ! h) = head_dim llama_config
            \<and> (\<forall>j < head_dim llama_config. data (heads ! h ! j) =
                  (\<Sum>t\<leftarrow>[0..<length ks]. data (weights ! t) * data (vs ! t ! g ! j)))
            \<and> (head_dim llama_config = head_dim gpt_config \<longrightarrow>
                  (\<exists>out_a. gpt_head (q_heads ! h) (map (\<lambda>k_t. k_t ! g) ks)
                        (map (\<lambda>v_t. v_t ! g) vs) [] 0 = Some out_a
                     \<and> map data out_a = map data (heads ! h))))
        \<and> foldlM (llama_head llama_config q_heads ks vs) [] [0..<n_head llama_config] = Some (concat heads)
        \<and> add_residual (lin (concat heads) wo) (fst (tr ! li)) = Some x2
        \<and> rmsnorm x2 = Some xn2
        \<and> ex_llama_state (layer_key li ''ffn_gate'') = Some w_gate
        \<and> ex_llama_state (layer_key li ''ffn_up'') = Some w_up
        \<and> ex_llama_state (layer_key li ''ffn_down'') = Some w_down
        \<and> swiglu_of (lin xn2 w_gate) (lin xn2 w_up) = Some hidden
        \<and> add_residual (lin hidden w_down) x2 = Some (fst (tr ! Suc li))
        \<and> llama_layer llama_config ex_llama_state 0 (tr ! li) li = Some (tr ! Suc li)"
    by (elim exE conjE) (rule that; assumption)
  have nl: "n_layer llama_config = Suc 0" and nh: "3 < n_head llama_config"
    and hd: "head_dim llama_config = head_dim gpt_config"
    and idx3: "kv_head_idx llama_config 3 = 1"
    by (simp_all add: llama_config_def gpt_config_simps kv_head_idx_def)
  have "0 < n_layer llama_config"
    by (simp add: nl)
  from layers [THEN spec [where x = 0], THEN mp, OF this]
  obtain q_heads ks vs heads where
    len: "length ks = Suc 0"
    and s: "snd (tr ! Suc 0) = ((fst (snd (tr ! 0)))[0 := ks], (snd (snd (tr ! 0)))[0 := vs])"
    and hs: "\<forall>h < n_head llama_config. \<exists>g logits weights.
              kv_head_idx llama_config h = int g \<and> g < n_kv_head llama_config
            \<and> (n_rep llama_config = real (n_head llama_config) / real (n_kv_head llama_config) \<longrightarrow>
                  int g = \<lfloor>real h / (real (n_head llama_config) / real (n_kv_head llama_config))\<rfloor>
                \<and> (\<forall>r. 0 < r \<and> n_head llama_config = r * n_kv_head llama_config \<longrightarrow>
                      (\<forall>h'. kv_head_idx llama_config h' = int g \<longleftrightarrow> g * r \<le> h' \<and> h' < g * r + r)))
            \<and> map (kv_head llama_config h) ks = map (\<lambda>k_t. Some (k_t ! g)) ks
            \<and> map (kv_head llama_config h) vs = map (\<lambda>v_t. Some (v_t ! g)) vs
            \<and> llama_logits llama_config (q_heads ! h) (map (kv_head llama_config h) ks) = Some logits
            \<and> length logits = length ks
            \<and> (\<forall>t < length ks.
                  scaled_dot (head_dim llama_config) (q_heads ! h) (ks ! t ! g) = Some (logits ! t)
                \<and> data (logits ! t) =
                    (\<Sum>j\<leftarrow>[0..<head_dim llama_config]. data (q_heads ! h ! j) * data (ks ! t ! g ! j))
                    / sqrt (real (head_dim llama_config)))
            \<and> softmax logits = Some weights
            \<and> llama_head_out llama_config weights (map (kv_head llama_config h) vs) = Some (heads ! h)
            \<and> (\<forall>x_attn. llama_head llama_config q_heads ks vs x_attn h = Some (x_attn @ heads ! h))
            \<and> length (heads ! h) = head_dim llama_config
            \<and> (\<forall>j < head_dim llama_config. data (heads ! h ! j) =
                  (\<Sum>t\<leftarrow>[0..<length ks]. data (weights ! t) * data (vs ! t ! g ! j)))
            \<and> (head_dim llama_config = head_dim gpt_config \<longrightarrow>
                  (\<exists>out_a. gpt_head (q_heads ! h) (map (\<lambda>k_t. k_t ! g) ks)
                        (map (\<lambda>v_t. v_t ! g) vs) [] 0 = Some out_a
                     \<and> map data out_a = map data (heads ! h)))"
    by (elim exE conjE) (rule that; assumption)
  from hs [THEN spec [where x = 3], THEN mp, OF nh]
  obtain g logits weights where h:
    "kv_head_idx llama_config 3 = int g"
    "map (kv_head llama_config 3) ks = map (\<lambda>k_t. Some (k_t ! g)) ks"
    "map (kv_head llama_config 3) vs = map (\<lambda>v_t. Some (v_t ! g)) vs"
    "llama_logits llama_config (q_heads ! 3) (map (kv_head llama_config 3) ks) = Some logits"
    "softmax logits = Some weights"
    "llama_head_out llama_config weights (map (kv_head llama_config 3) vs) = Some (heads ! 3)"
    "head_dim llama_config = head_dim gpt_config \<longrightarrow>
        (\<exists>out_a. gpt_head (q_heads ! 3) (map (\<lambda>k_t. k_t ! g) ks)
              (map (\<lambda>v_t. v_t ! g) vs) [] 0 = Some out_a
           \<and> map data out_a = map data (heads ! 3))"
    by (elim exE conjE) (rule that; assumption)
  have g: "g = 1"
    using h(1) idx3 by simp
  obtain out_a where a:
    "gpt_head (q_heads ! 3) (map (\<lambda>k_t. k_t ! 1) ks) (map (\<lambda>v_t. v_t ! 1) vs) [] 0 = Some out_a"
    "map data out_a = map data (heads ! 3)"
    using h(7) hd unfolding g by blast
  have f: "llama_forward llama_config ex_llama_state 0 0 [[]] [[]]
      = Some (lin xf lm_head, [ks], [vs])"
    using fw s t0 unfolding nl by simp
  have l1: "length ks = 1"
    using len by simp
  show ?thesis
    by (rule exI [of _ "lin xf lm_head"], rule exI [of _ q_heads], rule exI [of _ ks],
        rule exI [of _ vs], rule exI [of _ heads], rule exI [of _ logits],
        rule exI [of _ weights], rule exI [of _ out_a])
      (intro conjI f l1 idx3 h(2,3,4,5,6) [unfolded g] a)
qed

section \<open>The mixture of experts of Variant C\<close>

lemma deepseek_moe_n_active:
  "deepseek_moe (config\<lparr>n_active := a\<rparr>) = deepseek_moe config"
proof -
  let ?c = "config\<lparr>n_active := a\<rparr>"
  have ex: "deepseek_experts ?c = deepseek_experts config"
    by (intro ext) (simp add: deepseek_experts_def)
  have mx: "deepseek_mix ?c = deepseek_mix config"
    by (intro ext) (simp add: deepseek_mix_def)
  show ?thesis
    by (intro ext) (simp add: deepseek_moe_def ex mx)
qed

text \<open>
  The mixture on an input of \<^verbatim>\<open>n_embd\<close> entries: the router's softmax weighs the outputs
  of all the experts, and the input is added to the sum.
\<close>

lemma deepseek_moe_mixture:
  assumes "deepseek_config_ok config" and "deepseek_layer_ok config state li"
    and "length x = n_embd config"
  shows "\<exists>xn router probs outs y.
      rmsnorm x = Some xn
    \<and> state (layer_key li ''router'') = Some router
    \<and> linear_v xn router = Some (lin xn router)
    \<and> length (lin xn router) = n_experts config
    \<and> softmax (lin xn router) = Some probs \<and> length probs = n_experts config
    \<and> deepseek_experts config state li xn = Some outs \<and> length outs = n_experts config
    \<and> (\<forall>e < n_experts config. \<exists>w_gate w_up w_down hidden.
          state (expert_key li e ''gate'') = Some w_gate
        \<and> state (expert_key li e ''up'') = Some w_up
        \<and> state (expert_key li e ''down'') = Some w_down
        \<and> swiglu_of (lin xn w_gate) (lin xn w_up) = Some hidden
        \<and> length hidden = 4 * n_embd config
        \<and> (\<forall>i < 4 * n_embd config. data (hidden ! i) =
              data (silu (lin xn w_gate ! i)) * data (lin xn w_up ! i))
        \<and> outs ! e = lin hidden w_down \<and> length (outs ! e) = n_embd config)
    \<and> deepseek_moe config state li x = Some y \<and> length y = n_embd config
    \<and> (\<forall>j < n_embd config. data (y ! j) =
          (\<Sum>e\<leftarrow>[0..<n_experts config]. data (probs ! e) * data (outs ! e ! j)) + data (x ! j))
    \<and> (\<forall>a. deepseek_moe (config\<lparr>n_active := a\<rparr>) state li x = Some y)
    \<and> (\<forall>a. deepseek_forward (config\<lparr>n_active := a\<rparr>) state = deepseek_forward config state)"
proof -
  obtain xn router probs outs y where m:
      "rmsnorm x = Some xn" "state (layer_key li ''router'') = Some router"
      "softmax (lin xn router) = Some probs" "length probs = n_experts config"
      "deepseek_experts config state li xn = Some outs" "length outs = n_experts config"
      "deepseek_moe config state li x = Some y" "length y = n_embd config"
      "\<forall>j < n_embd config. data (y ! j) =
          (\<Sum>e\<leftarrow>[0..<n_experts config]. data (probs ! e) * data (outs ! e ! j)) + data (x ! j)"
    using deepseek_moe_Some [OF assms] by blast
  have "x \<noteq> []"
    using assms(1,3) by (auto simp: deepseek_config_ok_def)
  then have lxn: "length xn = n_embd config"
    using rmsnorm_Some [of x] m(1) assms(3) by auto
  have rmat: "mat (n_experts config) (n_embd config) router"
    using assms(2) m(2) by (auto simp: deepseek_layer_ok_def has_mat_def)
  then have r: "linear_v xn router = Some (lin xn router)" "length (lin xn router) = n_experts config"
    using linear_v_mat [of "n_experts config" "n_embd config" router xn] lxn
    by (simp_all add: mat_def)
  obtain outs' where o: "deepseek_experts config state li xn = Some outs'"
    "\<forall>e < n_experts config. length (outs' ! e) = n_embd config
          \<and> (\<exists>w_gate w_up w_down.
                state (expert_key li e ''gate'') = Some w_gate
              \<and> state (expert_key li e ''up'') = Some w_up
              \<and> state (expert_key li e ''down'') = Some w_down
              \<and> outs' ! e =
                  lin (map (\<lambda>i. mul (silu (lin xn w_gate ! i)) (V (lin xn w_up ! i)))
                    [0..<4 * n_embd config]) w_down)"
    using deepseek_experts_Some [OF assms(2) lxn] by blast
  then have same: "outs' = outs"
    using m(5) by simp
  have experts: "\<exists>w_gate w_up w_down hidden.
          state (expert_key li e ''gate'') = Some w_gate
        \<and> state (expert_key li e ''up'') = Some w_up
        \<and> state (expert_key li e ''down'') = Some w_down
        \<and> swiglu_of (lin xn w_gate) (lin xn w_up) = Some hidden
        \<and> length hidden = 4 * n_embd config
        \<and> (\<forall>i < 4 * n_embd config. data (hidden ! i) =
              data (silu (lin xn w_gate ! i)) * data (lin xn w_up ! i))
        \<and> outs ! e = lin hidden w_down \<and> length (outs ! e) = n_embd config"
    if e: "e < n_experts config" for e
  proof -
    obtain w_gate w_up w_down where w:
        "state (expert_key li e ''gate'') = Some w_gate"
        "state (expert_key li e ''up'') = Some w_up"
        "state (expert_key li e ''down'') = Some w_down"
        "outs ! e = lin (map (\<lambda>i. mul (silu (lin xn w_gate ! i)) (V (lin xn w_up ! i)))
                    [0..<4 * n_embd config]) w_down"
        "length (outs ! e) = n_embd config"
      using o(2) e same by blast
    have g: "length w_gate = 4 * n_embd config" "length w_up = 4 * n_embd config"
      using assms(2) e w(1,2) by (auto simp: deepseek_layer_ok_def has_mat_def mat_def)
    let ?hidden = "map (\<lambda>i. mul (silu (lin xn w_gate ! i)) (V (lin xn w_up ! i)))
        [0..<4 * n_embd config]"
    have "swiglu_of (lin xn w_gate) (lin xn w_up) = Some ?hidden"
      using swiglu_of_Some [of "lin xn w_gate" "lin xn w_up"] g by simp
    moreover have "length ?hidden = 4 * n_embd config"
      by simp
    moreover have "\<forall>i < 4 * n_embd config. data (?hidden ! i) =
        data (silu (lin xn w_gate ! i)) * data (lin xn w_up ! i)"
      by simp
    ultimately show ?thesis
      using w by blast
  qed
  have na: "deepseek_moe (config\<lparr>n_active := a\<rparr>) state li x = Some y" for a
    using m(7) by (simp add: deepseek_moe_n_active)
  have nf: "deepseek_forward (config\<lparr>n_active := a\<rparr>) state = deepseek_forward config state" for a
    by (simp add: n_active_unused)
  from experts have ex: "\<forall>e < n_experts config. \<exists>w_gate w_up w_down hidden.
          state (expert_key li e ''gate'') = Some w_gate
        \<and> state (expert_key li e ''up'') = Some w_up
        \<and> state (expert_key li e ''down'') = Some w_down
        \<and> swiglu_of (lin xn w_gate) (lin xn w_up) = Some hidden
        \<and> length hidden = 4 * n_embd config
        \<and> (\<forall>i < 4 * n_embd config. data (hidden ! i) =
              data (silu (lin xn w_gate ! i)) * data (lin xn w_up ! i))
        \<and> outs ! e = lin hidden w_down \<and> length (outs ! e) = n_embd config"
    by blast
  show ?thesis
    using m(1,2) r m(3,4,5,6) ex m(7,8,9) na nf by blast
qed

text \<open>
  Claim C8. A call of \<^verbatim>\<open>Deepseek.forward\<close> on a store with the shapes of the constructor, a
  token of the vocabulary and a cache of \<open>k\<close> latents per layer returns; \<open>tr\<close> lists the pairs
  of \<open>x\<close> and the cache before the first layer, after it, and so on. In layer \<open>li\<close> the
  results of the heads, projected by \<^verbatim>\<open>attn_wo\<close> and added to the layer's input, are the
  input \<open>x2\<close> of the mixture of experts, and the mixture's result is the layer's. The router
  gives one logit per expert from the normalized \<open>x2\<close>, and their softmax the weights.
  Every expert \<open>e\<close> below \<^verbatim>\<open>n_experts\<close> projects the normalized \<open>x2\<close> with its own gate, up
  and down matrices: entry \<open>i\<close> of its hidden vector is \<open>silu(gate\<^sub>i) \<cdot> up\<^sub>i\<close>. Entry \<open>j\<close> of the
  layer's result is the sum over all experts of the weight times the entry \<open>j\<close> of the
  expert's output, plus entry \<open>j\<close> of \<open>x2\<close> (the residual). The field \<^verbatim>\<open>n_active\<close> changes
  neither the mixture nor the result of the call.
\<close>

theorem forward_mixes_all_experts_softly:
  assumes "deepseek_config_ok config" and "deepseek_state_ok config vocab state"
    and "tokenId < vocab"
    and "cache_ok (\<lambda>e. length e = latent_dim config) (n_layer config) k keysLatentCache"
  shows "\<exists>wte lm_head tr xf.
      state ''wte'' = Some wte \<and> state ''lm_head'' = Some lm_head
    \<and> length tr = Suc (n_layer config)
    \<and> rmsnorm (wte ! tokenId) = Some (fst (tr ! 0)) \<and> snd (tr ! 0) = keysLatentCache
    \<and> rmsnorm (fst (tr ! n_layer config)) = Some xf
    \<and> deepseek_forward config state tokenId posId keysLatentCache =
        Some (lin xf lm_head, snd (tr ! n_layer config))
    \<and> (\<forall>a. deepseek_forward (config\<lparr>n_active := a\<rparr>) state tokenId posId keysLatentCache =
        Some (lin xf lm_head, snd (tr ! n_layer config)))
    \<and> (\<forall>li < n_layer config. \<exists>xn1 wq w_compress wo q_heads x_attn x2 xn router probs outs.
          rmsnorm (fst (tr ! li)) = Some xn1
        \<and> state (layer_key li ''attn_wq'') = Some wq
        \<and> state (layer_key li ''attn_compress_kv'') = Some w_compress
        \<and> state (layer_key li ''attn_wo'') = Some wo
        \<and> split_heads (n_head config) (head_dim config)
              (\<lambda>q_h. apply_rope q_h posId (head_dim config)) (lin xn1 wq) = Some q_heads
        \<and> foldlM (deepseek_head config state li q_heads
                    (keysLatentCache ! li @ [lin xn1 w_compress])) [] [0..<n_head config]
            = Some x_attn
        \<and> add_residual (lin x_attn wo) (fst (tr ! li)) = Some x2
        \<and> length x2 = n_embd config
        \<and> rmsnorm x2 = Some xn
        \<and> state (layer_key li ''router'') = Some router
        \<and> linear_v xn router = Some (lin xn router)
        \<and> length (lin xn router) = n_experts config
        \<and> softmax (lin xn router) = Some probs \<and> length probs = n_experts config
        \<and> deepseek_experts config state li xn = Some outs \<and> length outs = n_experts config
        \<and> (\<forall>e < n_experts config. \<exists>w_gate w_up w_down hidden.
              state (expert_key li e ''gate'') = Some w_gate
            \<and> state (expert_key li e ''up'') = Some w_up
            \<and> state (expert_key li e ''down'') = Some w_down
            \<and> swiglu_of (lin xn w_gate) (lin xn w_up) = Some hidden
            \<and> length hidden = 4 * n_embd config
            \<and> (\<forall>i < 4 * n_embd config. data (hidden ! i) =
                  data (silu (lin xn w_gate ! i)) * data (lin xn w_up ! i))
            \<and> outs ! e = lin hidden w_down \<and> length (outs ! e) = n_embd config)
        \<and> deepseek_moe config state li x2 = Some (fst (tr ! Suc li))
        \<and> length (fst (tr ! Suc li)) = n_embd config
        \<and> (\<forall>j < n_embd config. data (fst (tr ! Suc li) ! j) =
              (\<Sum>e\<leftarrow>[0..<n_experts config]. data (probs ! e) * data (outs ! e ! j))
              + data (x2 ! j))
        \<and> (\<forall>a. deepseek_moe (config\<lparr>n_active := a\<rparr>) state li x2 = Some (fst (tr ! Suc li)))
        \<and> deepseek_layer config state posId (tr ! li) li = Some (tr ! Suc li))"
proof -
  let ?L = "n_layer config" and ?d = "head_dim config"
  let ?P = "\<lambda>e::Value list. length e = latent_dim config"
  obtain wte lm_head tr xf where t:
    "state ''wte'' = Some wte" "state ''lm_head'' = Some lm_head"
    "length tr = Suc ?L"
    "rmsnorm (wte ! tokenId) = Some (fst (tr ! 0))" "snd (tr ! 0) = keysLatentCache"
    "\<forall>li < ?L. deepseek_layer config state posId (tr ! li) li = Some (tr ! Suc li)"
    "\<forall>li \<le> ?L. length (fst (tr ! li)) = n_embd config
        \<and> appended_below ?P li keysLatentCache (snd (tr ! li))"
    "rmsnorm (fst (tr ! ?L)) = Some xf"
    "deepseek_forward config state tokenId posId keysLatentCache =
        Some (lin xf lm_head, snd (tr ! ?L))"
    using deepseek_forward_trace [OF assms, of posId] by blast
  have lk: "length keysLatentCache = ?L"
    using assms(4) by (simp add: cache_ok_def)
  have fa: "\<forall>a. deepseek_forward (config\<lparr>n_active := a\<rparr>) state tokenId posId keysLatentCache =
        Some (lin xf lm_head, snd (tr ! ?L))"
    using t(9) by (simp add: n_active_unused)
  have layer: "\<exists>xn1 wq w_compress wo q_heads x_attn x2 xn router probs outs.
          rmsnorm (fst (tr ! li)) = Some xn1
        \<and> state (layer_key li ''attn_wq'') = Some wq
        \<and> state (layer_key li ''attn_compress_kv'') = Some w_compress
        \<and> state (layer_key li ''attn_wo'') = Some wo
        \<and> split_heads (n_head config) ?d (\<lambda>q_h. apply_rope q_h posId ?d) (lin xn1 wq)
            = Some q_heads
        \<and> foldlM (deepseek_head config state li q_heads
                    (keysLatentCache ! li @ [lin xn1 w_compress])) [] [0..<n_head config]
            = Some x_attn
        \<and> add_residual (lin x_attn wo) (fst (tr ! li)) = Some x2
        \<and> length x2 = n_embd config
        \<and> rmsnorm x2 = Some xn
        \<and> state (layer_key li ''router'') = Some router
        \<and> linear_v xn router = Some (lin xn router)
        \<and> length (lin xn router) = n_experts config
        \<and> softmax (lin xn router) = Some probs \<and> length probs = n_experts config
        \<and> deepseek_experts config state li xn = Some outs \<and> length outs = n_experts config
        \<and> (\<forall>e < n_experts config. \<exists>w_gate w_up w_down hidden.
              state (expert_key li e ''gate'') = Some w_gate
            \<and> state (expert_key li e ''up'') = Some w_up
            \<and> state (expert_key li e ''down'') = Some w_down
            \<and> swiglu_of (lin xn w_gate) (lin xn w_up) = Some hidden
            \<and> length hidden = 4 * n_embd config
            \<and> (\<forall>i < 4 * n_embd config. data (hidden ! i) =
                  data (silu (lin xn w_gate ! i)) * data (lin xn w_up ! i))
            \<and> outs ! e = lin hidden w_down \<and> length (outs ! e) = n_embd config)
        \<and> deepseek_moe config state li x2 = Some (fst (tr ! Suc li))
        \<and> length (fst (tr ! Suc li)) = n_embd config
        \<and> (\<forall>j < n_embd config. data (fst (tr ! Suc li) ! j) =
              (\<Sum>e\<leftarrow>[0..<n_experts config]. data (probs ! e) * data (outs ! e ! j))
              + data (x2 ! j))
        \<and> (\<forall>a. deepseek_moe (config\<lparr>n_active := a\<rparr>) state li x2 = Some (fst (tr ! Suc li)))
        \<and> deepseek_layer config state posId (tr ! li) li = Some (tr ! Suc li)"
    if li: "li < ?L" for li
  proof -
    let ?x = "fst (tr ! li)" and ?c = "snd (tr ! li)"
    have x: "length ?x = n_embd config"
      and ab: "appended_below ?P li keysLatentCache ?c"
      using t(7) li by simp_all
    have same: "?c ! li = keysLatentCache ! li" "li < length ?c"
      using ab li lk by (auto simp: appended_below_def)
    have old: "\<forall>e \<in> set (keysLatentCache ! li). ?P e"
      using assms(4) li by (simp add: cache_ok_def)
    have okc: "\<forall>e \<in> set (?c ! li). ?P e"
      using old same(1) by simp
    have lok: "deepseek_layer_ok config state li"
      using assms(2) li by (simp add: deepseek_state_ok_def)
    obtain xn1 wq wc wo q_heads heads x2 y where s:
      "rmsnorm ?x = Some xn1"
      "state (layer_key li ''attn_wq'') = Some wq"
      "state (layer_key li ''attn_compress_kv'') = Some wc"
      "state (layer_key li ''attn_wo'') = Some wo"
      "split_heads (n_head config) ?d (\<lambda>q_h. apply_rope q_h posId ?d) (lin xn1 wq) = Some q_heads"
      "foldlM (deepseek_head config state li q_heads (?c ! li @ [lin xn1 wc]))
          [] [0..<n_head config] = Some (concat heads)"
      "add_residual (lin (concat heads) wo) ?x = Some x2" "length x2 = n_embd config"
      "deepseek_moe config state li x2 = Some y"
      "deepseek_layer config state posId (?x, ?c) li = Some (y, ?c[li := ?c ! li @ [lin xn1 wc]])"
      using deepseek_layer_steps [OF assms(1) lok x same(2) okc, of posId]
      by (elim exE conjE) (rule that; assumption)
    have f3: "deepseek_layer config state posId (tr ! li) li = Some (tr ! Suc li)"
      using t(6) li by simp
    then have y: "fst (tr ! Suc li) = y"
      using s(10) by simp
    have fold: "foldlM (deepseek_head config state li q_heads
          (keysLatentCache ! li @ [lin xn1 wc])) [] [0..<n_head config] = Some (concat heads)"
      using s(6) by (simp add: same(1))
    obtain xn router probs outs y' where m:
      "rmsnorm x2 = Some xn"
      "state (layer_key li ''router'') = Some router"
      "linear_v xn router = Some (lin xn router)"
      "length (lin xn router) = n_experts config"
      "softmax (lin xn router) = Some probs" "length probs = n_experts config"
      "deepseek_experts config state li xn = Some outs" "length outs = n_experts config"
      "\<forall>e < n_experts config. \<exists>w_gate w_up w_down hidden.
              state (expert_key li e ''gate'') = Some w_gate
            \<and> state (expert_key li e ''up'') = Some w_up
            \<and> state (expert_key li e ''down'') = Some w_down
            \<and> swiglu_of (lin xn w_gate) (lin xn w_up) = Some hidden
            \<and> length hidden = 4 * n_embd config
            \<and> (\<forall>i < 4 * n_embd config. data (hidden ! i) =
                  data (silu (lin xn w_gate ! i)) * data (lin xn w_up ! i))
            \<and> outs ! e = lin hidden w_down \<and> length (outs ! e) = n_embd config"
      "deepseek_moe config state li x2 = Some y'" "length y' = n_embd config"
      "\<forall>j < n_embd config. data (y' ! j) =
          (\<Sum>e\<leftarrow>[0..<n_experts config]. data (probs ! e) * data (outs ! e ! j)) + data (x2 ! j)"
      "\<forall>a. deepseek_moe (config\<lparr>n_active := a\<rparr>) state li x2 = Some y'"
      using deepseek_moe_mixture [OF assms(1) lok s(8)]
      by (elim exE conjE) (rule that; assumption)
    have y': "y' = fst (tr ! Suc li)"
      using m(10) s(9) y by simp
    have g1: "deepseek_moe config state li x2 = Some (fst (tr ! Suc li))"
      and g2: "length (fst (tr ! Suc li)) = n_embd config"
      and g3: "\<forall>j < n_embd config. data (fst (tr ! Suc li) ! j) =
          (\<Sum>e\<leftarrow>[0..<n_experts config]. data (probs ! e) * data (outs ! e ! j)) + data (x2 ! j)"
      and g4: "\<forall>a. deepseek_moe (config\<lparr>n_active := a\<rparr>) state li x2 = Some (fst (tr ! Suc li))"
      using m(10,11,12,13) unfolding y' by - assumption+
    show ?thesis
      by (rule exI [of _ xn1], rule exI [of _ wq], rule exI [of _ wc], rule exI [of _ wo],
          rule exI [of _ q_heads], rule exI [of _ "concat heads"], rule exI [of _ x2],
          rule exI [of _ xn], rule exI [of _ router], rule exI [of _ probs],
          rule exI [of _ outs])
        (intro conjI s(1,2,3,4,5) fold s(7,8) m(1-9) g1 g2 g3 g4 f3)
  qed
  then have layers: "\<forall>li < ?L. \<exists>xn1 wq w_compress wo q_heads x_attn x2 xn router probs outs.
          rmsnorm (fst (tr ! li)) = Some xn1
        \<and> state (layer_key li ''attn_wq'') = Some wq
        \<and> state (layer_key li ''attn_compress_kv'') = Some w_compress
        \<and> state (layer_key li ''attn_wo'') = Some wo
        \<and> split_heads (n_head config) ?d (\<lambda>q_h. apply_rope q_h posId ?d) (lin xn1 wq)
            = Some q_heads
        \<and> foldlM (deepseek_head config state li q_heads
                    (keysLatentCache ! li @ [lin xn1 w_compress])) [] [0..<n_head config]
            = Some x_attn
        \<and> add_residual (lin x_attn wo) (fst (tr ! li)) = Some x2
        \<and> length x2 = n_embd config
        \<and> rmsnorm x2 = Some xn
        \<and> state (layer_key li ''router'') = Some router
        \<and> linear_v xn router = Some (lin xn router)
        \<and> length (lin xn router) = n_experts config
        \<and> softmax (lin xn router) = Some probs \<and> length probs = n_experts config
        \<and> deepseek_experts config state li xn = Some outs \<and> length outs = n_experts config
        \<and> (\<forall>e < n_experts config. \<exists>w_gate w_up w_down hidden.
              state (expert_key li e ''gate'') = Some w_gate
            \<and> state (expert_key li e ''up'') = Some w_up
            \<and> state (expert_key li e ''down'') = Some w_down
            \<and> swiglu_of (lin xn w_gate) (lin xn w_up) = Some hidden
            \<and> length hidden = 4 * n_embd config
            \<and> (\<forall>i < 4 * n_embd config. data (hidden ! i) =
                  data (silu (lin xn w_gate ! i)) * data (lin xn w_up ! i))
            \<and> outs ! e = lin hidden w_down \<and> length (outs ! e) = n_embd config)
        \<and> deepseek_moe config state li x2 = Some (fst (tr ! Suc li))
        \<and> length (fst (tr ! Suc li)) = n_embd config
        \<and> (\<forall>j < n_embd config. data (fst (tr ! Suc li) ! j) =
              (\<Sum>e\<leftarrow>[0..<n_experts config]. data (probs ! e) * data (outs ! e ! j))
              + data (x2 ! j))
        \<and> (\<forall>a. deepseek_moe (config\<lparr>n_active := a\<rparr>) state li x2 = Some (fst (tr ! Suc li)))
        \<and> deepseek_layer config state posId (tr ! li) li = Some (tr ! Suc li)"
    by (intro allI impI)
  show ?thesis
    by (intro exI [of _ wte] exI [of _ lm_head] exI [of _ tr] exI [of _ xf] conjI
        t(1,2,3,4,5) t(8) t(9) fa layers)
qed

theorem forward_mixes_all_experts_softly_witness:
  "\<exists>out cache x2 xn router probs outs y.
      deepseek_forward ex_deepseek_config ex_deepseek_state 0 0 [[]] = Some (out, cache)
    \<and> deepseek_forward (ex_deepseek_config\<lparr>n_active := 2\<rparr>) ex_deepseek_state 0 0 [[]]
        = Some (out, cache)
    \<and> rmsnorm x2 = Some xn
    \<and> ex_deepseek_state (layer_key 0 ''router'') = Some router
    \<and> softmax (lin xn router) = Some probs \<and> length probs = 2
    \<and> deepseek_experts ex_deepseek_config ex_deepseek_state 0 xn = Some outs \<and> length outs = 2
    \<and> deepseek_moe ex_deepseek_config ex_deepseek_state 0 x2 = Some y
    \<and> (\<forall>j < 4. data (y ! j) =
          data (probs ! 0) * data (outs ! 0 ! j) + data (probs ! 1) * data (outs ! 1 ! j)
          + data (x2 ! j))"
proof -
  have "(0::nat) < 3"
    "cache_ok (\<lambda>e. length e = latent_dim ex_deepseek_config) (n_layer ex_deepseek_config) 0
       ([[]] :: Value list list list)"
    by (simp_all add: cache_ok_def ex_deepseek_config_def)
  from forward_mixes_all_experts_softly
    [OF ex_deepseek_config_ok ex_deepseek_state_ok this, of 0]
  obtain lm_head tr xf where
    fw: "deepseek_forward ex_deepseek_config ex_deepseek_state 0 0 [[]] =
        Some (lin xf lm_head, snd (tr ! n_layer ex_deepseek_config))"
    and fa: "\<forall>a. deepseek_forward (ex_deepseek_config\<lparr>n_active := a\<rparr>) ex_deepseek_state 0 0 [[]]
        = Some (lin xf lm_head, snd (tr ! n_layer ex_deepseek_config))"
    and layers: "\<forall>li < n_layer ex_deepseek_config.
      \<exists>xn1 wq w_compress wo q_heads x_attn x2 xn router probs outs.
          rmsnorm (fst (tr ! li)) = Some xn1
        \<and> ex_deepseek_state (layer_key li ''attn_wq'') = Some wq
        \<and> ex_deepseek_state (layer_key li ''attn_compress_kv'') = Some w_compress
        \<and> ex_deepseek_state (layer_key li ''attn_wo'') = Some wo
        \<and> split_heads (n_head ex_deepseek_config) (head_dim ex_deepseek_config)
              (\<lambda>q_h. apply_rope q_h 0 (head_dim ex_deepseek_config)) (lin xn1 wq) = Some q_heads
        \<and> foldlM (deepseek_head ex_deepseek_config ex_deepseek_state li q_heads
                    ([[]] ! li @ [lin xn1 w_compress])) [] [0..<n_head ex_deepseek_config]
            = Some x_attn
        \<and> add_residual (lin x_attn wo) (fst (tr ! li)) = Some x2
        \<and> length x2 = n_embd ex_deepseek_config
        \<and> rmsnorm x2 = Some xn
        \<and> ex_deepseek_state (layer_key li ''router'') = Some router
        \<and> linear_v xn router = Some (lin xn router)
        \<and> length (lin xn router) = n_experts ex_deepseek_config
        \<and> softmax (lin xn router) = Some probs \<and> length probs = n_experts ex_deepseek_config
        \<and> deepseek_experts ex_deepseek_config ex_deepseek_state li xn = Some outs
        \<and> length outs = n_experts ex_deepseek_config
        \<and> (\<forall>e < n_experts ex_deepseek_config. \<exists>w_gate w_up w_down hidden.
              ex_deepseek_state (expert_key li e ''gate'') = Some w_gate
            \<and> ex_deepseek_state (expert_key li e ''up'') = Some w_up
            \<and> ex_deepseek_state (expert_key li e ''down'') = Some w_down
            \<and> swiglu_of (lin xn w_gate) (lin xn w_up) = Some hidden
            \<and> length hidden = 4 * n_embd ex_deepseek_config
            \<and> (\<forall>i < 4 * n_embd ex_deepseek_config. data (hidden ! i) =
                  data (silu (lin xn w_gate ! i)) * data (lin xn w_up ! i))
            \<and> outs ! e = lin hidden w_down \<and> length (outs ! e) = n_embd ex_deepseek_config)
        \<and> deepseek_moe ex_deepseek_config ex_deepseek_state li x2 = Some (fst (tr ! Suc li))
        \<and> length (fst (tr ! Suc li)) = n_embd ex_deepseek_config
        \<and> (\<forall>j < n_embd ex_deepseek_config. data (fst (tr ! Suc li) ! j) =
              (\<Sum>e\<leftarrow>[0..<n_experts ex_deepseek_config]. data (probs ! e) * data (outs ! e ! j))
              + data (x2 ! j))
        \<and> (\<forall>a. deepseek_moe (ex_deepseek_config\<lparr>n_active := a\<rparr>) ex_deepseek_state li x2
              = Some (fst (tr ! Suc li)))
        \<and> deepseek_layer ex_deepseek_config ex_deepseek_state 0 (tr ! li) li
            = Some (tr ! Suc li)"
    by (elim exE conjE) (rule that; assumption)
  have ne: "n_experts ex_deepseek_config = 2" and nm: "n_embd ex_deepseek_config = 4"
    by (simp_all add: ex_deepseek_config_def)
  have "0 < n_layer ex_deepseek_config"
    by (simp add: ex_deepseek_config_def)
  from layers [THEN spec [where x = 0], THEN mp, OF this]
  obtain x2 xn router probs outs where m:
    "rmsnorm x2 = Some xn"
    "ex_deepseek_state (layer_key 0 ''router'') = Some router"
    "softmax (lin xn router) = Some probs" "length probs = n_experts ex_deepseek_config"
    "deepseek_experts ex_deepseek_config ex_deepseek_state 0 xn = Some outs"
    "length outs = n_experts ex_deepseek_config"
    "deepseek_moe ex_deepseek_config ex_deepseek_state 0 x2 = Some (fst (tr ! Suc 0))"
    "\<forall>j < n_embd ex_deepseek_config. data (fst (tr ! Suc 0) ! j) =
        (\<Sum>e\<leftarrow>[0..<n_experts ex_deepseek_config]. data (probs ! e) * data (outs ! e ! j))
        + data (x2 ! j)"
    by (elim exE conjE) (rule that; assumption)
  have two: "[0..<2] = [0, Suc 0]"
    by (simp add: upt_rec)
  have sum: "\<forall>j < 4. data (fst (tr ! Suc 0) ! j) =
      data (probs ! 0) * data (outs ! 0 ! j) + data (probs ! 1) * data (outs ! 1 ! j)
      + data (x2 ! j)"
    using m(8) unfolding ne nm by (simp add: two)
  have l: "length probs = 2" "length outs = 2"
    using m(4,6) by (simp_all add: ne)
  have f2: "deepseek_forward (ex_deepseek_config\<lparr>n_active := 2\<rparr>) ex_deepseek_state 0 0 [[]]
        = Some (lin xf lm_head, snd (tr ! n_layer ex_deepseek_config))"
    using fa by simp
  show ?thesis
    by (rule exI [of _ "lin xf lm_head"], rule exI [of _ "snd (tr ! n_layer ex_deepseek_config)"],
        rule exI [of _ x2], rule exI [of _ xn], rule exI [of _ router], rule exI [of _ probs],
        rule exI [of _ outs], rule exI [of _ "fst (tr ! Suc 0)"])
      (intro conjI fw f2 m(1,2,3) l m(5) m(7) sum)
qed

section \<open>The caches grow by one entry per call\<close>

lemma cache_ok_lengths:
  "cache_ok P layers k cache \<Longrightarrow> \<forall>li < layers. length (cache ! li) = k"
  by (simp add: cache_ok_def)

text \<open>
  Claim C4. On a store with the shapes of its constructor, a forward call of each variant
  on a token of the vocabulary returns (for \<^verbatim>\<open>gpt\<close> at a position below \<^verbatim>\<open>block_size\<close>),
  and every layer of the cache it was given is afterwards that layer followed by exactly
  one new entry: nothing that was there is dropped or moved. So after the calls for \<open>k\<close>
  tokens at the positions \<open>0\<close> to \<open>k - 1\<close>, from the caches of empty layers that the drivers
  allocate, every layer holds exactly \<open>k\<close> entries. The attention of a call computes one
  logit per entry of the layer's cache as it stands in that call, which are the entries
  of the earlier calls and its own. For \<^verbatim>\<open>Deepseek\<close> the cache is the latent cache, the
  third argument.
\<close>

theorem every_call_appends_one_entry_per_layer:
  assumes "gpt_state_ok vocab state_a"
    and "llama_config_ok config_b" and "llama_state_ok config_b vocab state_b"
    and "deepseek_config_ok config_c" and "deepseek_state_ok config_c vocab state_c"
  shows
   "(\<forall>tok pos k keys values.
        tok < vocab \<and> pos < block_size gpt_config
        \<and> cache_ok (\<lambda>e. length e = n_embd gpt_config) (n_layer gpt_config) k keys
        \<and> cache_ok (\<lambda>e. length e = n_embd gpt_config) (n_layer gpt_config) k values \<longrightarrow>
        (\<exists>logits keys' values'.
            gpt state_a tok pos keys values = Some (logits, keys', values')
          \<and> appended_below (\<lambda>e. length e = n_embd gpt_config) (n_layer gpt_config) keys keys'
          \<and> appended_below (\<lambda>e. length e = n_embd gpt_config) (n_layer gpt_config) values values'
          \<and> cache_ok (\<lambda>e. length e = n_embd gpt_config) (n_layer gpt_config) (Suc k) keys'
          \<and> cache_ok (\<lambda>e. length e = n_embd gpt_config) (n_layer gpt_config) (Suc k) values'))
    \<and> (\<forall>tokens. (\<forall>t \<in> set tokens. t < vocab) \<and> length tokens \<le> block_size gpt_config \<longrightarrow>
        (\<exists>keys values.
            forward_calls (gpt state_a) tokens
              (fresh_cache (n_layer gpt_config), fresh_cache (n_layer gpt_config))
              = Some (keys, values)
          \<and> (\<forall>li < n_layer gpt_config.
                length (keys ! li) = length tokens \<and> length (values ! li) = length tokens)))
    \<and> (\<forall>qh kh logits. gpt_logits qh kh = Some logits \<longrightarrow> length logits = length kh)
    \<and> (\<forall>tok pos k keys values.
        tok < vocab
        \<and> cache_ok (heads_entry config_b) (n_layer config_b) k keys
        \<and> cache_ok (heads_entry config_b) (n_layer config_b) k values \<longrightarrow>
        (\<exists>logits keys' values'.
            llama_forward config_b state_b tok pos keys values = Some (logits, keys', values')
          \<and> appended_below (heads_entry config_b) (n_layer config_b) keys keys'
          \<and> appended_below (heads_entry config_b) (n_layer config_b) values values'
          \<and> cache_ok (heads_entry config_b) (n_layer config_b) (Suc k) keys'
          \<and> cache_ok (heads_entry config_b) (n_layer config_b) (Suc k) values'))
    \<and> (\<forall>tokens. (\<forall>t \<in> set tokens. t < vocab) \<longrightarrow>
        (\<exists>keys values.
            forward_calls (llama_forward config_b state_b) tokens
              (fresh_cache (n_layer config_b), fresh_cache (n_layer config_b))
              = Some (keys, values)
          \<and> (\<forall>li < n_layer config_b.
                length (keys ! li) = length tokens \<and> length (values ! li) = length tokens)))
    \<and> (\<forall>q_h k_h_all logits.
        llama_logits config_b q_h k_h_all = Some logits \<longrightarrow> length logits = length k_h_all)
    \<and> (\<forall>tok pos k keysLatentCache.
        tok < vocab
        \<and> cache_ok (\<lambda>e. length e = latent_dim config_c) (n_layer config_c) k keysLatentCache \<longrightarrow>
        (\<exists>logits cache'.
            deepseek_forward config_c state_c tok pos keysLatentCache = Some (logits, cache')
          \<and> appended_below (\<lambda>e. length e = latent_dim config_c) (n_layer config_c)
                keysLatentCache cache'
          \<and> cache_ok (\<lambda>e. length e = latent_dim config_c) (n_layer config_c) (Suc k) cache'))
    \<and> (\<forall>tokens. (\<forall>t \<in> set tokens. t < vocab) \<longrightarrow>
        (\<exists>keys.
            forward_calls (deepseek_call config_c state_c) tokens
              (fresh_cache (n_layer config_c), unused) = Some (keys, unused)
          \<and> (\<forall>li < n_layer config_c. length (keys ! li) = length tokens)))
    \<and> (\<forall>li q_h cache logits.
        deepseek_logits config_c state_c li q_h cache = Some logits \<longrightarrow>
          length logits = length cache)"
proof (intro conjI allI impI)
  fix tok pos k and keys vals :: "Value list list list"
  assume "tok < vocab \<and> pos < block_size gpt_config
      \<and> cache_ok (\<lambda>e. length e = n_embd gpt_config) (n_layer gpt_config) k keys
      \<and> cache_ok (\<lambda>e. length e = n_embd gpt_config) (n_layer gpt_config) k vals"
  then obtain logits keys' vals' where
    "gpt state_a tok pos keys vals = Some (logits, keys', vals')"
    "appended_below (\<lambda>e. length e = n_embd gpt_config) (n_layer gpt_config) keys keys'"
    "appended_below (\<lambda>e. length e = n_embd gpt_config) (n_layer gpt_config) vals vals'"
    "cache_ok (\<lambda>e. length e = n_embd gpt_config) (n_layer gpt_config) (Suc k) keys'"
    "cache_ok (\<lambda>e. length e = n_embd gpt_config) (n_layer gpt_config) (Suc k) vals'"
    using gpt_call [OF assms(1), of tok pos k keys vals] by blast
  then show "\<exists>logits keys' values'.
      gpt state_a tok pos keys vals = Some (logits, keys', values')
      \<and> appended_below (\<lambda>e. length e = n_embd gpt_config) (n_layer gpt_config) keys keys'
      \<and> appended_below (\<lambda>e. length e = n_embd gpt_config) (n_layer gpt_config) vals values'
      \<and> cache_ok (\<lambda>e. length e = n_embd gpt_config) (n_layer gpt_config) (Suc k) keys'
      \<and> cache_ok (\<lambda>e. length e = n_embd gpt_config) (n_layer gpt_config) (Suc k) values'"
    by (intro exI [of _ logits] exI [of _ keys'] exI [of _ vals'] conjI)
next
  fix tokens
  assume "(\<forall>t \<in> set tokens. t < vocab) \<and> length tokens \<le> block_size gpt_config"
  then obtain keys vals where r:
    "forward_calls (gpt state_a) tokens
        (fresh_cache (n_layer gpt_config), fresh_cache (n_layer gpt_config)) = Some (keys, vals)"
    "cache_ok (\<lambda>e. length e = n_embd gpt_config) (n_layer gpt_config) (length tokens) keys"
    "cache_ok (\<lambda>e. length e = n_embd gpt_config) (n_layer gpt_config) (length tokens) vals"
    using gpt_run [OF assms(1), of tokens] by blast
  have "\<forall>li < n_layer gpt_config.
      length (keys ! li) = length tokens \<and> length (vals ! li) = length tokens"
    using cache_ok_lengths [OF r(2)] cache_ok_lengths [OF r(3)] by simp
  with r(1) show "\<exists>keys values.
      forward_calls (gpt state_a) tokens
        (fresh_cache (n_layer gpt_config), fresh_cache (n_layer gpt_config)) = Some (keys, values)
      \<and> (\<forall>li < n_layer gpt_config.
            length (keys ! li) = length tokens \<and> length (values ! li) = length tokens)"
    by (intro exI [of _ keys] exI [of _ vals] conjI)
next
  fix qh kh logits
  assume "gpt_logits qh kh = Some logits"
  then show "length logits = length kh"
    by (rule gpt_logits_length)
next
  fix tok pos k and keys vals :: "Value list list list list"
  assume "tok < vocab
      \<and> cache_ok (heads_entry config_b) (n_layer config_b) k keys
      \<and> cache_ok (heads_entry config_b) (n_layer config_b) k vals"
  then obtain logits keys' vals' where
    "llama_forward config_b state_b tok pos keys vals = Some (logits, keys', vals')"
    "appended_below (heads_entry config_b) (n_layer config_b) keys keys'"
    "appended_below (heads_entry config_b) (n_layer config_b) vals vals'"
    "cache_ok (heads_entry config_b) (n_layer config_b) (Suc k) keys'"
    "cache_ok (heads_entry config_b) (n_layer config_b) (Suc k) vals'"
    using llama_call [OF assms(2,3), of tok k keys vals pos] by blast
  then show "\<exists>logits keys' values'.
      llama_forward config_b state_b tok pos keys vals = Some (logits, keys', values')
      \<and> appended_below (heads_entry config_b) (n_layer config_b) keys keys'
      \<and> appended_below (heads_entry config_b) (n_layer config_b) vals values'
      \<and> cache_ok (heads_entry config_b) (n_layer config_b) (Suc k) keys'
      \<and> cache_ok (heads_entry config_b) (n_layer config_b) (Suc k) values'"
    by (intro exI [of _ logits] exI [of _ keys'] exI [of _ vals'] conjI)
next
  fix tokens
  assume "\<forall>t \<in> set tokens. t < vocab"
  then obtain keys vals where r:
    "forward_calls (llama_forward config_b state_b) tokens
        (fresh_cache (n_layer config_b), fresh_cache (n_layer config_b)) = Some (keys, vals)"
    "cache_ok (heads_entry config_b) (n_layer config_b) (length tokens) keys"
    "cache_ok (heads_entry config_b) (n_layer config_b) (length tokens) vals"
    using llama_run [OF assms(2,3), of tokens] by blast
  have "\<forall>li < n_layer config_b.
      length (keys ! li) = length tokens \<and> length (vals ! li) = length tokens"
    using cache_ok_lengths [OF r(2)] cache_ok_lengths [OF r(3)] by simp
  with r(1) show "\<exists>keys values.
      forward_calls (llama_forward config_b state_b) tokens
        (fresh_cache (n_layer config_b), fresh_cache (n_layer config_b)) = Some (keys, values)
      \<and> (\<forall>li < n_layer config_b.
            length (keys ! li) = length tokens \<and> length (values ! li) = length tokens)"
    by (intro exI [of _ keys] exI [of _ vals] conjI)
next
  fix q_h k_h_all logits
  assume "llama_logits config_b q_h k_h_all = Some logits"
  then show "length logits = length k_h_all"
    by (rule llama_logits_length)
next
  fix tok pos k and keysLatentCache :: "Value list list list"
  assume a: "tok < vocab
      \<and> cache_ok (\<lambda>e. length e = latent_dim config_c) (n_layer config_c) k keysLatentCache"
  then obtain logits cache' where r:
    "deepseek_forward config_c state_c tok pos keysLatentCache = Some (logits, cache')"
    "appended_below (\<lambda>e. length e = latent_dim config_c) (n_layer config_c) keysLatentCache cache'"
    using deepseek_forward_Some [OF assms(4,5), of tok k keysLatentCache pos] by blast
  have "cache_ok (\<lambda>e. length e = latent_dim config_c) (n_layer config_c) (Suc k) cache'"
    using a r(2) cache_ok_appended by blast
  with r show "\<exists>logits cache'.
      deepseek_forward config_c state_c tok pos keysLatentCache = Some (logits, cache')
      \<and> appended_below (\<lambda>e. length e = latent_dim config_c) (n_layer config_c)
            keysLatentCache cache'
      \<and> cache_ok (\<lambda>e. length e = latent_dim config_c) (n_layer config_c) (Suc k) cache'"
    by (intro exI [of _ logits] exI [of _ cache'] conjI)
next
  fix tokens
  assume "\<forall>t \<in> set tokens. t < vocab"
  then obtain keys where r:
    "forward_calls (deepseek_call config_c state_c) tokens (fresh_cache (n_layer config_c), unused)
      = Some (keys, unused)"
    "cache_ok (\<lambda>e. length e = latent_dim config_c) (n_layer config_c) (length tokens) keys"
    using deepseek_run [OF assms(4,5), of tokens unused] by blast
  from r(1) cache_ok_lengths [OF r(2)] show "\<exists>keys.
      forward_calls (deepseek_call config_c state_c) tokens (fresh_cache (n_layer config_c), unused)
        = Some (keys, unused)
      \<and> (\<forall>li < n_layer config_c. length (keys ! li) = length tokens)"
    by (intro exI [of _ keys] conjI)
next
  fix li q_h cache logits
  assume "deepseek_logits config_c state_c li q_h cache = Some logits"
  then show "length logits = length cache"
    by (rule deepseek_logits_length)
qed

theorem every_call_appends_one_entry_per_layer_witness:
  "(\<exists>keys values.
      forward_calls (gpt ex_gpt_state) [0, 1, 2] ([[]], [[]]) = Some (keys, values)
      \<and> length (keys ! 0) = 3 \<and> length (values ! 0) = 3)
   \<and> (\<exists>keys values.
      forward_calls (llama_forward llama_config ex_llama_state) [0, 1, 2] ([[]], [[]])
        = Some (keys, values)
      \<and> length (keys ! 0) = 3 \<and> length (values ! 0) = 3)
   \<and> (\<exists>keys.
      forward_calls (deepseek_call ex_deepseek_config ex_deepseek_state) [0, 1, 2] ([[]], ())
        = Some (keys, ())
      \<and> length (keys ! 0) = 3)"
proof -
  note w = every_call_appends_one_entry_per_layer [where unused = "()",
      OF ex_gpt_state_ok default_llama_config_ok ex_llama_state_ok
        ex_deepseek_config_ok ex_deepseek_state_ok]
  note a = w [THEN conjunct2, THEN conjunct1, THEN spec [where x = "[0, 1, 2]"]]
  note b = w [THEN conjunct2, THEN conjunct2, THEN conjunct2, THEN conjunct2, THEN conjunct1,
      THEN spec [where x = "[0, 1, 2]"]]
  note c = w [THEN conjunct2, THEN conjunct2, THEN conjunct2, THEN conjunct2, THEN conjunct2,
      THEN conjunct2, THEN conjunct2, THEN conjunct1, THEN spec [where x = "[0, 1, 2]"]]
  have l: "n_layer llama_config = 1" "n_layer ex_deepseek_config = 1"
    by (simp_all add: llama_config_def ex_deepseek_config_def)
  show ?thesis
    using a b c by (simp add: l fresh_cache_def numeral_3_eq_3)
qed

section \<open>The fourth argument of the drivers on Variant C\<close>

text \<open>
  Claim C10. \<^verbatim>\<open>train\<close> and \<^verbatim>\<open>infere\<close> call \<^verbatim>\<open>forward(token, pos, keys, values)\<close> on every
  model. On \<^verbatim>\<open>Deepseek\<close> such a call is the forward pass on the first three arguments: it
  hands back the fourth argument as it received it. So when the loop of \<^verbatim>\<open>train\<close> or of
  \<^verbatim>\<open>infere\<close> finishes, \<^verbatim>\<open>values\<close> is still the array of empty layers that the driver
  allocated. Both loops do finish on a store with the shapes of the constructor and
  tokens of the vocabulary, and then each layer of \<^verbatim>\<open>keys\<close> holds one latent per call of
  \<^verbatim>\<open>train\<close>.
\<close>

theorem deepseek_leaves_the_values_cache_empty:
  "(\<forall>logits keys' vals'.
      deepseek_call config state tok pos keys vals = Some (logits, keys', vals') \<longrightarrow>
        vals' = vals \<and> deepseek_forward config state tok pos keys = Some (logits, keys'))
   \<and> (\<forall>losses keys values.
        train_positions (deepseek_call config state) tokens n
          ([], fresh_cache (n_layer config), fresh_cache (n_layer config) :: 'v list list)
          = Some (losses, keys, values) \<longrightarrow>
        values = fresh_cache (n_layer config))
   \<and> (\<forall>sample t keys values.
        infere_positions (deepseek_call config state) pick bos (block_size config) 0
          ([], bos, fresh_cache (n_layer config), fresh_cache (n_layer config) :: 'v list list)
          = Some (sample, t, keys, values) \<longrightarrow>
        values = fresh_cache (n_layer config))
   \<and> (deepseek_config_ok config \<and> deepseek_state_ok config vocab state
        \<and> (\<forall>t \<in> set tokens. t < vocab) \<and> n < length tokens \<longrightarrow>
        (\<exists>losses keys.
            train_positions (deepseek_call config state) tokens n
              ([], fresh_cache (n_layer config), fresh_cache (n_layer config) :: 'v list list)
              = Some (losses, keys, fresh_cache (n_layer config))
          \<and> (\<forall>li < n_layer config. length (keys ! li) = n
                \<and> length ((fresh_cache (n_layer config) :: 'v list list) ! li) = 0)))
   \<and> (deepseek_config_ok config \<and> deepseek_state_ok config vocab state
        \<and> bos < vocab \<and> (\<forall>p ps. pick p ps < vocab) \<longrightarrow>
        (\<exists>sample t keys.
            infere_positions (deepseek_call config state) pick bos (block_size config) 0
              ([], bos, fresh_cache (n_layer config), fresh_cache (n_layer config) :: 'v list list)
              = Some (sample, t, keys, fresh_cache (n_layer config))))"
proof (intro conjI allI impI)
  fix logits keys' vals'
  assume c: "deepseek_call config state tok pos keys vals = Some (logits, keys', vals')"
  then show "vals' = vals"
    by (rule deepseek_call_frame)
  from c show "deepseek_forward config state tok pos keys = Some (logits, keys')"
    by (rule deepseek_call_frame)
next
  fix losses keys vals
  assume "train_positions (deepseek_call config state) tokens n
      ([], fresh_cache (n_layer config), fresh_cache (n_layer config)) = Some (losses, keys, vals)"
  then show "vals = fresh_cache (n_layer config)"
    by (rule train_positions_frame)
next
  fix sample t keys vals
  assume "infere_positions (deepseek_call config state) pick bos (block_size config) 0
      ([], bos, fresh_cache (n_layer config), fresh_cache (n_layer config))
      = Some (sample, t, keys, vals)"
  then show "vals = fresh_cache (n_layer config)"
    by (rule infere_positions_frame)
next
  assume a: "deepseek_config_ok config \<and> deepseek_state_ok config vocab state
      \<and> (\<forall>t \<in> set tokens. t < vocab) \<and> n < length tokens"
  show "\<exists>losses keys.
      train_positions (deepseek_call config state) tokens n
        ([], fresh_cache (n_layer config), fresh_cache (n_layer config) :: 'v list list)
        = Some (losses, keys, fresh_cache (n_layer config))
      \<and> (\<forall>li < n_layer config. length (keys ! li) = n
            \<and> length ((fresh_cache (n_layer config) :: 'v list list) ! li) = 0)"
  proof -
    let ?fresh = "fresh_cache (n_layer config) :: 'v list list"
    obtain losses keys where t:
      "train_positions (deepseek_call config state) tokens n
        ([], fresh_cache (n_layer config), ?fresh) = Some (losses, keys, ?fresh)"
      "cache_ok (\<lambda>e. length e = latent_dim config) (n_layer config) n keys"
      using train_positions_Some [of config vocab state tokens n ?fresh] a by blast
    have "\<forall>li < n_layer config. length (keys ! li) = n \<and> length (?fresh ! li) = 0"
      using t(2) by (simp add: cache_ok_def fresh_cache_def)
    with t(1) show ?thesis
      by (intro exI [of _ losses] exI [of _ keys] conjI)
  qed
next
  assume a: "deepseek_config_ok config \<and> deepseek_state_ok config vocab state
      \<and> bos < vocab \<and> (\<forall>p ps. pick p ps < vocab)"
  then show "\<exists>sample t keys.
      infere_positions (deepseek_call config state) pick bos (block_size config) 0
        ([], bos, fresh_cache (n_layer config), fresh_cache (n_layer config))
        = Some (sample, t, keys, fresh_cache (n_layer config))"
    using infere_positions_Some [of config vocab state pick bos 0 "fresh_cache (n_layer config)"
      bos "block_size config" 0 "[]" "fresh_cache (n_layer config)"]
    by (simp add: cache_ok_fresh)
qed

lemma n_layer_ex_deepseek: "n_layer ex_deepseek_config = 1"
  by (simp add: ex_deepseek_config_def)

lemma block_size_ex_deepseek: "block_size ex_deepseek_config = 4"
  by (simp add: ex_deepseek_config_def)

theorem deepseek_leaves_the_values_cache_empty_witness:
  "(\<exists>losses keys.
      train_positions (deepseek_call ex_deepseek_config ex_deepseek_state) [0, 1, 2] 2
        ([], [[]], [[]::Value list list]) = Some (losses, keys, [[]])
      \<and> length (keys ! 0) = 2)
   \<and> (\<exists>sample t keys.
      infere_positions (deepseek_call ex_deepseek_config ex_deepseek_state) (\<lambda>p ps. 1) 0 4 0
        ([], 0, [[]], [[]::Value list list]) = Some (sample, t, keys, [[]]))"
  using deepseek_leaves_the_values_cache_empty
    [where 'v = "Value list" and config = ex_deepseek_config and state = ex_deepseek_state
      and tok = 0 and pos = 0 and keys = "[[]]" and vals = "[[]::Value list list]"
      and tokens = "[0, 1, 2]" and n = 2 and pick = "\<lambda>p ps. 1" and bos = 0 and vocab = 3]
    ex_deepseek_config_ok ex_deepseek_state_ok
  by (simp add: n_layer_ex_deepseek block_size_ex_deepseek fresh_cache_def)


end
